(* ===== verification/Prelude.thy ===== *)
theory Prelude
  imports Main "HOL-Library.Word"
begin

text \<open>
  Shared vocabulary of the development: the outcome of a C computation, C strings in byte buffers,
  decimal conversion as \<^verbatim>\<open>printf\<close> performs it, lazily written \<^verbatim>\<open>calloc\<close> buffers, the outcome of
  the allocator and of the clock, and the lemmas on them that several components use.

  A C function is modelled by a HOL function whose result is an \<open>outcome\<close>: \<open>Ret x\<close> when the C code
  returns \<open>x\<close>, \<open>UB\<close> when it executes an operation the C standard leaves undefined (reading an
  uninitialised or out-of-range cell, dereferencing NULL, overflowing a signed \<^verbatim>\<open>int\<close>), and
  \<open>OutOfFuel\<close> when a bounded unrolling of a recursive function was too short (each use of fuel comes
  with a lemma that the fuel given is enough). A pointer that may be NULL is an \<open>option\<close>.
\<close>

section \<open>Outcomes of C computations\<close>

datatype 'a outcome = Ret 'a | UB | OutOfFuel

fun obind :: "'a outcome \<Rightarrow> ('a \<Rightarrow> 'b outcome) \<Rightarrow> 'b outcome" where
  "obind (Ret a) f = f a"
| "obind UB f = UB"
| "obind OutOfFuel f = OutOfFuel"

named_theorems outcome_simps

lemma obind_cong [fundef_cong]:
  "m = m' \<Longrightarrow> (\<And>a. m' = Ret a \<Longrightarrow> f a = g a) \<Longrightarrow> obind m f = obind m' g"
  by (cases m') auto

lemma obind_Ret_iff [outcome_simps]: "obind m f = Ret b \<longleftrightarrow> (\<exists>a. m = Ret a \<and> f a = Ret b)"
  by (cases m) auto

lemma obind_UB_iff [outcome_simps]: "obind m f = UB \<longleftrightarrow> m = UB \<or> (\<exists>a. m = Ret a \<and> f a = UB)"
  by (cases m) auto

lemma obind_OutOfFuel_iff [outcome_simps]:
  "obind m f = OutOfFuel \<longleftrightarrow> m = OutOfFuel \<or> (\<exists>a. m = Ret a \<and> f a = OutOfFuel)"
  by (cases m) auto

text \<open>\<open>wp m Q\<close>: the computation does not run out of fuel, and if it returns, its result satisfies \<open>Q\<close>.
  Undefined behaviour is not excluded; where it matters, theorems state \<open>m = Ret x\<close> instead.\<close>

definition wp :: "'a outcome \<Rightarrow> ('a \<Rightarrow> bool) \<Rightarrow> bool" where
  "wp m Q \<longleftrightarrow> (case m of Ret a \<Rightarrow> Q a | UB \<Rightarrow> True | OutOfFuel \<Rightarrow> False)"

lemma wp_simps [simp]:
  "wp (Ret a) Q = Q a" "wp UB Q = True" "wp OutOfFuel Q = False"
  by (simp_all add: wp_def)

lemma wp_obind [simp]: "wp (obind m f) Q \<longleftrightarrow> wp m (\<lambda>a. wp (f a) Q)"
  by (cases m) auto

lemma wp_mono: "wp m P \<Longrightarrow> (\<And>a. P a \<Longrightarrow> Q a) \<Longrightarrow> wp m Q"
  by (cases m) auto

lemma wp_if [simp]: "wp (if b then m else m') Q \<longleftrightarrow> (if b then wp m Q else wp m' Q)"
  by simp

lemma wp_not_fuel: "wp m Q \<Longrightarrow> m \<noteq> OutOfFuel"
  by auto

lemma wpD: "wp m Q \<Longrightarrow> m = Ret a \<Longrightarrow> Q a"
  by simp

lemma wpI: "m \<noteq> OutOfFuel \<Longrightarrow> (\<And>a. m = Ret a \<Longrightarrow> Q a) \<Longrightarrow> wp m Q"
  by (cases m) auto

section \<open>C strings\<close>

abbreviation NUL :: char where "NUL \<equiv> CHR 0x00"
abbreviation CR :: char where "CR \<equiv> CHR 0x0D"
abbreviation LF :: char where "LF \<equiv> CHR 0x0A"
abbreviation CRLF :: string where "CRLF \<equiv> [CR, LF]"

text \<open>The C string stored in a buffer: the bytes before the first NUL. The model of a buffer leaves
  out its terminating NUL, so a buffer without an inner NUL is its own C string.\<close>

definition cstr :: "string \<Rightarrow> string" where
  "cstr s = takeWhile (\<lambda>c. c \<noteq> NUL) s"

definition strlen :: "string \<Rightarrow> nat" where
  "strlen s = length (cstr s)"

text \<open>\<open>strcmp_eq a b\<close> is \<^verbatim>\<open>strcmp(a,b)==0\<close>.\<close>

definition strcmp_eq :: "string \<Rightarrow> string \<Rightarrow> bool" where
  "strcmp_eq a b \<longleftrightarrow> cstr a = cstr b"

lemma cstr_id [simp]: "NUL \<notin> set s \<Longrightarrow> cstr s = s"
  unfolding cstr_def by (auto simp: takeWhile_eq_all_conv)

lemma cstr_no_NUL [simp]: "NUL \<notin> set (cstr s)"
  unfolding cstr_def by (auto dest: set_takeWhileD)

lemma cstr_Nil [simp]: "cstr [] = []"
  by (simp add: cstr_def)

lemma cstr_Cons: "cstr (c # s) = (if c = NUL then [] else c # cstr s)"
  by (simp add: cstr_def)

lemma cstr_append: "NUL \<notin> set s \<Longrightarrow> cstr (s @ t) = s @ cstr t"
  unfolding cstr_def by (auto simp: takeWhile_append)

lemma strlen_id [simp]: "NUL \<notin> set s \<Longrightarrow> strlen s = length s"
  by (simp add: strlen_def)

text \<open>\<^verbatim>\<open>memcpy(dst, content, n)\<close>: the \<open>n\<close> bytes copied out of a NUL-terminated buffer. One
  byte past the modelled contents is the terminating NUL; reading further is undefined.\<close>

definition memcpy_bytes :: "string \<Rightarrow> nat \<Rightarrow> string outcome" where
  "memcpy_bytes content n =
     (if n \<le> length content + 1 then Ret (take n (content @ [NUL])) else UB)"

lemma memcpy_bytes_all [simp]: "memcpy_bytes s (length s) = Ret s"
  by (simp add: memcpy_bytes_def)

lemma memcpy_bytes_le: "n \<le> length s \<Longrightarrow> memcpy_bytes s n = Ret (take n s)"
  by (simp add: memcpy_bytes_def)

section \<open>Decimal conversion\<close>

fun dec_nat :: "nat \<Rightarrow> string" where
  "dec_nat n =
     (if n < 10 then [char_of (48 + n)] else dec_nat (n div 10) @ [char_of (48 + n mod 10)])"

declare dec_nat.simps [simp del]

text \<open>The bytes \<^verbatim>\<open>%d\<close> prints.\<close>

definition dec_int :: "int \<Rightarrow> string" where
  "dec_int i = (if i < 0 then CHR ''-'' # dec_nat (nat (- i)) else dec_nat (nat i))"

definition is_digit :: "char \<Rightarrow> bool" where
  "is_digit c \<longleftrightarrow> 47 < (of_char c :: nat) \<and> (of_char c :: nat) < 58"

definition digit_val :: "char \<Rightarrow> nat" where
  "digit_val c = of_char c - 48"

definition digits_val :: "string \<Rightarrow> nat" where
  "digits_val s = foldl (\<lambda>n c. 10 * n + digit_val c) 0 s"

lemma of_char_digit [simp]:
  "n < 10 \<Longrightarrow> (of_char (char_of (48 + n :: nat) :: char) :: nat) = 48 + n"
  by (simp add: of_char_of)

lemma is_digit_char_of [simp]: "n < 10 \<Longrightarrow> is_digit (char_of (48 + n :: nat))"
  by (simp add: is_digit_def)

lemma digit_val_char_of [simp]: "n < 10 \<Longrightarrow> digit_val (char_of (48 + n :: nat)) = n"
  by (simp add: digit_val_def)

lemma is_digit_distinct [simp]:
  "\<not> is_digit NUL" "\<not> is_digit CR" "\<not> is_digit LF" "\<not> is_digit CHR ''-''"
  by (simp_all add: is_digit_def)

lemma dec_nat_digits: "c \<in> set (dec_nat n) \<Longrightarrow> is_digit c"
proof (induction n rule: dec_nat.induct)
  case (1 n)
  then show ?case by (subst (asm) (2) dec_nat.simps) (auto split: if_splits)
qed

lemma dec_nat_nonempty [simp]: "dec_nat n \<noteq> []"
  by (subst dec_nat.simps) auto

lemma digits_val_snoc: "digits_val (s @ [c]) = 10 * digits_val s + digit_val c"
  by (simp add: digits_val_def)

lemma digits_val_dec_nat [simp]: "digits_val (dec_nat n) = n"
proof (induction n rule: dec_nat.induct)
  case (1 n)
  show ?case
  proof (cases "n < 10")
    case True
    then show ?thesis by (subst dec_nat.simps) (simp add: digits_val_def)
  next
    case False
    with "1.IH" show ?thesis by (subst dec_nat.simps) (simp add: digits_val_snoc)
  qed
qed

lemma dec_nat_no_NUL [simp]: "NUL \<notin> set (dec_nat n)"
  using dec_nat_digits by fastforce

lemma dec_int_no_NUL [simp]: "NUL \<notin> set (dec_int i)"
  by (simp add: dec_int_def)

lemma dec_nat_length_le: "n < 10 ^ Suc k \<Longrightarrow> length (dec_nat n) \<le> Suc k"
proof (induction k arbitrary: n)
  case 0
  then show ?case by (subst dec_nat.simps) simp
next
  case (Suc k)
  show ?case
  proof (cases "n < 10")
    case True
    then show ?thesis by (subst dec_nat.simps) simp
  next
    case False
    from Suc.prems have "n div 10 < 10 ^ Suc k" by (simp add: less_mult_imp_div_less mult.commute)
    then have "length (dec_nat (n div 10)) \<le> Suc k" by (rule Suc.IH)
    with False show ?thesis by (subst dec_nat.simps) simp
  qed
qed

text \<open>What \<^verbatim>\<open>snprintf(buf, cap, ...)\<close> leaves in the buffer when the formatted text is \<open>s\<close>.\<close>

definition snprintf_buf :: "nat \<Rightarrow> string \<Rightarrow> string" where
  "snprintf_buf cap s = take (cap - 1) s"

section \<open>Machine integers\<close>

type_synonym uint = "32 word"
type_synonym cchar = "8 word"

abbreviation INT_MAX :: int where "INT_MAX \<equiv> 2147483647"

text \<open>The conversion of an \<^verbatim>\<open>unsigned int\<close> to \<^verbatim>\<open>int\<close> (modulo $2^{32}$, as gcc defines it).\<close>

definition uint_to_int :: "uint \<Rightarrow> int" where
  "uint_to_int w = sint w"

lemma uint_to_int_of_nat: "n < 2 ^ 31 \<Longrightarrow> uint_to_int (of_nat n) = int n"
  unfolding uint_to_int_def
  by (simp add: signed_of_nat signed_take_bit_int_eq_self)

section \<open>Searching lists\<close>

text \<open>The index of the first element that satisfies a predicate.\<close>

fun find_idx :: "('a \<Rightarrow> bool) \<Rightarrow> 'a list \<Rightarrow> nat option" where
  "find_idx P [] = None"
| "find_idx P (x # xs) = (if P x then Some 0 else map_option Suc (find_idx P xs))"

lemma find_idx_None_iff: "find_idx P xs = None \<longleftrightarrow> (\<forall>x\<in>set xs. \<not> P x)"
  by (induction xs) auto

lemma find_idx_SomeD:
  "find_idx P xs = Some i \<Longrightarrow> i < length xs \<and> P (xs ! i) \<and> (\<forall>j<i. \<not> P (xs ! j))"
proof (induction xs arbitrary: i)
  case (Cons x xs)
  then show ?case by (auto split: if_splits simp: less_Suc_eq_0_disj)
qed simp

text \<open>Removing one position of a list.\<close>

definition remove_nth :: "nat \<Rightarrow> 'a list \<Rightarrow> 'a list" where
  "remove_nth i xs = take i xs @ drop (Suc i) xs"

lemma length_remove_nth [simp]: "i < length xs \<Longrightarrow> length (remove_nth i xs) = length xs - 1"
  by (simp add: remove_nth_def)

lemma map_remove_nth: "map f (remove_nth i xs) = remove_nth i (map f xs)"
  by (simp add: remove_nth_def take_map drop_map)

lemma set_remove_nth_subset: "set (remove_nth i xs) \<subseteq> set xs"
  by (auto simp: remove_nth_def dest: in_set_takeD in_set_dropD)

lemma distinct_remove_nth: "distinct xs \<Longrightarrow> distinct (remove_nth i xs)"
  unfolding remove_nth_def using set_take_disj_set_drop_if_distinct [of xs i "Suc i"] by auto

text \<open>Association lists with distinct keys as finite maps.\<close>

lemma map_of_distinct_nth:
  "distinct (map fst xs) \<Longrightarrow> i < length xs \<Longrightarrow> map_of xs (fst (xs ! i)) = Some (snd (xs ! i))"
  by (rule map_of_is_SomeI) (auto simp: in_set_conv_nth)

lemma map_of_list_update:
  assumes "distinct (map fst xs)" "i < length xs" "fst (xs ! i) = fst e"
  shows "map_of (xs[i := e]) = (map_of xs)(fst e \<mapsto> snd e)"
  using assms
proof (induction xs arbitrary: i)
  case (Cons x xs)
  show ?case
  proof (cases i)
    case 0
    with Cons.prems show ?thesis by (auto simp: fun_eq_iff)
  next
    case (Suc j)
    with Cons.prems have "map_of (xs[j := e]) = (map_of xs)(fst e \<mapsto> snd e)"
      by (intro Cons.IH) auto
    moreover have "fst x \<noteq> fst e"
      using Cons.prems Suc by (metis distinct.simps(2) length_Cons length_map list.simps(9) nth_Cons_Suc nth_map nth_mem Suc_less_eq)
    ultimately show ?thesis using Suc by (auto simp: fun_eq_iff)
  qed
qed simp

lemma map_of_remove_nth:
  assumes "distinct (map fst xs)" "i < length xs"
  shows "map_of (remove_nth i xs) = (map_of xs)(fst (xs ! i) := None)"
  using assms
proof (induction xs arbitrary: i)
  case (Cons x xs)
  show ?case
  proof (cases i)
    case 0
    with Cons.prems have "map_of xs (fst x) = None"
      by (simp add: map_of_eq_None_iff image_iff)
    with 0 show ?thesis by (auto simp: remove_nth_def fun_eq_iff)
  next
    case (Suc j)
    with Cons.prems have "map_of (remove_nth j xs) = (map_of xs)(fst (xs ! j) := None)"
      by (intro Cons.IH) auto
    moreover have "fst x \<noteq> fst (xs ! j)"
      using Cons.prems Suc nth_mem [of j xs] by force
    ultimately show ?thesis using Suc by (auto simp: remove_nth_def fun_eq_iff)
  qed
qed simp

section \<open>What the environment answers\<close>

text \<open>Clock readings in chronological order of seconds and nanoseconds.\<close>

datatype timespec = Timespec (tv_sec: int) (tv_nsec: int)

instantiation timespec :: linorder
begin

definition less_eq_timespec :: "timespec \<Rightarrow> timespec \<Rightarrow> bool" where
  "a \<le> b \<longleftrightarrow> tv_sec a < tv_sec b \<or> tv_sec a = tv_sec b \<and> tv_nsec a \<le> tv_nsec b"

definition less_timespec :: "timespec \<Rightarrow> timespec \<Rightarrow> bool" where
  "a < b \<longleftrightarrow> tv_sec a < tv_sec b \<or> tv_sec a = tv_sec b \<and> tv_nsec a < tv_nsec b"

instance
  by standard (auto simp: less_eq_timespec_def less_timespec_def timespec.expand)

end

end
