(* ===== verification/C_Float.thy ===== *)
theory C_Float
  imports Complex_Main Prelude
begin

text \<open>
  The floating-point arithmetic of the expiry and time-out checks (\<^verbatim>\<open>has_key_expired\<close> in
  \<^verbatim>\<open>src/src/cmd_handler.c\<close>, \<^verbatim>\<open>was_waiting_time_exceeded\<close> in \<^verbatim>\<open>src/src/server.c\<close>). A \<^verbatim>\<open>float\<close> or
  \<^verbatim>\<open>double\<close> is the rational number it denotes; \<open>fl p\<close> is the IEEE 754 rounding to \<open>p\<close> significant bits
  (24 for \<^verbatim>\<open>float\<close>, 53 for \<^verbatim>\<open>double\<close>), to nearest with ties to even. Exponents are unbounded: the
  times that occur (up to $2^{64}$ seconds, down to $10^{-9}$) are far from overflow and underflow.
\<close>

section \<open>Powers of two and binary exponents\<close>

definition pow2 :: "int \<Rightarrow> rat" where
  "pow2 e = (if 0 \<le> e then 2 ^ nat e else 1 / 2 ^ nat (- e))"

lemma pow2_pos [simp]: "0 < pow2 e"
  by (simp add: pow2_def)

lemma pow2_nonzero [simp]: "pow2 e \<noteq> 0"
  using pow2_pos [of e] by (metis less_irrefl)

lemma pow2_0 [simp]: "pow2 0 = 1"
  by (simp add: pow2_def)

lemma pow2_Suc: "pow2 (e + 1) = 2 * pow2 e"
proof -
  consider "0 \<le> e" | "e = -1" | "e < -1" by linarith
  then show ?thesis
  proof cases
    case 1
    then show ?thesis by (simp add: pow2_def nat_add_distrib)
  next
    case 2
    then show ?thesis by (simp add: pow2_def)
  next
    case 3
    then have "nat (- e) = Suc (nat (- (e + 1)))" by simp
    with 3 show ?thesis by (simp add: pow2_def)
  qed
qed

lemma pow2_add_nat: "pow2 (e + int n) = pow2 e * 2 ^ n"
proof (induction n)
  case (Suc n)
  have "pow2 (e + int (Suc n)) = pow2 ((e + int n) + 1)" by (simp add: algebra_simps)
  also have "\<dots> = 2 * pow2 (e + int n)" by (rule pow2_Suc)
  finally show ?case using Suc by simp
qed simp

lemma pow2_mono: "a \<le> b \<Longrightarrow> pow2 a \<le> pow2 b"
  using pow2_add_nat [of a "nat (b - a)"] by simp

lemma pow2_nat: "pow2 (int n) = 2 ^ n"
  by (simp add: pow2_def)

fun bits :: "nat \<Rightarrow> nat" where
  "bits n = (if n = 0 then 0 else Suc (bits (n div 2)))"

declare bits.simps [simp del]

lemma bits_bounds: "0 < n \<Longrightarrow> 2 ^ (bits n - 1) \<le> n \<and> n < 2 ^ bits n"
proof (induction n rule: bits.induct)
  case (1 n)
  show ?case
  proof (cases "n = 1")
    case True
    then show ?thesis by (simp add: bits.simps)
  next
    case False
    with 1 have IH: "2 ^ (bits (n div 2) - 1) \<le> n div 2" "n div 2 < 2 ^ bits (n div 2)" by auto
    have b: "bits n = Suc (bits (n div 2))" using "1.prems" by (subst bits.simps) simp
    have "bits (n div 2) \<noteq> 0" using False "1.prems" by (subst bits.simps) simp
    then obtain k where "bits (n div 2) = Suc k" by (cases "bits (n div 2)") auto
    with IH b show ?thesis by auto
  qed
qed

text \<open>The exponent of a positive rational: \<open>pow2 (ilog2 x) \<le> x < pow2 (ilog2 x + 1)\<close>.\<close>

definition ilog2 :: "rat \<Rightarrow> int" where
  "ilog2 x =
     (if 1 \<le> x then int (bits (nat \<lfloor>x\<rfloor>)) - 1 else - int (bits (nat (\<lceil>1 / x\<rceil> - 1))))"

lemma of_nat_pow2_le: "2 ^ k \<le> n \<Longrightarrow> (2 ^ k :: rat) \<le> of_nat n"
  by (metis of_nat_le_iff of_nat_numeral of_nat_power)

lemma of_nat_pow2_less: "n < 2 ^ k \<Longrightarrow> of_nat n + 1 \<le> (2 ^ k :: rat)"
  by (metis Suc_eq_plus1 Suc_leI of_nat_1 of_nat_add of_nat_le_iff of_nat_numeral of_nat_power)

lemma ilog2_bounds:
  assumes "0 < x"
  shows "pow2 (ilog2 x) \<le> x \<and> x < pow2 (ilog2 x + 1)"
proof (cases "1 \<le> x")
  case True
  define n where "n = nat \<lfloor>x\<rfloor>"
  have n: "(of_nat n :: rat) \<le> x" "x < of_nat n + 1" "0 < n"
    using True by (auto simp: n_def) linarith+
  obtain k where k: "bits n = Suc k" using n(3) by (subst (asm) bits.simps) auto
  have "2 ^ k \<le> n" "n < 2 ^ Suc k" using bits_bounds [OF n(3)] k by auto
  then have "(2 ^ k :: rat) \<le> x" "x < 2 ^ Suc k"
    using of_nat_pow2_le [of k n] of_nat_pow2_less [of n "Suc k"] n by linarith+
  moreover have "ilog2 x = int k" using True k by (simp add: ilog2_def n_def)
  ultimately show ?thesis using pow2_nat [of k] pow2_nat [of "Suc k"] by (simp add: add.commute)
next
  case False
  define n where "n = nat (\<lceil>1 / x\<rceil> - 1)"
  have "1 < 1 / x" using False assms by simp
  then have n: "(of_nat n :: rat) < 1 / x" "1 / x \<le> of_nat n + 1" "0 < n"
    by (auto simp: n_def) linarith+
  obtain k where k: "bits n = Suc k" using n(3) by (subst (asm) bits.simps) auto
  have "2 ^ k \<le> n" "n < 2 ^ Suc k" using bits_bounds [OF n(3)] k by auto
  then have b: "(2 ^ k :: rat) < 1 / x" "1 / x \<le> 2 ^ Suc k"
    using of_nat_pow2_le [of k n] of_nat_pow2_less [of n "Suc k"] n by linarith+
  have "ilog2 x = - int (Suc k)" using False k by (simp add: ilog2_def n_def)
  moreover have "pow2 (- int (Suc k)) \<le> x"
    using b(2) assms by (simp add: pow2_def field_simps nat_add_distrib)
  moreover have "x < pow2 (- int k)"
    using b(1) assms by (auto simp: pow2_def field_simps)
  ultimately show ?thesis by simp
qed

lemma ilog2_unique:
  assumes "pow2 e \<le> x" "x < pow2 (e + 1)"
  shows "ilog2 x = e"
proof -
  have x: "0 < x" using assms(1) pow2_pos [of e] by linarith
  note b = ilog2_bounds [OF x]
  have "\<not> ilog2 x + 1 \<le> e" using pow2_mono [of "ilog2 x + 1" e] b assms by linarith
  moreover have "\<not> e + 1 \<le> ilog2 x" using pow2_mono [of "e + 1" "ilog2 x"] b assms by linarith
  ultimately show ?thesis by simp
qed

lemma ilog2_mono:
  assumes "0 < x" "x \<le> y"
  shows "ilog2 x \<le> ilog2 y"
proof -
  have "\<not> ilog2 y + 1 \<le> ilog2 x"
    using pow2_mono [of "ilog2 y + 1" "ilog2 x"] ilog2_bounds [of x] ilog2_bounds [of y] assms
    by linarith
  then show ?thesis by simp
qed

section \<open>Rounding to nearest, ties to even\<close>

definition round_even :: "rat \<Rightarrow> int" where
  "round_even x =
     (let f = \<lfloor>x\<rfloor>; r = x - of_int f
      in if r < 1 / 2 \<or> r = 1 / 2 \<and> even f then f else f + 1)"

lemma round_even_bounds: "of_int (round_even x) - 1 / 2 \<le> x \<and> x \<le> of_int (round_even x) + 1 / 2"
  using floor_correct [of x] by (auto simp: round_even_def Let_def) linarith+

lemma round_even_of_int [simp]: "round_even (of_int n) = n"
  by (simp add: round_even_def)

lemma round_even_mono:
  assumes "x \<le> y"
  shows "round_even x \<le> round_even y"
proof (cases "\<lfloor>x\<rfloor> = \<lfloor>y\<rfloor>")
  case True
  with assms show ?thesis by (auto simp: round_even_def Let_def)
next
  case False
  with floor_mono [OF assms] have "\<lfloor>x\<rfloor> + 1 \<le> \<lfloor>y\<rfloor>" by linarith
  moreover have "round_even x \<le> \<lfloor>x\<rfloor> + 1" "\<lfloor>y\<rfloor> \<le> round_even y"
    by (auto simp: round_even_def Let_def)
  ultimately show ?thesis by linarith
qed

text \<open>Rounding a positive number to \<open>p\<close> bits, then any number.\<close>

definition fl_pos :: "nat \<Rightarrow> rat \<Rightarrow> rat" where
  "fl_pos p x = (let u = pow2 (ilog2 x - int p + 1) in of_int (round_even (x / u)) * u)"

definition fl :: "nat \<Rightarrow> rat \<Rightarrow> rat" where
  "fl p x = (if x = 0 then 0 else if x < 0 then - fl_pos p (- x) else fl_pos p x)"

lemma fl_pos_range:
  assumes "0 < x" "0 < p"
  shows "pow2 (ilog2 x) \<le> fl_pos p x" "fl_pos p x \<le> pow2 (ilog2 x + 1)"
proof -
  let ?u = "pow2 (ilog2 x - int p + 1)"
  have lo: "pow2 (ilog2 x) = of_int (2 ^ (p - 1)) * ?u"
    using pow2_add_nat [of "ilog2 x - int p + 1" "p - 1"] assms(2) by simp
  have hi: "pow2 (ilog2 x + 1) = of_int (2 ^ p) * ?u"
    using pow2_add_nat [of "ilog2 x - int p + 1" p] by simp
  have b: "of_int (2 ^ (p - 1)) \<le> x / ?u" "x / ?u \<le> of_int (2 ^ p)"
    using ilog2_bounds [OF assms(1)] lo hi by (simp_all add: field_simps)
  have "2 ^ (p - 1) \<le> round_even (x / ?u)" "round_even (x / ?u) \<le> 2 ^ p"
    using round_even_mono [OF b(1)] round_even_mono [OF b(2)] by (simp_all del: of_int_power)
  then have "of_int (2 ^ (p - 1)) * ?u \<le> of_int (round_even (x / ?u)) * ?u"
    "of_int (round_even (x / ?u)) * ?u \<le> of_int (2 ^ p) * ?u"
    by (intro mult_right_mono; simp add: less_imp_le del: of_int_power)+
  then show "pow2 (ilog2 x) \<le> fl_pos p x" "fl_pos p x \<le> pow2 (ilog2 x + 1)"
    using lo hi by (simp_all add: fl_pos_def Let_def)
qed

lemma fl_pos_mono:
  assumes "0 < x" "x \<le> y" "0 < p"
  shows "fl_pos p x \<le> fl_pos p y"
proof (cases "ilog2 x = ilog2 y")
  case True
  let ?u = "pow2 (ilog2 y - int p + 1)"
  have "x / ?u \<le> y / ?u" using assms by (simp add: divide_right_mono less_imp_le)
  then have "round_even (x / ?u) \<le> round_even (y / ?u)" by (rule round_even_mono)
  then show ?thesis using True by (simp add: fl_pos_def Let_def mult_right_mono less_imp_le)
next
  case False
  with ilog2_mono [OF assms(1,2)] have "ilog2 x + 1 \<le> ilog2 y" by simp
  then have "pow2 (ilog2 x + 1) \<le> pow2 (ilog2 y)" by (rule pow2_mono)
  then show ?thesis
    using fl_pos_range [of x p] fl_pos_range [of y p] assms by linarith
qed

lemma fl_pos_pos: "0 < x \<Longrightarrow> 0 < p \<Longrightarrow> 0 < fl_pos p x"
  using fl_pos_range(1) [of x p] pow2_pos [of "ilog2 x"] by linarith

theorem fl_mono:
  assumes "x \<le> y" "0 < p"
  shows "fl p x \<le> fl p y"
proof -
  consider "0 < x" | "x = 0" | "x < 0" "0 \<le> y" | "x < 0" "y < 0" by linarith
  then show ?thesis
  proof cases
    case 1
    with assms show ?thesis by (simp add: fl_def fl_pos_mono)
  next
    case 2
    with assms fl_pos_pos [of y p] show ?thesis by (auto simp: fl_def less_imp_le)
  next
    case 3
    then show ?thesis
      using fl_pos_pos [of "- x" p] fl_pos_pos [of y p] assms by (auto simp: fl_def) 
  next
    case 4
    with assms show ?thesis by (simp add: fl_def fl_pos_mono)
  qed
qed

text \<open>Integers of at most \<open>p\<close> bits are exact.\<close>

lemma fl_pos_exact:
  assumes "x / pow2 (ilog2 x - int p + 1) = of_int n"
  shows "fl_pos p x = x"
  by (simp only: fl_pos_def Let_def assms round_even_of_int) (simp flip: assms)

lemma fl_nat_exact:
  assumes "n < 2 ^ p" "0 < p"
  shows "fl p (of_nat n) = of_nat n"
proof (cases "n = 0")
  case False
  let ?x = "of_nat n :: rat"
  have "1 \<le> ?x" using False by (cases n) auto
  have "?x < pow2 (int p)" using assms(1) by (metis of_nat_less_iff of_nat_numeral of_nat_power pow2_nat)
  then have "\<not> int p \<le> ilog2 ?x"
    using pow2_mono [of "int p" "ilog2 ?x"] ilog2_bounds [of ?x] \<open>1 \<le> ?x\<close> by linarith
  then obtain k where k: "int p = ilog2 ?x + 1 + int k"
    by (metis add.commute le_add_diff_inverse not_le zless_iff_Suc_zadd zle_iff_zadd zless_imp_add1_zle)
  have "?x / pow2 (ilog2 ?x - int p + 1) = of_int (int n * 2 ^ k)"
    using pow2_add_nat [of "- int k" k] k by (simp add: field_simps)
  from fl_pos_exact [OF this] show ?thesis using False by (simp add: fl_def)
qed (simp add: fl_def)

section \<open>Clock readings as floats\<close>

text \<open>\<^verbatim>\<open>tv_sec + tv_nsec/1e9\<close> computed in \<^verbatim>\<open>double\<close> and stored in a \<^verbatim>\<open>float\<close>.\<close>

definition ts_float :: "timespec \<Rightarrow> rat" where
  "ts_float ts = fl 24 (fl 53 (fl 53 (of_int (tv_sec ts)) + fl 53 (of_int (tv_nsec ts) / 10 ^ 9)))"

text \<open>A reading of a monotonic clock.\<close>

definition ts_valid :: "timespec \<Rightarrow> bool" where
  "ts_valid ts \<longleftrightarrow> 0 \<le> tv_sec ts \<and> tv_sec ts < 2 ^ 53 \<and> 0 \<le> tv_nsec ts \<and> tv_nsec ts < 10 ^ 9"

lemma fl_0 [simp]: "fl p 0 = 0"
  by (simp add: fl_def)

lemma fl_int_exact: "0 \<le> n \<Longrightarrow> n < 2 ^ p \<Longrightarrow> 0 < p \<Longrightarrow> fl p (of_int n) = of_int n"
  using fl_nat_exact [of "nat n" p] by (simp add: nat_less_iff)

lemma fl_1 [simp]: "0 < p \<Longrightarrow> fl p 1 = 1"
  using fl_int_exact [of 1 p] by simp

lemma fl_nonneg: "0 \<le> x \<Longrightarrow> 0 < p \<Longrightarrow> 0 \<le> fl p x"
  using fl_mono [of 0 x p] by simp

lemma ts_float_mono:
  assumes "ts_valid a" "ts_valid b" "a \<le> b"
  shows "ts_float a \<le> ts_float b"
proof -
  let ?n = "\<lambda>t. fl 53 (of_int (tv_nsec t) / 10 ^ 9)"
  have n: "0 \<le> ?n t \<and> ?n t \<le> 1" if "ts_valid t" for t
  proof -
    have "of_int (tv_nsec t) \<le> (10 ^ 9 :: rat)"
      using that by (simp add: ts_valid_def)
    then have "of_int (tv_nsec t) / 10 ^ 9 \<le> (1 :: rat)" by simp
    from fl_mono [OF this, of 53] that show ?thesis by (simp add: ts_valid_def fl_nonneg)
  qed
  have sec: "fl 53 (of_int (tv_sec t)) = of_int (tv_sec t)" if "ts_valid t" for t
    using that by (intro fl_int_exact) (simp_all add: ts_valid_def)
  have "of_int (tv_sec a) + ?n a \<le> of_int (tv_sec b) + ?n b"
  proof (cases "tv_sec a = tv_sec b")
    case True
    with assms(3) have "tv_nsec a \<le> tv_nsec b" by (simp add: less_eq_timespec_def)
    then have "of_int (tv_nsec a) / 10 ^ 9 \<le> (of_int (tv_nsec b) / 10 ^ 9 :: rat)"
      by (simp add: divide_right_mono)
    from fl_mono [OF this, of 53] True show ?thesis by simp
  next
    case False
    with assms(3) have "tv_sec a + 1 \<le> tv_sec b" by (simp add: less_eq_timespec_def)
    then have "of_int (tv_sec a) + 1 \<le> (of_int (tv_sec b) :: rat)"
      by (metis of_int_1 of_int_add of_int_le_iff)
    with n [OF assms(1)] n [OF assms(2)] show ?thesis by linarith
  qed
  then show ?thesis using sec [OF assms(1)] sec [OF assms(2)] by (simp add: ts_float_def fl_mono)
qed

text \<open>Whole seconds below $2^{24}$ (194 days of uptime) are represented exactly.\<close>

lemma ts_float_whole: "0 \<le> n \<Longrightarrow> n < 2 ^ 24 \<Longrightarrow> ts_float (Timespec n 0) = of_int n"
  by (simp add: ts_float_def fl_int_exact)

text \<open>Beyond that, a \<^verbatim>\<open>float\<close> no longer distinguishes consecutive seconds.\<close>

lemma ts_float_rounds:
  "ts_float (Timespec (2 ^ 24) 0) = 2 ^ 24" "ts_float (Timespec (2 ^ 24 + 1) 0) = 2 ^ 24"
proof -
  have u: "pow2 1 = 2" by (simp add: pow2_def)
  have l: "ilog2 16777216 = 24" "ilog2 16777217 = 24"
    by (rule ilog2_unique; simp add: pow2_def)+
  have r: "\<lfloor>16777217 / (2 :: rat)\<rfloor> = 8388608" by (simp add: floor_eq_iff)
  have "fl_pos 24 16777216 = 16777216"
    using round_even_of_int [of 8388608] by (simp add: fl_pos_def l u Let_def)
  moreover have "fl_pos 24 16777217 = 16777216"
    by (simp add: fl_pos_def l u Let_def round_even_def r)
  moreover have "fl 53 (of_int 16777216) = of_int 16777216" "fl 53 (of_int 16777217) = of_int 16777217"
    by (rule fl_int_exact; simp)+
  ultimately show "ts_float (Timespec (2 ^ 24) 0) = 2 ^ 24" "ts_float (Timespec (2 ^ 24 + 1) 0) = 2 ^ 24"
    by (simp_all add: ts_float_def fl_def [of 24])
qed

end
