(* ===== verification/Errors.thy ===== *)
theory Errors
  imports Prelude
begin

text \<open>
  The error categories of \<^verbatim>\<open>src/src/errors.c\<close>. An \<^verbatim>\<open>errno\<close> value is its number on Linux; the
  allocation of the result structure is taken to succeed.
\<close>

type_synonym errno = int

definition EINTR :: errno where "EINTR = 4"
definition EIO :: errno where "EIO = 5"
definition EAGAIN :: errno where "EAGAIN = 11"
definition EWOULDBLOCK :: errno where "EWOULDBLOCK = 11"
definition ENOMEM :: errno where "ENOMEM = 12"
definition EINVAL :: errno where "EINVAL = 22"
definition EMSGSIZE :: errno where "EMSGSIZE = 90"
definition ENOBUFS :: errno where "ENOBUFS = 105"
definition EOWNERDEAD :: errno where "EOWNERDEAD = 130"

lemmas errno_defs = EINTR_def EIO_def EAGAIN_def EWOULDBLOCK_def ENOMEM_def EINVAL_def
  EMSGSIZE_def ENOBUFS_def EOWNERDEAD_def

datatype ErrorCategory = ERROR_RECOVERABLE | ERROR_FATAL

record ErrorInfo =
  error_code :: errno
  category :: ErrorCategory

definition categorize_send_error :: "errno \<Rightarrow> ErrorInfo" where
  "categorize_send_error err_no =
     \<lparr>error_code = err_no,
      category = (if err_no \<in> {EINTR, ENOBUFS, EMSGSIZE, EWOULDBLOCK}
                  then ERROR_RECOVERABLE else ERROR_FATAL)\<rparr>"

definition categorize_recv_error :: "errno \<Rightarrow> ErrorInfo" where
  "categorize_recv_error err_no =
     \<lparr>error_code = err_no,
      category = (if err_no \<in> {EINTR, EIO, ENOBUFS} then ERROR_RECOVERABLE else ERROR_FATAL)\<rparr>"

text \<open>\<^verbatim>\<open>categorize_mtx_lck_error\<close> leaves \<^verbatim>\<open>error_code\<close> at the zero \<^verbatim>\<open>calloc\<close> put there.\<close>

definition categorize_mtx_lck_error :: "errno \<Rightarrow> ErrorInfo" where
  "categorize_mtx_lck_error err_no =
     \<lparr>error_code = 0,
      category = (if err_no = EOWNERDEAD then ERROR_RECOVERABLE else ERROR_FATAL)\<rparr>"

text \<open>The message \<^verbatim>\<open>log_pthread_create_err\<close> writes to the log.\<close>

definition log_pthread_create_err :: "errno \<Rightarrow> string" where
  "log_pthread_create_err err_code =
     (if err_code = EAGAIN then ''System lacks resources to create thread''
      else if err_code = EINVAL then ''Invalid thread attributes.''
      else if err_code = ENOMEM then ''Insufficient memory to create thread''
      else ''Unknown error creating thread'')"

end
