(* ===== verification/Net_IO.thy ===== *)
theory Net_IO
  imports Errors
begin

text \<open>
  Reading from and writing to a client connection: \<^verbatim>\<open>msleep\<close> of \<^verbatim>\<open>src/src/util.c\<close> and
  \<^verbatim>\<open>send_resp_to_clnt\<close>, \<^verbatim>\<open>recv_resp_fm_clnt\<close> and \<^verbatim>\<open>read_exact_bytes\<close> of \<^verbatim>\<open>src/src/server.c\<close>.

  A connection is a record: \<open>rx\<close> is what the peer sends, event by event (a byte, or a failing
  \<^verbatim>\<open>recv\<close> with its \<^verbatim>\<open>errno\<close>), and its end is the peer closing; \<open>slp\<close> and \<open>tx\<close> script the results of
  the next \<^verbatim>\<open>nanosleep\<close> and \<^verbatim>\<open>send\<close> calls (an exhausted script means success); \<open>sent\<close> collects the
  bytes handed to the peer. \<^verbatim>\<open>recv\<close> with \<^verbatim>\<open>MSG_WAITALL\<close> returns fewer bytes than asked for only when
  the peer closes or an error interrupts the wait, and fails only when no byte was read.
\<close>

section \<open>Connections\<close>

datatype rx_event = RxByte char | RxErr errno
datatype tx_event = TxSent nat | TxErr errno
datatype sleep_event = SleepOk | SleepErr errno

record sock =
  rx :: "rx_event list"
  slp :: "sleep_event list"
  tx :: "tx_event list"
  sent :: string

datatype recv_result = RecvOk string | RecvErr errno

fun recv_take :: "nat \<Rightarrow> rx_event list \<Rightarrow> string \<times> rx_event list" where
  "recv_take (Suc n) (RxByte c # evs) = (let (bs, r) = recv_take n evs in (c # bs, r))"
| "recv_take _ evs = ([], evs)"

definition recv :: "nat \<Rightarrow> sock \<Rightarrow> recv_result \<times> sock" where
  "recv n s =
     (case rx s of
        RxErr e # r \<Rightarrow> (RecvErr e, s\<lparr>rx := r\<rparr>)
      | evs \<Rightarrow> (let (bs, r) = recv_take n evs in (RecvOk bs, s\<lparr>rx := r\<rparr>)))"

text \<open>\<^verbatim>\<open>send\<close>: \<open>Inl\<close> an error, \<open>Inr\<close> the number of bytes the kernel took.\<close>

definition send :: "string \<Rightarrow> sock \<Rightarrow> (errno + nat) \<times> sock" where
  "send msg s =
     (case tx s of
        [] \<Rightarrow> (Inr (length msg), s\<lparr>sent := sent s @ msg\<rparr>)
      | TxSent k # r \<Rightarrow> (Inr (min k (length msg)), s\<lparr>tx := r, sent := sent s @ take k msg\<rparr>)
      | TxErr e # r \<Rightarrow> (Inl e, s\<lparr>tx := r\<rparr>))"

section \<open>Retrying\<close>

text \<open>\<^verbatim>\<open>msleep\<close>: when \<^verbatim>\<open>nanosleep\<close> is interrupted the code increments \<^verbatim>\<open>retries\<close>, which it never
  initialised; that is undefined.\<close>

definition msleep :: "int \<Rightarrow> int \<Rightarrow> sock \<Rightarrow> (int \<times> sock) outcome" where
  "msleep msec max_retries s =
     (case slp s of
        [] \<Rightarrow> Ret (0, s)
      | SleepOk # r \<Rightarrow> Ret (0, s\<lparr>slp := r\<rparr>)
      | SleepErr e # r \<Rightarrow> if e = EINTR then UB else Ret (-1, s\<lparr>slp := r\<rparr>))"

text \<open>The retry loop of \<^verbatim>\<open>send_resp_to_clnt\<close>; \<open>e\<close> is the current \<^verbatim>\<open>errno\<close>.\<close>

fun send_retry :: "nat \<Rightarrow> errno \<Rightarrow> int \<Rightarrow> string \<Rightarrow> sock \<Rightarrow> (int \<times> sock) outcome" where
  "send_retry 0 e retry_tm msg s = Ret (-1, s)"
| "send_retry (Suc n) e retry_tm msg s =
     (if category (categorize_send_error e) = ERROR_FATAL then Ret (-1, s)
      else obind (msleep retry_tm 3 s) (\<lambda>(r, s1).
        if r = -1 then Ret (-1, s1)
        else (case send msg s1 of
                (Inr k, s2) \<Rightarrow> Ret (int k, s2)
              | (Inl e', s2) \<Rightarrow> send_retry n e' retry_tm msg s2)))"

definition send_resp_to_clnt :: "string \<Rightarrow> nat \<Rightarrow> int \<Rightarrow> sock \<Rightarrow> (int \<times> sock) outcome" where
  "send_resp_to_clnt msg n_retries retry_tm s =
     (case send msg s of
        (Inr k, s1) \<Rightarrow> Ret (int k, s1)
      | (Inl e, s1) \<Rightarrow> send_retry n_retries e retry_tm msg s1)"

text \<open>The retry loop of \<^verbatim>\<open>recv_resp_fm_clnt\<close>.\<close>

fun recv_retry :: "nat \<Rightarrow> errno \<Rightarrow> int \<Rightarrow> nat \<Rightarrow> sock \<Rightarrow> (recv_result \<times> sock) outcome" where
  "recv_retry 0 e retry_tm sz s = Ret (RecvErr e, s)"
| "recv_retry (Suc n) e retry_tm sz s =
     (if category (categorize_recv_error e) = ERROR_FATAL then Ret (RecvErr e, s)
      else obind (msleep retry_tm 3 s) (\<lambda>(r, s1).
        if r = -1 then Ret (RecvErr e, s1)
        else (case recv sz s1 of
                (RecvOk bs, s2) \<Rightarrow> Ret (RecvOk bs, s2)
              | (RecvErr e', s2) \<Rightarrow> recv_retry n e' retry_tm sz s2)))"

definition recv_resp_fm_clnt :: "nat \<Rightarrow> nat \<Rightarrow> int \<Rightarrow> sock \<Rightarrow> (recv_result \<times> sock) outcome" where
  "recv_resp_fm_clnt n n_retries retry_tm s =
     (case recv n s of
        (RecvOk bs, s1) \<Rightarrow> Ret (RecvOk bs, s1)
      | (RecvErr e, s1) \<Rightarrow> recv_retry n_retries e retry_tm n s1)"

text \<open>\<^verbatim>\<open>read_exact_bytes\<close>: the result code (1 success, 0 closed or short, -1 error) and the bytes
  stored in the caller's buffer.\<close>

definition read_exact_bytes :: "nat \<Rightarrow> sock \<Rightarrow> (int \<times> string \<times> sock) outcome" where
  "read_exact_bytes len s =
     obind (recv_resp_fm_clnt len 3 500 s) (\<lambda>(r, s1).
       case r of
         RecvErr e \<Rightarrow> Ret (-1, [], s1)
       | RecvOk bs \<Rightarrow> Ret (if length bs < len \<or> bs = [] then 0 else 1, bs, s1))"

section \<open>Lemmas\<close>

text \<open>A run of bytes as receive events.\<close>

abbreviation rx_bytes :: "string \<Rightarrow> rx_event list" where
  "rx_bytes bs \<equiv> map RxByte bs"

lemma recv_take_bytes [simp]: "recv_take (length bs) (rx_bytes bs @ evs) = (bs, evs)"
  by (induction bs) (cases evs; auto)+

lemma recv_take_length: "length (snd (recv_take n evs)) + length (fst (recv_take n evs)) = length evs"
  by (induction n evs rule: recv_take.induct) (auto split: prod.splits)

text \<open>The bytes a result carries.\<close>

fun got :: "recv_result \<Rightarrow> string" where
  "got (RecvOk bs) = bs"
| "got (RecvErr e) = []"

text \<open>Reading \<open>n\<close> bytes takes at most \<open>n\<close> bytes off the connection.\<close>

definition took :: "nat \<Rightarrow> sock \<Rightarrow> string \<Rightarrow> sock \<Rightarrow> bool" where
  "took n s bs s' \<longleftrightarrow> length (rx s') + length bs \<le> length (rx s) \<and> length bs \<le> n"

lemma recv_take_le: "length (fst (recv_take n evs)) \<le> n"
  by (induction n evs rule: recv_take.induct) (auto split: prod.splits)

lemma recv_took: "recv n s = (r, s') \<Longrightarrow> took n s (got r) s'"
  using recv_take_length [of n "rx s"] recv_take_le [of n "rx s"]
  by (auto simp: recv_def took_def split: list.splits rx_event.splits prod.splits)

lemma wp_msleep: "wp (msleep ms mx s) (\<lambda>(r, s'). rx s' = rx s)"
  by (auto simp: msleep_def split: list.splits sleep_event.splits)

lemma wp_recv_retry: "wp (recv_retry k e tm n s) (\<lambda>(r, s'). took n s (got r) s')"
proof (induction k arbitrary: e s)
  case (Suc k)
  have "wp (case recv n s1 of (RecvOk bs, s2) \<Rightarrow> Ret (RecvOk bs, s2)
      | (RecvErr e', s2) \<Rightarrow> recv_retry k e' tm n s2) (\<lambda>(r, s'). took n s (got r) s')"
    if s1: "rx s1 = rx s" for s1
  proof -
    obtain x s2 where x: "recv n s1 = (x, s2)" by fastforce
    show ?thesis
      using recv_took [OF x] s1 x
      by (cases x) (auto simp: took_def intro!: wp_mono [OF Suc.IH])
  qed
  then show ?case
    by (auto simp: took_def intro!: wp_mono [OF wp_msleep])
qed (simp add: took_def)

lemma wp_recv_resp: "wp (recv_resp_fm_clnt n k tm s) (\<lambda>(r, s'). took n s (got r) s')"
proof -
  obtain x s1 where x: "recv n s = (x, s1)" by fastforce
  show ?thesis
    using recv_took [OF x] x
    by (cases x) (auto simp: recv_resp_fm_clnt_def took_def intro!: wp_mono [OF wp_recv_retry])
qed

lemma wp_read_exact:
  "wp (read_exact_bytes n s) (\<lambda>(r, bs, s'). took n s bs s' \<and> (r = 1 \<longrightarrow> bs \<noteq> [] \<and> length bs = n))"
  unfolding read_exact_bytes_def
  by (auto simp: took_def intro!: wp_mono [OF wp_recv_resp] split: recv_result.splits)

lemma read_exact_bytes_ok [simp]:
  assumes "bs \<noteq> []" "rx s = rx_bytes bs @ evs"
  shows "read_exact_bytes (length bs) s = Ret (1, bs, s\<lparr>rx := evs\<rparr>)"
proof -
  obtain c bs' where "bs = c # bs'" using assms(1) by (cases bs) auto
  then have "recv (length bs) s = (RecvOk bs, s\<lparr>rx := evs\<rparr>)"
    using assms(2) recv_take_bytes [of bs evs] by (simp add: recv_def)
  then show ?thesis using assms(1) by (simp add: read_exact_bytes_def recv_resp_fm_clnt_def)
qed

lemma read_exact_one [simp]:
  "rx s = RxByte c # evs \<Longrightarrow> read_exact_bytes (Suc 0) s = Ret (1, [c], s\<lparr>rx := evs\<rparr>)"
  using read_exact_bytes_ok [of "[c]" s evs] by simp

end
