(* ===== verification/Simple_Map.thy ===== *)
theory Simple_Map
  imports Prelude
begin

text \<open>
  The growable association array of \<^verbatim>\<open>src/src/simple_map.c\<close>. The two pointer arrays are lists of
  cells as long as the allocated capacity; a cell the code never wrote is \<open>Uninit\<close>, and reading it
  (or any index outside the array) is undefined behaviour. \<open>sm_rep sm es\<close> relates a map to the list
  of its entries; the locale \<open>key_compare\<close> states what a comparison callback has to promise and
  derives, from that, that \<open>sm_set\<close>, \<open>sm_get\<close> and \<open>remove_key\<close> refine a finite partial map.
\<close>

section \<open>Data\<close>

datatype 'a cell = Uninit | Null | Ptr 'a

record ('k, 'v) SimpleMap =
  keys :: "'k option cell list option"
  vals :: "'v option cell list option"
  capacity :: int
  top :: int

record ('k, 'v) KeyValuePair =
  kvp_key :: "'k option"
  kvp_value :: "'v option"

text \<open>A comparison callback: \<open>Ret True\<close> stands for a non-NULL result.\<close>

type_synonym 'k cmp_fptr = "'k option \<Rightarrow> 'k option \<Rightarrow> bool outcome"

text \<open>Which of the three \<^verbatim>\<open>realloc\<close> calls of \<^verbatim>\<open>__double_arrays\<close> succeed.\<close>

record alloc =
  realloc_keys :: bool
  realloc_values :: bool
  realloc_shrink :: bool

definition alloc_ok :: alloc where
  "alloc_ok = \<lparr>realloc_keys = True, realloc_values = True, realloc_shrink = True\<rparr>"

text \<open>The return codes (enums \<^verbatim>\<open>FindKeyStates\<close>, \<^verbatim>\<open>SetKeyValueRtn\<close> and \<^verbatim>\<open>RemoveItemState\<close>).\<close>

definition FIND_KEY_ERROR :: int where "FIND_KEY_ERROR = -1"
definition KEY_ARR_ERROR :: int where "KEY_ARR_ERROR = -2"
definition KEY_NOT_FOUND :: int where "KEY_NOT_FOUND = -3"

datatype SetKeyValueRtn = ERROR_SET_SM_RTN | SUCESS_SET | SUCESS_UPGRADE
datatype RemoveItemState = REMOVE_ERROR | REMOVE_SUCCESS | REMOVE_KEY_NOT_FOUND

lemmas find_codes = FIND_KEY_ERROR_def KEY_ARR_ERROR_def KEY_NOT_FOUND_def

section \<open>Array accesses\<close>

definition cell_at :: "'a cell list \<Rightarrow> int \<Rightarrow> 'a cell" where
  "cell_at xs i = (if 0 \<le> i \<and> i < int (length xs) then xs ! nat i else Uninit)"

definition cell_put :: "'a cell list \<Rightarrow> int \<Rightarrow> 'a cell \<Rightarrow> 'a cell list outcome" where
  "cell_put xs i c = (if 0 \<le> i \<and> i < int (length xs) then Ret (xs[nat i := c]) else UB)"

text \<open>Dereferencing the wrapper a cell points to.\<close>

fun deref :: "'a cell \<Rightarrow> 'a outcome" where
  "deref (Ptr a) = Ret a"
| "deref _ = UB"

text \<open>Copying a cell: its value must be determinate.\<close>

fun load :: "'a cell \<Rightarrow> 'a cell outcome" where
  "load Uninit = UB"
| "load c = Ret c"

definition realloc_cells :: "nat \<Rightarrow> 'a cell list \<Rightarrow> 'a cell list" where
  "realloc_cells n xs = take n xs @ replicate (n - length xs) Uninit"

section \<open>Operations\<close>

definition create_key_val_pair :: "'k option \<Rightarrow> 'v option \<Rightarrow> ('k, 'v) KeyValuePair option" where
  "create_key_val_pair k v =
     (if k = None then None else Some \<lparr>kvp_key = k, kvp_value = v\<rparr>)"

text \<open>The inner loop of \<^verbatim>\<open>remove_key\<close>: shift every later cell down by one.\<close>

function shift_down :: "'k option cell list \<Rightarrow> 'v option cell list \<Rightarrow> int \<Rightarrow> int \<Rightarrow>
    ('k option cell list \<times> 'v option cell list) outcome" where
  "shift_down ks vs t i =
     (if i = t then
        obind (cell_put ks i Null) (\<lambda>ks'. obind (cell_put vs i Null) (\<lambda>vs'. Ret (ks', vs')))
      else
        obind (load (cell_at ks (i + 1))) (\<lambda>ck. obind (cell_put ks i ck) (\<lambda>ks'.
        obind (load (cell_at vs (i + 1))) (\<lambda>cv. obind (cell_put vs i cv) (\<lambda>vs'.
        shift_down ks' vs' t (i + 1))))))"
  by pat_completeness auto
termination
  by (relation "measure (\<lambda>(ks, vs, t, i). nat (int (length ks) - i))")
    (auto simp: cell_at_def cell_put_def split: if_splits)

text \<open>The outer loop of \<^verbatim>\<open>remove_key\<close>.\<close>

function remove_loop :: "('k, 'v) SimpleMap \<Rightarrow> 'k option cell list \<Rightarrow> 'v option cell list \<Rightarrow>
    'k option \<Rightarrow> 'k cmp_fptr \<Rightarrow> ('k, 'v) KeyValuePair \<Rightarrow> int \<Rightarrow>
    (RemoveItemState \<times> ('k, 'v) SimpleMap \<times> ('k, 'v) KeyValuePair) outcome" where
  "remove_loop sm ks vs key cmp rmv i =
     (if i \<le> top sm then
        (case cell_at ks i of
           Uninit \<Rightarrow> UB
         | Null \<Rightarrow> Ret (REMOVE_ERROR, sm, rmv)
         | Ptr rmv_key \<Rightarrow>
             obind (cmp key rmv_key) (\<lambda>hit.
             if \<not> hit then remove_loop sm ks vs key cmp rmv (i + 1)
             else
               obind (deref (cell_at vs i)) (\<lambda>rmv_value.
               obind (shift_down ks vs (top sm) i) (\<lambda>(ks', vs').
               Ret (REMOVE_SUCCESS,
                    sm\<lparr>keys := Some ks', vals := Some vs', top := top sm - 1\<rparr>,
                    \<lparr>kvp_key = rmv_key, kvp_value = rmv_value\<rparr>)))))
      else Ret (REMOVE_KEY_NOT_FOUND, sm, rmv))"
  by pat_completeness auto
termination
  by (relation "measure (\<lambda>(sm, ks, vs, key, cmp, rmv, i). nat (top sm + 1 - i))") auto

definition remove_key :: "('k, 'v) SimpleMap option \<Rightarrow> 'k option \<Rightarrow> 'k cmp_fptr option \<Rightarrow>
    ('k, 'v) KeyValuePair option \<Rightarrow>
    (RemoveItemState \<times> ('k, 'v) SimpleMap option \<times> ('k, 'v) KeyValuePair option) outcome" where
  "remove_key smp key cmp rmv_pair =
     (case (smp, key, cmp, rmv_pair) of
        (Some sm, Some _, Some f, Some rmv) \<Rightarrow>
          (case (keys sm, vals sm) of
             (Some ks, Some vs) \<Rightarrow>
               obind (remove_loop sm ks vs key f rmv 0)
                 (\<lambda>(st, sm', rmv'). Ret (st, Some sm', Some rmv'))
           | _ \<Rightarrow> Ret (REMOVE_ERROR, smp, rmv_pair))
      | _ \<Rightarrow> Ret (REMOVE_ERROR, smp, rmv_pair))"

definition is_full :: "('k, 'v) SimpleMap \<Rightarrow> bool" where
  "is_full sm \<longleftrightarrow> top sm + 1 = capacity sm"

text \<open>\<^verbatim>\<open>__double_arrays\<close>: the flag tells whether the C function returns non-NULL. \<^verbatim>\<open>2 * sm->capacity\<close>
  is an \<^verbatim>\<open>int\<close> product, and the new capacity is its conversion to \<^verbatim>\<open>size_t\<close>.\<close>

definition double_arrays :: "alloc \<Rightarrow> ('k, 'v) SimpleMap option \<Rightarrow>
    (bool \<times> ('k, 'v) SimpleMap option) outcome" where
  "double_arrays al smp =
     (case smp of
        None \<Rightarrow> Ret (False, None)
      | Some sm \<Rightarrow>
          (case (keys sm, vals sm) of
             (Some ks, Some vs) \<Rightarrow>
               (if capacity sm = 0 \<or> \<not> is_full sm then Ret (False, Some sm)
                else if INT_MAX < 2 * capacity sm then UB
                else
                  let new_capacity = nat ((2 * capacity sm) mod 2 ^ 64) in
                  if \<not> realloc_keys al then Ret (False, Some sm)
                  else if \<not> realloc_values al then
                    Ret (False, Some (sm\<lparr>keys :=
                      (if realloc_shrink al
                       then Some (realloc_cells (nat (capacity sm)) (realloc_cells new_capacity ks))
                       else None)\<rparr>))
                  else
                    Ret (True, Some (sm\<lparr>keys := Some (realloc_cells new_capacity ks),
                                       vals := Some (realloc_cells new_capacity vs),
                                       capacity := int new_capacity\<rparr>)))
           | _ \<Rightarrow> Ret (False, Some sm)))"

text \<open>The last three statements of \<^verbatim>\<open>__set\<close>: advance \<^verbatim>\<open>top\<close> and store the wrappers.\<close>

definition push_entry :: "('k, 'v) SimpleMap \<Rightarrow> ('k, 'v) KeyValuePair \<Rightarrow>
    ('k, 'v) SimpleMap outcome" where
  "push_entry sm kvp =
     (case (keys sm, vals sm) of
        (Some ks, Some vs) \<Rightarrow>
          obind (cell_put ks (top sm + 1) (Ptr (kvp_key kvp))) (\<lambda>ks'.
          obind (cell_put vs (top sm + 1) (Ptr (kvp_value kvp))) (\<lambda>vs'.
          Ret (sm\<lparr>keys := Some ks', vals := Some vs', top := top sm + 1\<rparr>)))
      | _ \<Rightarrow> UB)"

text \<open>\<^verbatim>\<open>__set\<close>: append a new entry, doubling the arrays when they are full.\<close>

definition set_new :: "alloc \<Rightarrow> ('k, 'v) SimpleMap option \<Rightarrow> ('k, 'v) KeyValuePair option \<Rightarrow>
    (bool \<times> ('k, 'v) SimpleMap option) outcome" where
  "set_new al smp kvpp =
     (case (smp, kvpp) of
        (Some sm, Some kvp) \<Rightarrow>
          (if keys sm = None \<or> vals sm = None \<or> kvp_key kvp = None \<or> capacity sm = 0
           then Ret (False, smp)
           else if is_full sm then
             obind (double_arrays al smp) (\<lambda>(ok, smp').
               if \<not> ok then Ret (False, smp')
               else (case smp' of
                       None \<Rightarrow> UB
                     | Some sm' \<Rightarrow> obind (push_entry sm' kvp) (\<lambda>sm''. Ret (True, Some sm''))))
           else obind (push_entry sm kvp) (\<lambda>sm''. Ret (True, Some sm'')))
      | _ \<Rightarrow> Ret (False, smp))"

text \<open>\<^verbatim>\<open>__upgrade\<close>: swap the stored key and value with those of the pair.\<close>

definition upgrade :: "('k, 'v) SimpleMap option \<Rightarrow> int \<Rightarrow> ('k, 'v) KeyValuePair option \<Rightarrow>
    (bool \<times> ('k, 'v) SimpleMap option \<times> ('k, 'v) KeyValuePair option) outcome" where
  "upgrade smp pos kvpp =
     (case (smp, kvpp) of
        (Some sm, Some kvp) \<Rightarrow>
          (case (keys sm, vals sm) of
             (Some ks, Some vs) \<Rightarrow>
               (if pos < 0 \<or> pos > top sm \<or> kvp_key kvp = None then Ret (False, smp, kvpp)
                else
                  obind (deref (cell_at vs pos)) (\<lambda>old_v.
                  obind (deref (cell_at ks pos)) (\<lambda>old_k.
                  obind (cell_put vs pos (Ptr (kvp_value kvp))) (\<lambda>vs'.
                  obind (cell_put ks pos (Ptr (kvp_key kvp))) (\<lambda>ks'.
                  Ret (True, Some (sm\<lparr>keys := Some ks', vals := Some vs'\<rparr>),
                       Some \<lparr>kvp_key = old_k, kvp_value = old_v\<rparr>))))))
           | _ \<Rightarrow> Ret (False, smp, kvpp))
      | _ \<Rightarrow> Ret (False, smp, kvpp))"

text \<open>The loop of \<^verbatim>\<open>__find\<close>.\<close>

function find_loop :: "int \<Rightarrow> 'k option cell list \<Rightarrow> 'k option \<Rightarrow> 'k cmp_fptr \<Rightarrow> int \<Rightarrow>
    int outcome" where
  "find_loop t ks key cmp i =
     (if i \<le> t then
        (case cell_at ks i of
           Uninit \<Rightarrow> UB
         | Null \<Rightarrow> Ret KEY_ARR_ERROR
         | Ptr k \<Rightarrow> obind (cmp k key) (\<lambda>hit. if hit then Ret i else find_loop t ks key cmp (i + 1)))
      else Ret KEY_NOT_FOUND)"
  by pat_completeness auto
termination
  by (relation "measure (\<lambda>(t, ks, key, cmp, i). nat (t + 1 - i))") auto

text \<open>\<^verbatim>\<open>__find\<close>.\<close>

definition find_key :: "('k, 'v) SimpleMap option \<Rightarrow> 'k option \<Rightarrow> 'k cmp_fptr option \<Rightarrow>
    int outcome" where
  "find_key smp key cmp =
     (case (smp, key, cmp) of
        (Some sm, Some _, Some f) \<Rightarrow>
          (case keys sm of
             None \<Rightarrow> Ret FIND_KEY_ERROR
           | Some ks \<Rightarrow> find_loop (top sm) ks key f 0)
      | _ \<Rightarrow> Ret FIND_KEY_ERROR)"

text \<open>\<^verbatim>\<open>set\<close>.\<close>

definition sm_set :: "alloc \<Rightarrow> ('k, 'v) SimpleMap option \<Rightarrow> ('k, 'v) KeyValuePair option \<Rightarrow>
    'k cmp_fptr option \<Rightarrow>
    (SetKeyValueRtn \<times> ('k, 'v) SimpleMap option \<times> ('k, 'v) KeyValuePair option) outcome" where
  "sm_set al smp kvpp cmp =
     (case (smp, kvpp) of
        (Some sm, Some kvp) \<Rightarrow>
          (if kvp_key kvp = None then Ret (ERROR_SET_SM_RTN, smp, kvpp)
           else
             obind (find_key smp (kvp_key kvp) cmp) (\<lambda>pos.
             if pos = FIND_KEY_ERROR \<or> pos = KEY_ARR_ERROR then Ret (ERROR_SET_SM_RTN, smp, kvpp)
             else if pos = KEY_NOT_FOUND then
               obind (set_new al smp kvpp) (\<lambda>(ok, smp').
                 Ret (if ok then SUCESS_SET else ERROR_SET_SM_RTN, smp', kvpp))
             else
               obind (upgrade smp pos kvpp) (\<lambda>(ok, smp', kvpp').
                 Ret (if ok then SUCESS_UPGRADE else ERROR_SET_SM_RTN, smp', kvpp'))))
      | _ \<Rightarrow> Ret (ERROR_SET_SM_RTN, smp, kvpp))"

text \<open>\<^verbatim>\<open>get\<close>.\<close>

definition sm_get :: "('k, 'v) SimpleMap option \<Rightarrow> 'k option \<Rightarrow> 'k cmp_fptr option \<Rightarrow>
    ('k, 'v) KeyValuePair option outcome" where
  "sm_get smp key cmp =
     (case (smp, key, cmp) of
        (Some sm, Some _, Some _) \<Rightarrow>
          obind (find_key smp key cmp) (\<lambda>pos.
          if pos = KEY_NOT_FOUND \<or> pos = FIND_KEY_ERROR \<or> pos = KEY_ARR_ERROR then Ret None
          else
            (case (keys sm, vals sm) of
               (Some ks, Some vs) \<Rightarrow>
                 obind (deref (cell_at ks pos)) (\<lambda>k. obind (deref (cell_at vs pos)) (\<lambda>v.
                 Ret (Some \<lparr>kvp_key = k, kvp_value = v\<rparr>)))
             | _ \<Rightarrow> UB))
      | _ \<Rightarrow> Ret None)"

definition create_simple_map :: "('k, 'v) SimpleMap" where
  "create_simple_map = \<lparr>keys = Some [Null], vals = Some [Null], capacity = 1, top = -1\<rparr>"

text \<open>\<^verbatim>\<open>delete_map\<close>: the result code and, in order, the pairs handed to \<^verbatim>\<open>clean_up\<close>.\<close>

function delete_loop :: "'k option cell list \<Rightarrow> 'v option cell list \<Rightarrow> int \<Rightarrow> int \<Rightarrow>
    ('k option \<times> 'v option) list outcome" where
  "delete_loop ks vs t i =
     (if i \<le> t then
        obind (load (cell_at ks i)) (\<lambda>ck. obind (load (cell_at vs i)) (\<lambda>cv.
        obind (delete_loop ks vs t (i + 1)) (\<lambda>rest.
        Ret ((case (ck, cv) of (Ptr k, Ptr v) \<Rightarrow> [(k, v)] | _ \<Rightarrow> []) @ rest))))
      else Ret [])"
  by pat_completeness auto
termination
  by (relation "measure (\<lambda>(ks, vs, t, i). nat (t + 1 - i))") auto

definition delete_map :: "('k, 'v) SimpleMap option \<Rightarrow> bool \<Rightarrow>
    (int \<times> ('k option \<times> 'v option) list) outcome" where
  "delete_map smp clean_up =
     (case smp of
        None \<Rightarrow> Ret (0, [])
      | Some sm \<Rightarrow>
          (case (keys sm, vals sm) of
             (Some ks, Some vs) \<Rightarrow>
               obind (delete_loop ks vs (top sm) 0) (\<lambda>cs. Ret (1, if clean_up then cs else []))
           | _ \<Rightarrow> Ret (0, [])))"

text \<open>The iterator: \<^verbatim>\<open>init_simple_map_wrapper\<close> and its \<^verbatim>\<open>next\<close> method.\<close>

record ('k, 'v) SimpleMapWrapper =
  index :: int
  smw_sm :: "('k, 'v) SimpleMap option"

definition init_simple_map_wrapper :: "('k, 'v) SimpleMap option \<Rightarrow>
    ('k, 'v) SimpleMapWrapper" where
  "init_simple_map_wrapper smp = \<lparr>index = 0, smw_sm = smp\<rparr>"

definition smw_next :: "('k, 'v) SimpleMapWrapper \<Rightarrow>
    (('k, 'v) KeyValuePair option \<times> ('k, 'v) SimpleMapWrapper) outcome" where
  "smw_next self =
     (case smw_sm self of
        None \<Rightarrow> Ret (None, self)
      | Some sm \<Rightarrow>
          (case (keys sm, vals sm) of
             (Some ks, Some vs) \<Rightarrow>
               (if top sm < 0 \<or> index self > top sm then Ret (None, self)
                else
                  obind (deref (cell_at ks (index self))) (\<lambda>k.
                  obind (deref (cell_at vs (index self))) (\<lambda>v.
                  Ret (create_key_val_pair k v, self\<lparr>index := index self + 1\<rparr>))))
           | _ \<Rightarrow> Ret (None, self)))"

declare shift_down.simps [simp del] remove_loop.simps [simp del] find_loop.simps [simp del]
  delete_loop.simps [simp del]

section \<open>Array lemmas\<close>

lemma cell_at_nth [simp]: "i < length xs \<Longrightarrow> cell_at xs (int i) = xs ! i"
  by (simp add: cell_at_def)

lemma cell_put_nth [simp]: "i < length xs \<Longrightarrow> cell_put xs (int i) c = Ret (xs[i := c])"
  by (simp add: cell_put_def)

lemma load_Ret [simp]: "c \<noteq> Uninit \<Longrightarrow> load c = Ret c"
  by (cases c) auto

lemma realloc_cells_grow: "length xs \<le> n \<Longrightarrow> realloc_cells n xs = xs @ replicate (n - length xs) Uninit"
  by (simp add: realloc_cells_def)

lemma realloc_cells_back: "length xs \<le> n \<Longrightarrow> realloc_cells (length xs) (realloc_cells n xs) = xs"
  by (simp add: realloc_cells_def)

section \<open>Representation\<close>

text \<open>\<open>sm_rep sm es\<close>: the arrays hold exactly the entries \<open>es\<close>, in order, below spare cells of any
  content. Every stored key is non-NULL; a value may be NULL.\<close>

definition sm_rep :: "('k, 'v) SimpleMap \<Rightarrow> ('k \<times> 'v option) list \<Rightarrow> bool" where
  "sm_rep sm es \<longleftrightarrow>
     (\<exists>jk jv. keys sm = Some (map (\<lambda>e. Ptr (Some (fst e))) es @ jk) \<and>
              vals sm = Some (map (\<lambda>e. Ptr (snd e)) es @ jv) \<and>
              length jv = length jk \<and> capacity sm = int (length es + length jk) \<and>
              top sm = int (length es) - 1 \<and> 0 < capacity sm)"

lemma sm_rep_create: "sm_rep create_simple_map []"
  by (simp add: sm_rep_def create_simple_map_def)

lemma sm_rep_fun:
  assumes "sm_rep sm es" "sm_rep sm es'"
  shows "es = es'"
proof -
  from assms have len: "length es = length es'"
    and k: "map (\<lambda>e. Ptr (Some (fst e))) es = map (\<lambda>e. Ptr (Some (fst e))) es'"
    and v: "map (\<lambda>e. Ptr (snd e)) es = map (\<lambda>e. Ptr (snd e)) es'"
    by (auto simp: sm_rep_def append_eq_append_conv)
  show ?thesis
    using len k v by (intro nth_equalityI) (auto simp: list_eq_iff_nth_eq prod_eq_iff)
qed

lemma sm_rep_cells:
  assumes "sm_rep sm es"
  obtains ks vs where "keys sm = Some ks" "vals sm = Some vs"
    "length ks = nat (capacity sm)" "length vs = length ks" "length es \<le> length ks"
    "\<And>i. i < length es \<Longrightarrow> ks ! i = Ptr (Some (fst (es ! i)))"
    "\<And>i. i < length es \<Longrightarrow> vs ! i = Ptr (snd (es ! i))"
proof -
  from assms obtain jk jv where r:
    "keys sm = Some (map (\<lambda>e. Ptr (Some (fst e))) es @ jk)"
    "vals sm = Some (map (\<lambda>e. Ptr (snd e)) es @ jv)"
    "length jv = length jk" "capacity sm = int (length es + length jk)"
    by (auto simp: sm_rep_def)
  show thesis
    by (rule that [OF r(1,2)]) (use r in \<open>auto simp: nth_append\<close>)
qed

lemma sm_repI:
  assumes "keys sm = Some ks" "vals sm = Some vs" "length ks = nat (capacity sm)"
    "length vs = length ks" "length es \<le> length ks" "0 < capacity sm"
    "top sm = int (length es) - 1"
    "\<And>i. i < length es \<Longrightarrow> ks ! i = Ptr (Some (fst (es ! i)))"
    "\<And>i. i < length es \<Longrightarrow> vs ! i = Ptr (snd (es ! i))"
  shows "sm_rep sm es"
proof -
  have "ks = map (\<lambda>e. Ptr (Some (fst e))) es @ drop (length es) ks"
    using assms by (intro nth_equalityI) (auto simp: nth_append)
  moreover have "vs = map (\<lambda>e. Ptr (snd e)) es @ drop (length es) vs"
    using assms by (intro nth_equalityI) (auto simp: nth_append)
  ultimately show ?thesis
    unfolding sm_rep_def using assms
    by (intro exI [of _ "drop (length es) ks"] exI [of _ "drop (length es) vs"]) auto
qed

lemma sm_rep_top: "sm_rep sm es \<Longrightarrow> top sm = int (length es) - 1"
  by (auto simp: sm_rep_def)

lemma sm_rep_capacity:
  "sm_rep sm es \<Longrightarrow> 0 < capacity sm \<and> int (length es) \<le> capacity sm"
  by (auto simp: sm_rep_def)

section \<open>Operations on represented maps\<close>

lemma find_loop_rep:
  assumes "\<And>i. i < length es \<Longrightarrow> ks ! i = Ptr (Some (fst (es ! i)))" "length es \<le> length ks"
    and "\<And>e. e \<in> set es \<Longrightarrow> cmp (Some (fst e)) key = Ret (P e)"
    and "i \<le> length es"
  shows "find_loop (int (length es) - 1) ks key cmp (int i) =
    Ret (case find_idx P (drop i es) of None \<Rightarrow> KEY_NOT_FOUND | Some j \<Rightarrow> int (i + j))"
  using assms(4)
proof (induction "length es - i" arbitrary: i)
  case 0
  then show ?case by (subst find_loop.simps) simp
next
  case (Suc n)
  then have i: "i < length es" by simp
  then have d: "drop i es = es ! i # drop (Suc i) es" by (rule Cons_nth_drop_Suc [symmetric])
  have cell: "cell_at ks (int i) = Ptr (Some (fst (es ! i)))"
    using i assms(1,2) by simp
  have c: "cmp (Some (fst (es ! i))) key = Ret (P (es ! i))"
    using i assms(3) by simp
  have IH: "find_loop (int (length es) - 1) ks key cmp (int (Suc i)) =
    Ret (case find_idx P (drop (Suc i) es) of None \<Rightarrow> KEY_NOT_FOUND | Some j \<Rightarrow> int (Suc i + j))"
    using Suc.hyps i by (intro Suc.hyps(1)) auto
  show ?case
    using i IH by (subst find_loop.simps) (auto simp: cell c d add.commute split: option.split)
qed

lemma find_key_rep:
  assumes "sm_rep sm es" "\<And>e. e \<in> set es \<Longrightarrow> cmp (Some (fst e)) (Some k) = Ret (P e)"
  shows "find_key (Some sm) (Some k) (Some cmp) =
    Ret (case find_idx P es of None \<Rightarrow> KEY_NOT_FOUND | Some j \<Rightarrow> int j)"
proof -
  obtain ks vs where ks: "keys sm = Some ks" "vals sm = Some vs"
    "length ks = nat (capacity sm)" "length vs = length ks" "length es \<le> length ks"
    "\<And>i. i < length es \<Longrightarrow> ks ! i = Ptr (Some (fst (es ! i)))"
    "\<And>i. i < length es \<Longrightarrow> vs ! i = Ptr (snd (es ! i))"
    by (rule sm_rep_cells [OF assms(1)], rule that)
  show ?thesis
    using find_loop_rep [where P = P and cmp = cmp and i = 0, OF ks(6,5) assms(2)] ks(1) sm_rep_top [OF assms(1)]
    by (simp add: find_key_def cong: option.case_cong)
qed

lemma sm_get_rep:
  assumes "sm_rep sm es" "\<And>e. e \<in> set es \<Longrightarrow> cmp (Some (fst e)) (Some k) = Ret (P e)"
  shows "sm_get (Some sm) (Some k) (Some cmp) =
    Ret (map_option (\<lambda>i. \<lparr>kvp_key = Some (fst (es ! i)), kvp_value = snd (es ! i)\<rparr>) (find_idx P es))"
proof -
  obtain ks vs where c: "keys sm = Some ks" "vals sm = Some vs"
    "length ks = nat (capacity sm)" "length vs = length ks" "length es \<le> length ks"
    "\<And>i. i < length es \<Longrightarrow> ks ! i = Ptr (Some (fst (es ! i)))"
    "\<And>i. i < length es \<Longrightarrow> vs ! i = Ptr (snd (es ! i))"
    by (rule sm_rep_cells [OF assms(1)], rule that)
  show ?thesis
    using find_key_rep [where P = P and cmp = cmp, OF assms] find_idx_SomeD [of P es] c
    by (auto simp: sm_get_def find_codes split: option.splits)
qed

lemma upgrade_rep:
  assumes "sm_rep sm es" "i < length es"
  shows "\<exists>sm'. upgrade (Some sm) (int i) (Some \<lparr>kvp_key = Some k, kvp_value = v\<rparr>) =
      Ret (True, Some sm', Some \<lparr>kvp_key = Some (fst (es ! i)), kvp_value = snd (es ! i)\<rparr>) \<and>
    sm_rep sm' (es[i := (k, v)]) \<and> capacity sm' = capacity sm"
proof -
  obtain ks vs where c: "keys sm = Some ks" "vals sm = Some vs"
    "length ks = nat (capacity sm)" "length vs = length ks" "length es \<le> length ks"
    "\<And>i. i < length es \<Longrightarrow> ks ! i = Ptr (Some (fst (es ! i)))"
    "\<And>i. i < length es \<Longrightarrow> vs ! i = Ptr (snd (es ! i))"
    by (rule sm_rep_cells [OF assms(1)], rule that)
  let ?sm = "sm\<lparr>keys := Some (ks[i := Ptr (Some k)]), vals := Some (vs[i := Ptr v])\<rparr>"
  have "sm_rep ?sm (es[i := (k, v)])"
    by (rule sm_repI [where ks = "ks[i := Ptr (Some k)]" and vs = "vs[i := Ptr v]"])
      (use c assms sm_rep_top [OF assms(1)] sm_rep_capacity [OF assms(1)] in \<open>auto simp: nth_list_update\<close>)
  moreover have "upgrade (Some sm) (int i) (Some \<lparr>kvp_key = Some k, kvp_value = v\<rparr>) =
      Ret (True, Some ?sm, Some \<lparr>kvp_key = Some (fst (es ! i)), kvp_value = snd (es ! i)\<rparr>)"
    using c assms sm_rep_top [OF assms(1)] by (simp add: upgrade_def)
  ultimately show ?thesis by (intro exI [of _ ?sm]) simp
qed

lemma push_entry_rep:
  assumes "sm_rep sm es" "int (length es) < capacity sm"
  shows "\<exists>sm'. push_entry sm \<lparr>kvp_key = Some k, kvp_value = v\<rparr> = Ret sm' \<and>
    sm_rep sm' (es @ [(k, v)]) \<and> capacity sm' = capacity sm"
proof -
  obtain ks vs where c: "keys sm = Some ks" "vals sm = Some vs"
    "length ks = nat (capacity sm)" "length vs = length ks" "length es \<le> length ks"
    "\<And>i. i < length es \<Longrightarrow> ks ! i = Ptr (Some (fst (es ! i)))"
    "\<And>i. i < length es \<Longrightarrow> vs ! i = Ptr (snd (es ! i))"
    by (rule sm_rep_cells [OF assms(1)], rule that)
  let ?ks = "ks[length es := Ptr (Some k)]" and ?vs = "vs[length es := Ptr v]"
  let ?sm = "sm\<lparr>keys := Some ?ks, vals := Some ?vs, top := top sm + 1\<rparr>"
  have lt: "length es < length ks" using c(3) assms(2) by linarith
  have "sm_rep ?sm (es @ [(k, v)])"
    by (rule sm_repI [where ks = ?ks and vs = ?vs])
      (use c lt sm_rep_top [OF assms(1)] sm_rep_capacity [OF assms(1)] in
        \<open>auto simp: nth_list_update nth_append less_Suc_eq\<close>)
  moreover have "push_entry sm \<lparr>kvp_key = Some k, kvp_value = v\<rparr> = Ret ?sm"
    using c lt sm_rep_top [OF assms(1)] by (simp add: push_entry_def)
  ultimately show ?thesis by (intro exI [of _ ?sm]) simp
qed

lemma double_arrays_rep:
  assumes "sm_rep sm es" "int (length es) = capacity sm" "2 * capacity sm \<le> INT_MAX"
    "realloc_keys al" "realloc_values al"
  shows "\<exists>sm'. double_arrays al (Some sm) = Ret (True, Some sm') \<and>
    sm_rep sm' es \<and> capacity sm' = 2 * capacity sm"
proof -
  obtain ks vs where c: "keys sm = Some ks" "vals sm = Some vs"
    "length ks = nat (capacity sm)" "length vs = length ks" "length es \<le> length ks"
    "\<And>i. i < length es \<Longrightarrow> ks ! i = Ptr (Some (fst (es ! i)))"
    "\<And>i. i < length es \<Longrightarrow> vs ! i = Ptr (snd (es ! i))"
    by (rule sm_rep_cells [OF assms(1)], rule that)
  note t = sm_rep_top [OF assms(1)] and p = sm_rep_capacity [OF assms(1)]
  let ?n = "nat (2 * capacity sm)"
  have n: "nat ((2 * capacity sm) mod 2 ^ 64) = ?n" using assms(3) p by simp
  have grow: "realloc_cells ?n ks = ks @ replicate (?n - length ks) Uninit"
    "realloc_cells ?n vs = vs @ replicate (?n - length vs) Uninit"
    using c(3,4) p by (simp_all add: realloc_cells_grow)
  let ?sm = "sm\<lparr>keys := Some (realloc_cells ?n ks), vals := Some (realloc_cells ?n vs),
    capacity := 2 * capacity sm\<rparr>"
  have "sm_rep ?sm es"
    by (rule sm_repI [where ks = "realloc_cells ?n ks" and vs = "realloc_cells ?n vs"])
      (use c p t in \<open>auto simp: grow nth_append\<close>)
  moreover have "double_arrays al (Some sm) = Ret (True, Some ?sm)"
    using c assms t p n by (simp add: double_arrays_def is_full_def Let_def)
  ultimately show ?thesis by (intro exI [of _ ?sm]) simp
qed

lemma double_arrays_oom:
  assumes "sm_rep sm es" "int (length es) = capacity sm" "2 * capacity sm \<le> INT_MAX"
    "\<not> (realloc_keys al \<and> realloc_values al)"
  shows "double_arrays al (Some sm) =
    Ret (False, Some (if realloc_keys al \<and> \<not> realloc_shrink al then sm\<lparr>keys := None\<rparr> else sm))"
proof -
  obtain ks vs where c: "keys sm = Some ks" "vals sm = Some vs"
    "length ks = nat (capacity sm)" "length vs = length ks" "length es \<le> length ks"
    "\<And>i. i < length es \<Longrightarrow> ks ! i = Ptr (Some (fst (es ! i)))"
    "\<And>i. i < length es \<Longrightarrow> vs ! i = Ptr (snd (es ! i))"
    by (rule sm_rep_cells [OF assms(1)], rule that)
  note t = sm_rep_top [OF assms(1)] and p = sm_rep_capacity [OF assms(1)]
  have n: "nat ((2 * capacity sm) mod 2 ^ 64) = nat (2 * capacity sm)" using assms(3) p by simp
  have "realloc_cells (nat (capacity sm)) (realloc_cells (nat (2 * capacity sm)) ks) = ks"
    using realloc_cells_back [of ks "nat (2 * capacity sm)"] c(3) p by simp
  then show ?thesis
    using c assms t p n by (auto simp: double_arrays_def is_full_def Let_def)
qed

lemma set_new_rep:
  assumes "sm_rep sm es" "2 * capacity sm \<le> INT_MAX" "realloc_keys al" "realloc_values al"
  shows "\<exists>sm'. set_new al (Some sm) (Some \<lparr>kvp_key = Some k, kvp_value = v\<rparr>) =
      Ret (True, Some sm') \<and> sm_rep sm' (es @ [(k, v)]) \<and>
    capacity sm' = (if int (length es) = capacity sm then 2 * capacity sm else capacity sm)"
proof -
  note t = sm_rep_top [OF assms(1)] and p = sm_rep_capacity [OF assms(1)]
  have kv: "keys sm \<noteq> None" "vals sm \<noteq> None" using assms(1) by (auto simp: sm_rep_def)
  show ?thesis
  proof (cases "int (length es) = capacity sm")
    case True
    obtain sm1 where d: "double_arrays al (Some sm) = Ret (True, Some sm1)" "sm_rep sm1 es"
      "capacity sm1 = 2 * capacity sm"
      using double_arrays_rep [OF assms(1) True assms(2-4)] by blast
    have lt: "int (length es) < capacity sm1" using d(3) True p by simp
    show ?thesis
      using push_entry_rep [OF d(2) lt, of k v] d kv p t True by (auto simp: set_new_def is_full_def)
  next
    case False
    with p have lt: "int (length es) < capacity sm" by simp
    show ?thesis
      using push_entry_rep [OF assms(1) lt, of k v] kv p t False
      by (auto simp: set_new_def is_full_def)
  qed
qed

section \<open>Inserting\<close>

lemma sm_set_rep_upgrade:
  assumes "sm_rep sm es" "\<And>e. e \<in> set es \<Longrightarrow> cmp (Some (fst e)) (Some k) = Ret (P e)"
    "find_idx P es = Some i"
  shows "\<exists>sm'. sm_set al (Some sm) (Some \<lparr>kvp_key = Some k, kvp_value = v\<rparr>) (Some cmp) =
      Ret (SUCESS_UPGRADE, Some sm', Some \<lparr>kvp_key = Some (fst (es ! i)), kvp_value = snd (es ! i)\<rparr>) \<and>
    sm_rep sm' (es[i := (k, v)]) \<and> capacity sm' = capacity sm"
  using upgrade_rep [OF assms(1), of i k v] find_idx_SomeD [OF assms(3)]
    find_key_rep [where P = P and cmp = cmp, OF assms(1,2)] assms(3)
  by (auto simp: sm_set_def find_codes)

lemma sm_set_rep_new:
  assumes "sm_rep sm es" "\<And>e. e \<in> set es \<Longrightarrow> cmp (Some (fst e)) (Some k) = Ret (P e)"
    "find_idx P es = None" "2 * capacity sm \<le> INT_MAX" "realloc_keys al" "realloc_values al"
  shows "\<exists>sm'. sm_set al (Some sm) (Some \<lparr>kvp_key = Some k, kvp_value = v\<rparr>) (Some cmp) =
      Ret (SUCESS_SET, Some sm', Some \<lparr>kvp_key = Some k, kvp_value = v\<rparr>) \<and>
    sm_rep sm' (es @ [(k, v)]) \<and>
    capacity sm' = (if int (length es) = capacity sm then 2 * capacity sm else capacity sm)"
  using set_new_rep [OF assms(1,4-6), of k v]
    find_key_rep [where P = P and cmp = cmp, OF assms(1,2)] assms(3)
  by (auto simp: sm_set_def find_codes)

lemma sm_set_rep_oom:
  assumes "sm_rep sm es" "\<And>e. e \<in> set es \<Longrightarrow> cmp (Some (fst e)) (Some k) = Ret (P e)"
    "find_idx P es = None" "int (length es) = capacity sm" "2 * capacity sm \<le> INT_MAX"
    "\<not> (realloc_keys al \<and> realloc_values al)"
  shows "sm_set al (Some sm) (Some \<lparr>kvp_key = Some k, kvp_value = v\<rparr>) (Some cmp) =
      Ret (ERROR_SET_SM_RTN, Some (if realloc_keys al \<and> \<not> realloc_shrink al then sm\<lparr>keys := None\<rparr> else sm),
        Some \<lparr>kvp_key = Some k, kvp_value = v\<rparr>)"
proof -
  have "keys sm \<noteq> None" "vals sm \<noteq> None" using assms(1) by (auto simp: sm_rep_def)
  then show ?thesis
    using double_arrays_oom [OF assms(1,4-6)] sm_rep_top [OF assms(1)] sm_rep_capacity [OF assms(1)]
      find_key_rep [where P = P and cmp = cmp, OF assms(1,2)] assms(3,4)
    by (auto simp: sm_set_def set_new_def is_full_def find_codes)
qed

section \<open>Removing\<close>

text \<open>What the inner loop of \<^verbatim>\<open>remove_key\<close> leaves in the arrays.\<close>

lemma shift_down_spec:
  assumes "t < length ks" "length vs = length ks" "i \<le> t"
    "\<And>j. i < j \<Longrightarrow> j \<le> t \<Longrightarrow> ks ! j \<noteq> Uninit \<and> vs ! j \<noteq> Uninit"
  shows "\<exists>ks' vs'. shift_down ks vs (int t) (int i) = Ret (ks', vs') \<and>
    length ks' = length ks \<and> length vs' = length vs \<and>
    (\<forall>j<i. ks' ! j = ks ! j \<and> vs' ! j = vs ! j) \<and>
    (\<forall>j. i \<le> j \<longrightarrow> j < t \<longrightarrow> ks' ! j = ks ! Suc j \<and> vs' ! j = vs ! Suc j)"
  using assms
proof (induction "t - i" arbitrary: i ks vs)
  case 0
  then show ?case by (subst shift_down.simps) simp
next
  case (Suc n)
  then have lt: "i < t" by simp
  have ld: "load (cell_at ks (int (Suc i))) = Ret (ks ! Suc i)"
    "load (cell_at vs (int (Suc i))) = Ret (vs ! Suc i)"
    using Suc.prems lt by (auto simp del: of_nat_Suc)
  let ?ks = "ks[i := ks ! Suc i]" and ?vs = "vs[i := vs ! Suc i]"
  have step: "shift_down ks vs (int t) (int i) = shift_down ?ks ?vs (int t) (int (Suc i))"
    using Suc.prems lt ld by (subst shift_down.simps) (simp add: add.commute)
  obtain ks' vs' where r: "shift_down ?ks ?vs (int t) (int (Suc i)) = Ret (ks', vs')"
    "length ks' = length ks" "length vs' = length vs"
    "\<And>j. j < Suc i \<Longrightarrow> ks' ! j = ?ks ! j \<and> vs' ! j = ?vs ! j"
    "\<And>j. Suc i \<le> j \<Longrightarrow> j < t \<Longrightarrow> ks' ! j = ?ks ! Suc j \<and> vs' ! j = ?vs ! Suc j"
  proof -
    have "n = t - Suc i" using Suc.hyps(2) lt by simp
    then have "\<exists>ks' vs'. shift_down ?ks ?vs (int t) (int (Suc i)) = Ret (ks', vs') \<and>
      length ks' = length ?ks \<and> length vs' = length ?vs \<and>
      (\<forall>j<Suc i. ks' ! j = ?ks ! j \<and> vs' ! j = ?vs ! j) \<and>
      (\<forall>j. Suc i \<le> j \<longrightarrow> j < t \<longrightarrow> ks' ! j = ?ks ! Suc j \<and> vs' ! j = ?vs ! Suc j)"
      by (rule Suc.hyps(1)) (use Suc.prems lt in auto)
    then obtain ks' vs' where a: "shift_down ?ks ?vs (int t) (int (Suc i)) = Ret (ks', vs')"
      "length ks' = length ?ks" "length vs' = length ?vs"
      "\<forall>j<Suc i. ks' ! j = ?ks ! j \<and> vs' ! j = ?vs ! j"
      "\<forall>j. Suc i \<le> j \<longrightarrow> j < t \<longrightarrow> ks' ! j = ?ks ! Suc j \<and> vs' ! j = ?vs ! Suc j"
      by (elim exE conjE)
    show thesis by (rule that [OF a(1)]) (use a in simp_all)
  qed
  have "\<forall>j<i. ks' ! j = ks ! j \<and> vs' ! j = vs ! j" using r(4) by auto
  moreover have "ks' ! j = ks ! Suc j \<and> vs' ! j = vs ! Suc j" if "i \<le> j" "j < t" for j
    using r(4) [of i] r(5) [of j] Suc.prems that lt by (cases "j = i") auto
  ultimately show ?case using r(1-3) step by auto
qed

lemma remove_loop_rep:
  assumes "\<And>e. e \<in> set es \<Longrightarrow> cmp (Some k) (Some (fst e)) = Ret (P e)"
    "keys sm = Some ks" "vals sm = Some vs" "length es \<le> length ks" "length vs = length ks"
    "\<And>i. i < length es \<Longrightarrow> ks ! i = Ptr (Some (fst (es ! i)))"
    "\<And>i. i < length es \<Longrightarrow> vs ! i = Ptr (snd (es ! i))"
    "top sm = int (length es) - 1" "i \<le> length es"
  shows "remove_loop sm ks vs (Some k) cmp rmv (int i) =
    (case find_idx P (drop i es) of
       None \<Rightarrow> Ret (REMOVE_KEY_NOT_FOUND, sm, rmv)
     | Some j \<Rightarrow> obind (shift_down ks vs (int (length es) - 1) (int (i + j))) (\<lambda>(ks', vs').
         Ret (REMOVE_SUCCESS, sm\<lparr>keys := Some ks', vals := Some vs', top := top sm - 1\<rparr>,
              \<lparr>kvp_key = Some (fst (es ! (i + j))), kvp_value = snd (es ! (i + j))\<rparr>)))"
  using assms(9)
proof (induction "length es - i" arbitrary: i)
  case 0
  then show ?case using assms(8) by (subst remove_loop.simps) simp
next
  case (Suc n)
  then have i: "i < length es" by simp
  then have d: "drop i es = es ! i # drop (Suc i) es" by (rule Cons_nth_drop_Suc [symmetric])
  have cell: "cell_at ks (int i) = Ptr (Some (fst (es ! i)))" "deref (cell_at vs (int i)) = Ret (snd (es ! i))"
    using i assms(4-7) by auto
  have c: "cmp (Some k) (Some (fst (es ! i))) = Ret (P (es ! i))"
    using i assms(1) by simp
  show ?case
  proof (cases "P (es ! i)")
    case True
    then show ?thesis
      using i assms(8) by (subst remove_loop.simps) (simp add: cell c d)
  next
    case False
    have "remove_loop sm ks vs (Some k) cmp rmv (int i) =
      remove_loop sm ks vs (Some k) cmp rmv (int (Suc i))"
      using i False assms(8) by (subst remove_loop.simps) (simp add: cell c add.commute)
    also have "\<dots> = (case find_idx P (drop (Suc i) es) of
       None \<Rightarrow> Ret (REMOVE_KEY_NOT_FOUND, sm, rmv)
     | Some j \<Rightarrow> obind (shift_down ks vs (int (length es) - 1) (int (Suc i + j))) (\<lambda>(ks', vs').
         Ret (REMOVE_SUCCESS, sm\<lparr>keys := Some ks', vals := Some vs', top := top sm - 1\<rparr>,
              \<lparr>kvp_key = Some (fst (es ! (Suc i + j))), kvp_value = snd (es ! (Suc i + j))\<rparr>)))"
      using Suc.hyps i by (intro Suc.hyps(1)) auto
    finally show ?thesis using False by (simp add: d ac_simps split: option.split)
  qed
qed

lemma remove_key_rep_miss:
  assumes "sm_rep sm es" "\<And>e. e \<in> set es \<Longrightarrow> cmp (Some k) (Some (fst e)) = Ret (P e)"
    "find_idx P es = None"
  shows "remove_key (Some sm) (Some k) (Some cmp) (Some rmv) =
    Ret (REMOVE_KEY_NOT_FOUND, Some sm, Some rmv)"
proof -
  obtain ks vs where c: "keys sm = Some ks" "vals sm = Some vs"
    "length ks = nat (capacity sm)" "length vs = length ks" "length es \<le> length ks"
    "\<And>i. i < length es \<Longrightarrow> ks ! i = Ptr (Some (fst (es ! i)))"
    "\<And>i. i < length es \<Longrightarrow> vs ! i = Ptr (snd (es ! i))"
    by (rule sm_rep_cells [OF assms(1)], rule that)
  show ?thesis
    using remove_loop_rep [where P = P and cmp = cmp and i = 0 and rmv = rmv,
        OF assms(2) c(1,2,5,4,6,7) sm_rep_top [OF assms(1)]] c assms(3)
    by (simp add: remove_key_def)
qed

lemma remove_key_rep_hit:
  assumes "sm_rep sm es" "\<And>e. e \<in> set es \<Longrightarrow> cmp (Some k) (Some (fst e)) = Ret (P e)"
    "find_idx P es = Some i"
  shows "\<exists>sm'. remove_key (Some sm) (Some k) (Some cmp) (Some rmv) =
      Ret (REMOVE_SUCCESS, Some sm', Some \<lparr>kvp_key = Some (fst (es ! i)), kvp_value = snd (es ! i)\<rparr>) \<and>
    sm_rep sm' (remove_nth i es) \<and> capacity sm' = capacity sm"
proof -
  obtain ks vs where c: "keys sm = Some ks" "vals sm = Some vs"
    "length ks = nat (capacity sm)" "length vs = length ks" "length es \<le> length ks"
    "\<And>i. i < length es \<Longrightarrow> ks ! i = Ptr (Some (fst (es ! i)))"
    "\<And>i. i < length es \<Longrightarrow> vs ! i = Ptr (snd (es ! i))"
    by (rule sm_rep_cells [OF assms(1)], rule that)
  note tp = sm_rep_top [OF assms(1)] and p = sm_rep_capacity [OF assms(1)]
  have i: "i < length es" using find_idx_SomeD [OF assms(3)] by simp
  then obtain t where t: "length es = Suc t" by (cases "length es") auto
  obtain ks' vs' where r: "shift_down ks vs (int t) (int i) = Ret (ks', vs')"
    "length ks' = length ks" "length vs' = length vs"
    "\<And>j. j < i \<Longrightarrow> ks' ! j = ks ! j \<and> vs' ! j = vs ! j"
    "\<And>j. i \<le> j \<Longrightarrow> j < t \<Longrightarrow> ks' ! j = ks ! Suc j \<and> vs' ! j = vs ! Suc j"
    using shift_down_spec [of t ks vs i] c i t by auto
  let ?sm = "sm\<lparr>keys := Some ks', vals := Some vs', top := top sm - 1\<rparr>"
  have nth: "remove_nth i es ! j = (if j < i then es ! j else es ! Suc j)" if "j < t" for j
    using that t i by (auto simp: remove_nth_def nth_append min_def)
  have "sm_rep ?sm (remove_nth i es)"
  proof (rule sm_repI [where ks = ks' and vs = vs'])
    fix j assume "j < length (remove_nth i es)"
    then have j: "j < t" using i t by simp
    show "ks' ! j = Ptr (Some (fst (remove_nth i es ! j)))" "vs' ! j = Ptr (snd (remove_nth i es ! j))"
      using r(4,5) [of j] c(6,7) [of j] c(6,7) [of "Suc j"] j t by (auto simp: nth not_less)
  qed (use c r p tp i t in auto)
  moreover have "remove_key (Some sm) (Some k) (Some cmp) (Some rmv) =
      Ret (REMOVE_SUCCESS, Some ?sm, Some \<lparr>kvp_key = Some (fst (es ! i)), kvp_value = snd (es ! i)\<rparr>)"
    using remove_loop_rep [where P = P and cmp = cmp and i = 0 and rmv = rmv,
        OF assms(2) c(1,2,5,4,6,7) tp] c assms(3) r(1) t
    by (simp add: remove_key_def)
  ultimately show ?thesis by (intro exI [of _ ?sm]) simp
qed

section \<open>Iterating and deleting\<close>

lemma smw_next_rep:
  assumes "sm_rep sm es" "i \<le> length es"
  shows "smw_next \<lparr>index = int i, smw_sm = Some sm\<rparr> =
    Ret (if i < length es
         then (Some \<lparr>kvp_key = Some (fst (es ! i)), kvp_value = snd (es ! i)\<rparr>,
               \<lparr>index = int (Suc i), smw_sm = Some sm\<rparr>)
         else (None, \<lparr>index = int i, smw_sm = Some sm\<rparr>))"
proof -
  obtain ks vs where c: "keys sm = Some ks" "vals sm = Some vs"
    "length ks = nat (capacity sm)" "length vs = length ks" "length es \<le> length ks"
    "\<And>i. i < length es \<Longrightarrow> ks ! i = Ptr (Some (fst (es ! i)))"
    "\<And>i. i < length es \<Longrightarrow> vs ! i = Ptr (snd (es ! i))"
    by (rule sm_rep_cells [OF assms(1)], rule that)
  show ?thesis
    using c assms(2) sm_rep_top [OF assms(1)] by (auto simp: smw_next_def create_key_val_pair_def)
qed

lemma delete_loop_rep:
  assumes "length es \<le> length ks" "length vs = length ks"
    "\<And>i. i < length es \<Longrightarrow> ks ! i = Ptr (Some (fst (es ! i)))"
    "\<And>i. i < length es \<Longrightarrow> vs ! i = Ptr (snd (es ! i))" "i \<le> length es"
  shows "delete_loop ks vs (int (length es) - 1) (int i) =
    Ret (map (\<lambda>e. (Some (fst e), snd e)) (drop i es))"
  using assms(5)
proof (induction "length es - i" arbitrary: i)
  case 0
  then show ?case by (subst delete_loop.simps) simp
next
  case (Suc n)
  then have i: "i < length es" by simp
  then have d: "drop i es = es ! i # drop (Suc i) es" by (rule Cons_nth_drop_Suc [symmetric])
  have "delete_loop ks vs (int (length es) - 1) (int (Suc i)) =
    Ret (map (\<lambda>e. (Some (fst e), snd e)) (drop (Suc i) es))"
    using Suc.hyps i by (intro Suc.hyps(1)) auto
  then show ?case
    using i assms(1-4) by (subst delete_loop.simps) (simp add: d add.commute)
qed

section \<open>Finite maps\<close>

text \<open>\<open>sm_map key_ok ident sm m\<close>: the map \<open>sm\<close> represents the finite map \<open>m\<close> from key identities to
  stored key and value. Every stored key satisfies \<open>key_ok\<close>, and no identity is stored twice.\<close>

definition entries_map :: "('k \<Rightarrow> 'i) \<Rightarrow> ('k \<times> 'v option) list \<Rightarrow> ('i \<rightharpoonup> 'k \<times> 'v option)" where
  "entries_map ident es = map_of (map (\<lambda>e. (ident (fst e), e)) es)"

definition sm_map :: "('k \<Rightarrow> bool) \<Rightarrow> ('k \<Rightarrow> 'i) \<Rightarrow> ('k, 'v) SimpleMap \<Rightarrow>
    ('i \<rightharpoonup> 'k \<times> 'v option) \<Rightarrow> bool" where
  "sm_map key_ok ident sm m \<longleftrightarrow>
     (\<exists>es. sm_rep sm es \<and> (\<forall>e\<in>set es. key_ok (fst e)) \<and>
           distinct (map (\<lambda>e. ident (fst e)) es) \<and> m = entries_map ident es)"

lemma entries_map_find_None:
  "find_idx (\<lambda>e. ident (fst e) = x) es = None \<Longrightarrow> entries_map ident es x = None"
  by (auto simp: find_idx_None_iff entries_map_def map_of_eq_None_iff)

lemma entries_map_find_Some:
  assumes "distinct (map (\<lambda>e. ident (fst e)) es)" "find_idx (\<lambda>e. ident (fst e) = x) es = Some i"
  shows "entries_map ident es x = Some (es ! i)"
  using map_of_distinct_nth [of "map (\<lambda>e. (ident (fst e), e)) es" i] assms find_idx_SomeD [OF assms(2)]
  by (simp add: entries_map_def o_def)

lemma card_dom_entries:
  "distinct (map (\<lambda>e. ident (fst e)) es) \<Longrightarrow> card (dom (entries_map ident es)) = length es"
  using distinct_card [of "map (\<lambda>e. ident (fst e)) es"]
  by (simp add: entries_map_def dom_map_of_conv_image_fst image_image)

lemma sm_map_create: "sm_map key_ok ident create_simple_map Map.empty"
  using sm_rep_create by (auto simp: sm_map_def entries_map_def intro!: exI [of _ "[]"])

lemma sm_mapE:
  assumes "sm_map key_ok ident sm m"
  obtains es where "sm_rep sm es" "\<forall>e\<in>set es. key_ok (fst e)"
    "distinct (map (\<lambda>e. ident (fst e)) es)" "m = entries_map ident es"
  using assms by (auto simp: sm_map_def)

text \<open>The contract a comparison callback has to meet: on well-formed keys it never fails and decides
  whether two keys have the same identity.\<close>

locale key_compare =
  fixes cmp :: "'k cmp_fptr"
    and key_ok :: "'k \<Rightarrow> bool"
    and ident :: "'k \<Rightarrow> 'i"
  assumes cmp_ident: "key_ok a \<Longrightarrow> key_ok b \<Longrightarrow> cmp (Some a) (Some b) = Ret (ident a = ident b)"
begin

lemma cmp_left:
  "\<forall>e\<in>set es. key_ok (fst e) \<Longrightarrow> key_ok k \<Longrightarrow> e \<in> set es \<Longrightarrow>
    cmp (Some (fst e)) (Some k) = Ret (ident (fst e) = ident k)"
  by (simp add: cmp_ident)

lemma cmp_right:
  "\<forall>e\<in>set es. key_ok (fst e) \<Longrightarrow> key_ok k \<Longrightarrow> e \<in> set es \<Longrightarrow>
    cmp (Some k) (Some (fst e)) = Ret (ident (fst e) = ident k)"
  using cmp_ident [of k "fst e"] by auto

lemma get_refines:
  assumes "sm_map key_ok ident sm m" "key_ok k"
  shows "sm_get (Some sm) (Some k) (Some cmp) =
    Ret (map_option (\<lambda>(k', v). \<lparr>kvp_key = Some k', kvp_value = v\<rparr>) (m (ident k)))"
proof -
  obtain es where es: "sm_rep sm es" "\<forall>e\<in>set es. key_ok (fst e)"
    "distinct (map (\<lambda>e. ident (fst e)) es)" "m = entries_map ident es"
    by (rule sm_mapE [OF assms(1)], rule that)
  show ?thesis
    using sm_get_rep [where P = "\<lambda>e. ident (fst e) = ident k" and cmp = cmp and k = k, OF es(1) cmp_left [OF es(2) assms(2)]]
      entries_map_find_None [of ident "ident k" es] entries_map_find_Some [OF es(3), of "ident k"] es(4)
    by (cases "find_idx (\<lambda>e. ident (fst e) = ident k) es") (auto split: prod.splits)
qed

lemma set_refines_upgrade:
  assumes "sm_map key_ok ident sm m" "key_ok k" "m (ident k) = Some (k', v')"
  shows "\<exists>sm'. sm_set al (Some sm) (Some \<lparr>kvp_key = Some k, kvp_value = v\<rparr>) (Some cmp) =
      Ret (SUCESS_UPGRADE, Some sm', Some \<lparr>kvp_key = Some k', kvp_value = v'\<rparr>) \<and>
    sm_map key_ok ident sm' (m(ident k \<mapsto> (k, v))) \<and> capacity sm' = capacity sm"
proof -
  obtain es where es: "sm_rep sm es" "\<forall>e\<in>set es. key_ok (fst e)"
    "distinct (map (\<lambda>e. ident (fst e)) es)" "m = entries_map ident es"
    by (rule sm_mapE [OF assms(1)], rule that)
  obtain i where i: "find_idx (\<lambda>e. ident (fst e) = ident k) es = Some i"
    using entries_map_find_None [of ident "ident k" es] assms(3) es(4) by fastforce
  have il: "i < length es" "ident (fst (es ! i)) = ident k" using find_idx_SomeD [OF i] by auto
  have "es ! i = (k', v')" using entries_map_find_Some [OF es(3) i] assms(3) es(4) by simp
  moreover obtain sm' where sm': "sm_set al (Some sm) (Some \<lparr>kvp_key = Some k, kvp_value = v\<rparr>) (Some cmp) =
      Ret (SUCESS_UPGRADE, Some sm', Some \<lparr>kvp_key = Some (fst (es ! i)), kvp_value = snd (es ! i)\<rparr>)"
    "sm_rep sm' (es[i := (k, v)])" "capacity sm' = capacity sm"
    using sm_set_rep_upgrade [where P = "\<lambda>e. ident (fst e) = ident k" and cmp = cmp and k = k,
        OF es(1) cmp_left [OF es(2) assms(2)] i] by blast
  moreover have "entries_map ident (es[i := (k, v)]) = m(ident k \<mapsto> (k, v))"
    using map_of_list_update [of "map (\<lambda>e. (ident (fst e), e)) es" i "(ident k, (k, v))"] es(3,4) il
    by (simp add: entries_map_def map_update o_def)
  moreover have "map (\<lambda>e. ident (fst e)) (es[i := (k, v)]) = map (\<lambda>e. ident (fst e)) es"
    using il by (simp add: map_update list_update_same_conv)
  moreover have "\<forall>e\<in>set (es[i := (k, v)]). key_ok (fst e)"
    using es(2) assms(2) by (auto dest!: set_update_subset_insert [THEN subsetD])
  ultimately show ?thesis using es(3) by (auto simp: sm_map_def)
qed

lemma set_refines_new:
  assumes "sm_map key_ok ident sm m" "key_ok k" "m (ident k) = None"
    "2 * capacity sm \<le> INT_MAX" "realloc_keys al" "realloc_values al"
  shows "\<exists>sm'. sm_set al (Some sm) (Some \<lparr>kvp_key = Some k, kvp_value = v\<rparr>) (Some cmp) =
      Ret (SUCESS_SET, Some sm', Some \<lparr>kvp_key = Some k, kvp_value = v\<rparr>) \<and>
    sm_map key_ok ident sm' (m(ident k \<mapsto> (k, v))) \<and>
    capacity sm' \<le> max (capacity sm) (2 * int (card (dom m)))"
proof -
  obtain es where es: "sm_rep sm es" "\<forall>e\<in>set es. key_ok (fst e)"
    "distinct (map (\<lambda>e. ident (fst e)) es)" "m = entries_map ident es"
    by (rule sm_mapE [OF assms(1)], rule that)
  have i: "find_idx (\<lambda>e. ident (fst e) = ident k) es = None"
    using entries_map_find_Some [OF es(3), of "ident k"] assms(3) es(4)
    by (cases "find_idx (\<lambda>e. ident (fst e) = ident k) es") auto
  have fresh: "ident k \<notin> (\<lambda>e. ident (fst e)) ` set es"
    using i by (auto simp: find_idx_None_iff)
  obtain sm' where sm': "sm_set al (Some sm) (Some \<lparr>kvp_key = Some k, kvp_value = v\<rparr>) (Some cmp) =
      Ret (SUCESS_SET, Some sm', Some \<lparr>kvp_key = Some k, kvp_value = v\<rparr>)"
    "sm_rep sm' (es @ [(k, v)])"
    "capacity sm' = (if int (length es) = capacity sm then 2 * capacity sm else capacity sm)"
    using sm_set_rep_new [where P = "\<lambda>e. ident (fst e) = ident k" and cmp = cmp and k = k,
        OF es(1) cmp_left [OF es(2) assms(2)] i assms(4-6)] by blast
  have "entries_map ident (es @ [(k, v)]) = m(ident k \<mapsto> (k, v))"
    using entries_map_find_None [OF i] es(4)
    by (auto simp: entries_map_def map_add_def fun_eq_iff split: option.splits)
  moreover have "capacity sm' \<le> max (capacity sm) (2 * int (card (dom m)))"
    using sm'(3) card_dom_entries [OF es(3)] es(4) by simp
  ultimately show ?thesis
    using sm'(1,2) es(2,3) assms(2) fresh
    by (intro exI [of _ sm']) (auto simp: sm_map_def intro!: exI [of _ "es @ [(k, v)]"])
qed

lemma remove_refines:
  assumes "sm_map key_ok ident sm m" "key_ok k" "m (ident k) = Some (k', v')"
  shows "\<exists>sm'. remove_key (Some sm) (Some k) (Some cmp) (Some rmv) =
      Ret (REMOVE_SUCCESS, Some sm', Some \<lparr>kvp_key = Some k', kvp_value = v'\<rparr>) \<and>
    sm_map key_ok ident sm' (m(ident k := None)) \<and> capacity sm' = capacity sm"
proof -
  obtain es where es: "sm_rep sm es" "\<forall>e\<in>set es. key_ok (fst e)"
    "distinct (map (\<lambda>e. ident (fst e)) es)" "m = entries_map ident es"
    by (rule sm_mapE [OF assms(1)], rule that)
  obtain i where i: "find_idx (\<lambda>e. ident (fst e) = ident k) es = Some i"
    using entries_map_find_None [of ident "ident k" es] assms(3) es(4) by fastforce
  have il: "i < length es" "ident (fst (es ! i)) = ident k" using find_idx_SomeD [OF i] by auto
  have "es ! i = (k', v')" using entries_map_find_Some [OF es(3) i] assms(3) es(4) by simp
  moreover obtain sm' where "remove_key (Some sm) (Some k) (Some cmp) (Some rmv) =
      Ret (REMOVE_SUCCESS, Some sm', Some \<lparr>kvp_key = Some (fst (es ! i)), kvp_value = snd (es ! i)\<rparr>)"
    "sm_rep sm' (remove_nth i es)" "capacity sm' = capacity sm"
    using remove_key_rep_hit [where P = "\<lambda>e. ident (fst e) = ident k" and cmp = cmp and k = k,
        OF es(1) cmp_right [OF es(2) assms(2)] i] by blast
  moreover have "entries_map ident (remove_nth i es) = m(ident k := None)"
    using map_of_remove_nth [of "map (\<lambda>e. (ident (fst e), e)) es" i] es(3,4) il
    by (simp add: entries_map_def map_remove_nth o_def)
  moreover have "\<forall>e\<in>set (remove_nth i es). key_ok (fst e)"
    using es(2) set_remove_nth_subset [of i es] by auto
  moreover have "distinct (map (\<lambda>e. ident (fst e)) (remove_nth i es))"
    using distinct_remove_nth [OF es(3), of i] by (simp add: map_remove_nth)
  ultimately show ?thesis by (auto simp: sm_map_def)
qed

end

end
