(* ===== verification/Util.thy ===== *)
theory Util
  imports Simple_Map
begin

text \<open>
  The string helpers of \<^verbatim>\<open>src/src/util.c\<close>: \<^verbatim>\<open>string_to_uint\<close>, \<^verbatim>\<open>compare_str\<close> and
  \<^verbatim>\<open>does_the_strings_match\<close>. The pattern matcher \<^verbatim>\<open>fnmatch(3)\<close> of the C library is a parameter;
  \<open>fnmatch_casefold\<close> states what its manual promises of the calls this program makes.
\<close>

section \<open>Decimal numbers\<close>

text \<open>A \<^verbatim>\<open>char\<close> promoted to \<^verbatim>\<open>int\<close> (\<^verbatim>\<open>char\<close> is signed).\<close>

definition char_int :: "char \<Rightarrow> int" where
  "char_int c = (let n = int (of_char c) in if n < 128 then n else n - 256)"

definition string_to_uint :: "string \<Rightarrow> uint" where
  "string_to_uint string =
     foldl (\<lambda>num c. num * 10 + word_of_int (char_int c - 48)) 0 (cstr string)"

lemma is_digit_char_int: "is_digit c \<Longrightarrow> char_int c - 48 = int (digit_val c)"
  by (auto simp: is_digit_def char_int_def digit_val_def Let_def)

lemma is_digit_not_NUL: "\<forall>c\<in>set ds. is_digit c \<Longrightarrow> NUL \<notin> set ds"
  by auto

text \<open>The conversion is exact modulo $2^{32}$.\<close>

lemma foldl_digits:
  "\<forall>c\<in>set ds. is_digit c \<Longrightarrow>
   foldl (\<lambda>num c. num * 10 + word_of_int (char_int c - 48)) (of_nat n :: uint) ds =
   of_nat (foldl (\<lambda>n c. 10 * n + digit_val c) n ds)"
proof (induction ds arbitrary: n)
  case (Cons c ds)
  have step: "(of_nat n :: uint) * 10 + word_of_int (char_int c - 48) = of_nat (10 * n + digit_val c)"
    using Cons.prems by (simp add: is_digit_char_int algebra_simps)
  show ?case
    unfolding foldl_Cons step by (rule Cons.IH) (use Cons.prems in simp)
qed simp

lemma string_to_uint_digits:
  "\<forall>c\<in>set ds. is_digit c \<Longrightarrow> string_to_uint ds = of_nat (digits_val ds)"
  using foldl_digits [of ds 0] is_digit_not_NUL [of ds]
  by (simp add: string_to_uint_def digits_val_def)

lemma string_to_uint_dec_nat: "string_to_uint (dec_nat n) = of_nat n"
  using string_to_uint_digits [of "dec_nat n"] dec_nat_digits by simp

section \<open>String comparison\<close>

definition compare_str :: "string cmp_fptr" where
  "compare_str key_a key_b =
     (case (key_a, key_b) of
        (Some a, Some b) \<Rightarrow> Ret (strcmp_eq a b)
      | _ \<Rightarrow> Ret False)"

text \<open>Plain C strings meet the contract of a map's comparison callback.\<close>

interpretation str_cmp: key_compare compare_str "\<lambda>_. True" cstr
  by unfold_locales (simp add: compare_str_def strcmp_eq_def)

section \<open>Pattern matching\<close>

datatype MatchErrorState = MATCH_ERROR | MATCH | NO_MATCH

text \<open>The type of \<^verbatim>\<open>fnmatch(pattern, string, flags)\<close>; the result 0 is a match.\<close>

type_synonym fnmatch_fn = "string \<Rightarrow> string \<Rightarrow> int \<Rightarrow> int"

definition FNM_IGNORECASE :: int where "FNM_IGNORECASE = 16"

definition does_the_strings_match :: "fnmatch_fn \<Rightarrow> string option \<Rightarrow> string option \<Rightarrow>
    MatchErrorState" where
  "does_the_strings_match fnmatch pattern target =
     (case (pattern, target) of
        (Some p, Some t) \<Rightarrow>
          if fnmatch (cstr p) (cstr t) FNM_IGNORECASE = 0 then MATCH else NO_MATCH
      | _ \<Rightarrow> MATCH_ERROR)"

definition to_upper :: "char \<Rightarrow> char" where
  "to_upper c = (if 97 \<le> (of_char c :: nat) \<and> (of_char c :: nat) \<le> 122
                 then char_of (of_char c - 32 :: nat) else c)"

definition casefold :: "string \<Rightarrow> string" where
  "casefold s = map to_upper s"

text \<open>A pattern without \<^verbatim>\<open>*\<close>, \<^verbatim>\<open>?\<close>, \<^verbatim>\<open>[\<close> and backslash.\<close>

definition literal_pattern :: "string \<Rightarrow> bool" where
  "literal_pattern p \<longleftrightarrow> set p \<inter> {CHR ''*'', CHR ''?'', CHR ''['', CHR 0x5C} = {}"

text \<open>Documented behaviour of \<^verbatim>\<open>fnmatch\<close> with \<^verbatim>\<open>FNM_CASEFOLD\<close> as its only flag: a pattern without
  special characters matches the strings equal to it up to case, and \<^verbatim>\<open>*\<close> matches every string.\<close>

definition fnmatch_casefold :: "fnmatch_fn \<Rightarrow> bool" where
  "fnmatch_casefold f \<longleftrightarrow>
     (\<forall>p t. literal_pattern p \<longrightarrow> (f p t FNM_IGNORECASE = 0 \<longleftrightarrow> casefold p = casefold t)) \<and>
     (\<forall>t. f ''*'' t FNM_IGNORECASE = 0)"

text \<open>A concrete matcher with \<^verbatim>\<open>*\<close> and \<^verbatim>\<open>?\<close>, to instantiate the parameter.\<close>

fun glob_match :: "string \<Rightarrow> string \<Rightarrow> bool" where
  "glob_match [] t = (t = [])"
| "glob_match (p # ps) [] = (p = CHR ''*'' \<and> glob_match ps [])"
| "glob_match (p # ps) (c # cs) =
     (if p = CHR ''*'' then glob_match ps (c # cs) \<or> glob_match (p # ps) cs
      else (p = CHR ''?'' \<or> to_upper p = to_upper c) \<and> glob_match ps cs)"

definition glob_fnmatch :: fnmatch_fn where
  "glob_fnmatch p t flags = (if glob_match p t then 0 else 1)"

lemma glob_match_literal:
  "literal_pattern p \<Longrightarrow> glob_match p t \<longleftrightarrow> casefold p = casefold t"
  by (induction p t rule: glob_match.induct) (auto simp: literal_pattern_def casefold_def)

lemma glob_match_star: "glob_match ''*'' t"
  by (induction t) auto

lemma glob_fnmatch_casefold: "fnmatch_casefold glob_fnmatch"
  by (simp add: fnmatch_casefold_def glob_fnmatch_def glob_match_literal glob_match_star)

lemma does_the_strings_match_literal:
  assumes "fnmatch_casefold f" "literal_pattern p" "NUL \<notin> set p"
  shows "does_the_strings_match f (Some p) (Some t) =
    (if casefold p = casefold (cstr t) then MATCH else NO_MATCH)"
  using assms by (auto simp: does_the_strings_match_def fnmatch_casefold_def)

end
