(* ===== verification/Protocol.thy ===== *)
theory Protocol
  imports Net_IO Util
begin

text \<open>
  The RESP reader of \<^verbatim>\<open>src/src/protocol.c\<close> (and \<^verbatim>\<open>print_array\<close> of \<^verbatim>\<open>src/src/util.c\<close>, which walks the
  same tree). A chain of nodes linked by \<^verbatim>\<open>next\<close> is a list of \<open>node\<close>s. \<open>BaseNode\<close> is the bare node
  that \<^verbatim>\<open>lexer\<close> stores as the content of an empty or nil array: it is not a \<^verbatim>\<open>GenericNode\<close>, so
  following its \<^verbatim>\<open>node\<close> field dereferences its type tag as a pointer, which is undefined.
\<close>

section \<open>Data\<close>

datatype RedisDtype = UNDEF_DTYPE | SIMPLE_STR | INT | BULK_STR | ARRAY | NILL_ARRAY | EMPTY_ARRAY

datatype ArraySizeStates =
  START_STATE | DIGIT_STATE | NEG_DIGIT_STATE_I | NEG_DIGIT_STATE_II | END_STATE

datatype node =
    BulkStringNode "string option" int
  | ArrayNode "node list" int
  | BaseNode RedisDtype

definition MAX_ARRAY_SIZE :: nat where "MAX_ARRAY_SIZE = 8192"
definition PROTO_MAX_BULK_SIZE :: int where "PROTO_MAX_BULK_SIZE = 512000000"
definition ERR_INV_CHAR :: int where "ERR_INV_CHAR = -2"
definition ERR_ARRAY_OVERFLOW :: int where "ERR_ARRAY_OVERFLOW = -2"

section \<open>Element sizes\<close>

text \<open>The \<^verbatim>\<open>calloc\<close>ed line buffer of \<^verbatim>\<open>get_el_size\<close>, as the prefix written so far; the rest is zero.\<close>

definition buf_at :: "string \<Rightarrow> nat \<Rightarrow> char outcome" where
  "buf_at buf i =
     (if i < length buf then Ret (buf ! i) else if i < MAX_ARRAY_SIZE then Ret NUL else UB)"

definition buf_put :: "string \<Rightarrow> nat \<Rightarrow> char \<Rightarrow> string outcome" where
  "buf_put buf i c =
     (if MAX_ARRAY_SIZE \<le> i then UB
      else if i < length buf then Ret (buf[i := c])
      else Ret (buf @ replicate (i - length buf) NUL @ [c]))"

text \<open>What one turn of the loop's \<^verbatim>\<open>switch\<close> does: stop with a result, leave the loop, or go on with
  a new state, byte count and sign.\<close>

datatype el_turn = ElReturn int | ElBreak string | ElNext ArraySizeStates nat bool

fun el_switch :: "ArraySizeStates \<Rightarrow> string \<Rightarrow> nat \<Rightarrow> bool \<Rightarrow> el_turn outcome" where
  "el_switch START_STATE buf n neg =
     obind (buf_at buf 0) (\<lambda>c.
       Ret (if is_digit c then ElNext DIGIT_STATE (n + 1) neg
            else if c = CHR ''-'' then ElNext NEG_DIGIT_STATE_I n True
            else ElReturn ERR_INV_CHAR))"
| "el_switch DIGIT_STATE buf n neg =
     obind (buf_at buf n) (\<lambda>c.
       Ret (if is_digit c then ElNext DIGIT_STATE (n + 1) neg
            else if c = CR then ElNext END_STATE n neg
            else ElReturn ERR_INV_CHAR))"
| "el_switch NEG_DIGIT_STATE_I buf n neg =
     obind (buf_at buf n) (\<lambda>c.
       Ret (if c \<noteq> CHR ''1'' then ElReturn ERR_INV_CHAR
            else ElNext NEG_DIGIT_STATE_II (n + 1) neg))"
| "el_switch NEG_DIGIT_STATE_II buf n neg =
     obind (buf_at buf n) (\<lambda>c.
       Ret (if c \<noteq> CR then ElReturn ERR_INV_CHAR else ElNext END_STATE n neg))"
| "el_switch END_STATE buf n neg =
     obind (buf_at buf n) (\<lambda>c.
       if c \<noteq> LF then Ret (ElReturn ERR_INV_CHAR)
       else obind (buf_put buf n NUL) (\<lambda>buf'. Ret (ElBreak buf')))"

text \<open>The loop around the \<^verbatim>\<open>switch\<close>. \<^verbatim>\<open>recv\<close> is called without retries (\<open>el_recv\<close>; \<open>None\<close> is its
  result -1); when the peer has closed it returns 0, the loop does not notice, and the \<^verbatim>\<open>switch\<close> looks
  at the old buffer. Every turn that goes on either increases the byte count or moves the state
  forward.\<close>

fun el_rank :: "ArraySizeStates \<Rightarrow> nat" where
  "el_rank START_STATE = 3"
| "el_rank DIGIT_STATE = 2"
| "el_rank NEG_DIGIT_STATE_I = 2"
| "el_rank NEG_DIGIT_STATE_II = 1"
| "el_rank END_STATE = 0"

lemma el_switch_next:
  "el_switch st buf n neg = Ret (ElNext st' n' neg') \<Longrightarrow>
   n < n' \<or> n' = n \<and> el_rank st' < el_rank st"
  by (cases st) (auto simp: outcome_simps split: if_splits)

definition el_recv :: "string \<Rightarrow> nat \<Rightarrow> rx_event list \<Rightarrow> string option outcome" where
  "el_recv buf n evs =
     (case evs of
        [] \<Rightarrow> Ret (Some buf)
      | RxByte c # r \<Rightarrow> obind (buf_put buf n c) (\<lambda>buf'. Ret (Some buf'))
      | RxErr e # r \<Rightarrow> Ret None)"

function el_loop :: "ArraySizeStates \<Rightarrow> string \<Rightarrow> nat \<Rightarrow> bool \<Rightarrow> rx_event list \<Rightarrow>
    (int \<times> rx_event list) outcome" where
  "el_loop st buf n neg evs =
     (if MAX_ARRAY_SIZE < n then Ret (ERR_ARRAY_OVERFLOW, evs)
      else
        obind (el_recv buf n evs) (\<lambda>got.
        case got of
          None \<Rightarrow> Ret (ERR_INV_CHAR, tl evs)
        | Some buf' \<Rightarrow>
            obind (el_switch st buf' n neg) (\<lambda>turn.
            case turn of
              ElReturn i \<Rightarrow> Ret (i, tl evs)
            | ElBreak buf'' \<Rightarrow>
                Ret (uint_to_int (if neg then (- 1) * string_to_uint buf''
                                  else string_to_uint buf''), tl evs)
            | ElNext st' n' neg' \<Rightarrow> el_loop st' buf' n' neg' (tl evs))))"
  by pat_completeness auto
termination
  by (relation "measures [\<lambda>(st, buf, n, neg, evs). Suc MAX_ARRAY_SIZE - n,
                          \<lambda>(st, buf, n, neg, evs). el_rank st]")
    (auto dest!: el_switch_next)

declare el_loop.simps [simp del]

definition get_el_size :: "sock \<Rightarrow> (int \<times> sock) outcome" where
  "get_el_size s =
     obind (el_loop START_STATE [] 0 False (rx s)) (\<lambda>(i, evs). Ret (i, s\<lparr>rx := evs\<rparr>))"

section \<open>Strings\<close>

text \<open>\<^verbatim>\<open>is_valid_terminator\<close>: two reads, compared with CR and LF.\<close>

definition is_valid_terminator :: "sock \<Rightarrow> (bool \<times> sock) outcome" where
  "is_valid_terminator s =
     obind (read_exact_bytes 1 s) (\<lambda>(r, bs, s1).
       if r \<noteq> 1 then Ret (False, s1)
       else if bs \<noteq> [CR] then Ret (False, s1)
       else obind (read_exact_bytes 1 s1) (\<lambda>(r', bs', s2).
              if r' \<noteq> 1 then Ret (False, s2) else Ret (bs' = [LF], s2)))"

text \<open>\<^verbatim>\<open>new_bulk_str\<close> writes \<^verbatim>\<open>content[size]\<close> whenever the size is not 0, so a NULL content with size
  -1 writes through a null pointer.\<close>

definition new_bulk_str :: "string option \<Rightarrow> int \<Rightarrow> node outcome" where
  "new_bulk_str content sz =
     (if sz \<noteq> 0 then
        (case content of
           None \<Rightarrow> UB
         | Some b \<Rightarrow> if 0 \<le> sz \<and> sz \<le> int (length b) then Ret (BulkStringNode (Some b) sz) else UB)
      else Ret (BulkStringNode content sz))"

definition new_array :: "node list \<Rightarrow> int \<Rightarrow> node" where
  "new_array content sz = ArrayNode content sz"

text \<open>The end of \<^verbatim>\<open>lex_bulk_str\<close> on both of its successful paths: check the terminator, build the node.\<close>

definition finish_bulk_str :: "string \<Rightarrow> int \<Rightarrow> sock \<Rightarrow> (node option \<times> sock) outcome" where
  "finish_bulk_str buf sz s =
     obind (is_valid_terminator s) (\<lambda>(ok, s1).
       if \<not> ok then Ret (None, s1)
       else obind (new_bulk_str (Some buf) sz) (\<lambda>nd. Ret (Some nd, s1)))"

text \<open>\<^verbatim>\<open>lex_bulk_str\<close>. A size below -2 (an announced size of $2^{31}$ or more) makes \<^verbatim>\<open>calloc\<close> fail and
  \<^verbatim>\<open>recv\<close> report a bad address, so the function returns NULL; the connection is then abandoned, and
  what was left unread is not observed.\<close>

definition lex_bulk_str :: "sock \<Rightarrow> (node option \<times> sock) outcome" where
  "lex_bulk_str s =
     obind (get_el_size s) (\<lambda>(str_size, s1).
       if str_size = ERR_ARRAY_OVERFLOW \<or> str_size = ERR_INV_CHAR then Ret (None, s1)
       else if str_size = 0 then
         finish_bulk_str [] 0 s1
       else if str_size = -1 then
         obind (new_bulk_str None (-1)) (\<lambda>nd. Ret (Some nd, s1))
       else if str_size > PROTO_MAX_BULK_SIZE then Ret (None, s1)
       else if str_size < 0 then Ret (None, s1)
       else
         obind (read_exact_bytes (nat str_size) s1) (\<lambda>(r, buf, s2).
           if r \<noteq> 1 then Ret (None, s2) else finish_bulk_str buf str_size s2))"

section \<open>Arrays\<close>

text \<open>\<^verbatim>\<open>delete_array\<close> on a chain of nodes: how many heap blocks it frees. A bulk string gives back its
  three blocks; an array gives back its content and its \<^verbatim>\<open>BaseNode\<close>. (The backward walk that
  \<^verbatim>\<open>lp_bck\<close> asks for ends at the enclosing array, which the callers below pass directly.)\<close>

fun delete_node :: "node \<Rightarrow> nat outcome"
  and delete_array :: "node list \<Rightarrow> nat outcome" where
  "delete_node (BulkStringNode c sz) = Ret (if c = None then 2 else 3)"
| "delete_node (ArrayNode ns sz) = obind (delete_array ns) (\<lambda>n. Ret (n + 1))"
| "delete_node (BaseNode d) = UB"
| "delete_array [] = Ret 0"
| "delete_array (nd # ns) = obind (delete_node nd) (\<lambda>n. obind (delete_array ns) (\<lambda>m. Ret (n + m)))"

text \<open>The elements read so far are freed together with the array that links them, if there is one.\<close>

definition discard :: "node list \<Rightarrow> int \<Rightarrow> sock \<Rightarrow> (node option \<times> sock) outcome" where
  "discard acc arr_size s =
     (if acc = [] then Ret (None, s)
      else obind (delete_array [new_array acc arr_size]) (\<lambda>_. Ret (None, s)))"

text \<open>\<^verbatim>\<open>lexer\<close> and its element loop. For a type byte other than \<^verbatim>\<open>$\<close> and \<^verbatim>\<open>*\<close> the loop tests
  \<^verbatim>\<open>current\<close> without having assigned it.\<close>

fun lexer_fuel :: "nat \<Rightarrow> sock \<Rightarrow> (node option \<times> sock) outcome"
  and lexer_loop :: "nat \<Rightarrow> int \<Rightarrow> nat \<Rightarrow> node list \<Rightarrow> sock \<Rightarrow> (node option \<times> sock) outcome" where
  "lexer_fuel f s =
     obind (get_el_size s) (\<lambda>(arr_size, s1).
       if arr_size = -2 then Ret (None, s1)
       else if arr_size = -1 then Ret (Some (new_array [BaseNode NILL_ARRAY] 1), s1)
       else if arr_size = 0 then Ret (Some (new_array [BaseNode EMPTY_ARRAY] 1), s1)
       else lexer_loop f arr_size 0 [] s1)"
| "lexer_loop 0 arr_size inserted_el acc s = OutOfFuel"
| "lexer_loop (Suc f) arr_size inserted_el acc s =
     (if inserted_el < unat (word_of_int arr_size :: uint) then
        obind (read_exact_bytes 1 s) (\<lambda>(r, bs, s1).
          if r \<noteq> 1 then discard acc arr_size s1
          else if bs = ''$'' then
            obind (lex_bulk_str s1) (\<lambda>(cur, s2).
              case cur of
                None \<Rightarrow> discard acc arr_size s2
              | Some nd \<Rightarrow> lexer_loop f arr_size (inserted_el + 1) (acc @ [nd]) s2)
          else if bs = ''*'' then
            obind (lexer_fuel f s1) (\<lambda>(cur, s2).
              case cur of
                None \<Rightarrow> discard acc arr_size s2
              | Some nd \<Rightarrow> lexer_loop f arr_size (inserted_el + 1) (acc @ [nd]) s2)
          else UB)
      else Ret (Some (new_array acc arr_size), s))"

text \<open>One unit of fuel per element read; each element takes at least one receive event.\<close>

definition lexer :: "sock \<Rightarrow> (node option \<times> sock) outcome" where
  "lexer s = lexer_fuel (Suc (length (rx s))) s"

text \<open>\<^verbatim>\<open>print_array\<close>: only whether the walk is defined matters.\<close>

fun print_node :: "node \<Rightarrow> unit outcome"
  and print_array :: "node list \<Rightarrow> unit outcome" where
  "print_node (BulkStringNode c sz) = Ret ()"
| "print_node (ArrayNode ns sz) = print_array ns"
| "print_node (BaseNode d) = UB"
| "print_array [] = Ret ()"
| "print_array (nd # ns) = obind (print_node nd) (\<lambda>_. print_array ns)"

section \<open>Reading sizes\<close>

lemma buf_put_snoc: "length buf < MAX_ARRAY_SIZE \<Longrightarrow> buf_put buf (length buf) c = Ret (buf @ [c])"
  by (simp add: buf_put_def)

lemma buf_at_snoc [simp]: "buf_at (buf @ [c]) (length buf) = Ret c"
  by (simp add: buf_at_def)

lemma buf_put_last:
  "length buf < MAX_ARRAY_SIZE \<Longrightarrow> buf_put (buf @ [c]) (length buf) d = Ret (buf @ [d])"
  by (simp add: buf_put_def)

text \<open>The digit state reads the rest of the digits and the line terminator.\<close>

lemma el_loop_crlf:
  assumes "length buf < MAX_ARRAY_SIZE"
  shows "el_loop DIGIT_STATE buf (length buf) neg (rx_bytes CRLF @ evs) =
    Ret (uint_to_int (if neg then (- 1) * string_to_uint buf else string_to_uint buf), evs)"
  using assms
  by (subst el_loop.simps, subst el_loop.simps)
    (simp add: el_recv_def buf_put_snoc buf_put_last string_to_uint_def cstr_def takeWhile_tail)

lemma el_loop_digits:
  assumes "\<forall>c\<in>set ds. is_digit c" "length buf + length ds \<le> MAX_ARRAY_SIZE"
  shows "el_loop DIGIT_STATE buf (length buf) neg (rx_bytes ds @ evs) =
    el_loop DIGIT_STATE (buf @ ds) (length (buf @ ds)) neg evs"
  using assms
proof (induction ds arbitrary: buf)
  case (Cons c ds)
  have "el_loop DIGIT_STATE buf (length buf) neg (rx_bytes (c # ds) @ evs) =
    el_loop DIGIT_STATE (buf @ [c]) (length (buf @ [c])) neg (rx_bytes ds @ evs)"
    using Cons.prems by (subst el_loop.simps) (simp add: el_recv_def buf_put_snoc)
  also have "\<dots> = el_loop DIGIT_STATE ((buf @ [c]) @ ds) (length ((buf @ [c]) @ ds)) neg evs"
    by (rule Cons.IH) (use Cons.prems in simp_all)
  finally show ?case by simp
qed simp

lemma el_loop_start:
  assumes "is_digit c"
  shows "el_loop START_STATE [] 0 False (RxByte c # evs) = el_loop DIGIT_STATE [c] 1 False evs"
  using assms by (subst el_loop.simps) (simp add: el_recv_def buf_put_def buf_at_def MAX_ARRAY_SIZE_def)

lemma el_loop_number:
  assumes "\<forall>c\<in>set ds. is_digit c" "ds \<noteq> []" "length ds < MAX_ARRAY_SIZE"
  shows "el_loop START_STATE [] 0 False (rx_bytes (ds @ CRLF) @ evs) =
    Ret (uint_to_int (of_nat (digits_val ds)), evs)"
proof -
  obtain c cs where ds: "ds = c # cs" using assms(2) by (cases ds) auto
  have "el_loop START_STATE [] 0 False (rx_bytes (ds @ CRLF) @ evs) =
    el_loop DIGIT_STATE [c] (length [c]) False (rx_bytes cs @ rx_bytes CRLF @ evs)"
    using assms(1) by (simp add: ds el_loop_start)
  also have "\<dots> = el_loop DIGIT_STATE ds (length ds) False (rx_bytes CRLF @ evs)"
    using el_loop_digits [of cs "[c]" False "rx_bytes CRLF @ evs"] assms by (simp add: ds)
  also have "\<dots> = Ret (uint_to_int (of_nat (digits_val ds)), evs)"
    using el_loop_crlf [OF assms(3), of False evs] string_to_uint_digits [OF assms(1)] by simp
  finally show ?thesis .
qed

lemma get_el_size_number:
  assumes "\<forall>c\<in>set ds. is_digit c" "ds \<noteq> []" "length ds < MAX_ARRAY_SIZE"
    "rx s = rx_bytes (ds @ CRLF) @ evs"
  shows "get_el_size s = Ret (uint_to_int (of_nat (digits_val ds)), s\<lparr>rx := evs\<rparr>)"
  using el_loop_number [OF assms(1-3), of evs] assms(4) by (simp add: get_el_size_def)

lemma get_el_size_dec:
  assumes "n < 2 ^ 31" "rx s = rx_bytes (dec_nat n @ CRLF) @ evs"
  shows "get_el_size s = Ret (int n, s\<lparr>rx := evs\<rparr>)"
proof -
  have "n < 10 ^ Suc 9" using assms(1) by simp
  then have "length (dec_nat n) < MAX_ARRAY_SIZE"
    using dec_nat_length_le [of n 9] by (simp add: MAX_ARRAY_SIZE_def)
  with get_el_size_number [of "dec_nat n" s evs] assms uint_to_int_of_nat [OF assms(1)]
  show ?thesis using dec_nat_digits by simp
qed

text \<open>One turn of the loop.\<close>

lemma el_loop_turn:
  assumes "n \<le> MAX_ARRAY_SIZE" "el_recv buf n evs = Ret (Some buf')"
    "el_switch st buf' n neg = Ret turn"
  shows "el_loop st buf n neg evs =
    (case turn of
       ElReturn i \<Rightarrow> Ret (i, tl evs)
     | ElBreak buf'' \<Rightarrow>
         Ret (uint_to_int (if neg then (- 1) * string_to_uint buf'' else string_to_uint buf''), tl evs)
     | ElNext st' n' neg' \<Rightarrow> el_loop st' buf' n' neg' (tl evs))"
  using assms by (subst el_loop.simps) (simp add: not_less)

lemma el_loop_cases:
  assumes "n \<le> MAX_ARRAY_SIZE"
  obtains (recv_error) e r where "evs = RxErr e # r" "el_loop st buf n neg evs = Ret (ERR_INV_CHAR, r)"
  | (undefined) "el_loop st buf n neg evs = UB"
  | (turn) buf' turn where "el_recv buf n evs = Ret (Some buf')" "el_switch st buf' n neg = Ret turn"
proof -
  have nf: "el_switch st b n neg \<noteq> OutOfFuel" for b
    by (cases st) (auto simp: outcome_simps buf_at_def buf_put_def split: if_splits)
  show thesis
  proof (cases "el_recv buf n evs")
    case (Ret got)
    show thesis
    proof (cases got)
      case None
      then obtain e r where "evs = RxErr e # r"
        using Ret by (auto simp: el_recv_def outcome_simps split: list.splits rx_event.splits)
      with recv_error show thesis
        using assms by (subst (asm) el_loop.simps) (simp add: el_recv_def not_less)
    next
      case (Some buf')
      show thesis
        using undefined turn nf [of buf'] assms Ret Some
        by (cases "el_switch st buf' n neg") (auto simp: el_loop.simps [of st buf n neg evs])
    qed
  next
    case UB
    with undefined assms show thesis by (simp add: el_loop.simps [of st buf n neg evs])
  next
    case OutOfFuel
    then show thesis
      by (auto simp: el_recv_def outcome_simps buf_put_def split: list.splits rx_event.splits if_splits)
  qed
qed

text \<open>The reader consumes input, never runs out of fuel, and returns a value of type \<^verbatim>\<open>int\<close>.\<close>

lemma el_switch_return: "el_switch st buf n neg = Ret (ElReturn i) \<Longrightarrow> i = ERR_INV_CHAR"
  by (cases st) (auto simp: outcome_simps split: if_splits)

lemma err_range [simp]: "ERR_INV_CHAR \<in> range uint_to_int" "ERR_ARRAY_OVERFLOW \<in> range uint_to_int"
proof -
  have "uint_to_int (- 2) = - 2" by (simp add: uint_to_int_def)
  then show "ERR_INV_CHAR \<in> range uint_to_int" "ERR_ARRAY_OVERFLOW \<in> range uint_to_int"
    unfolding ERR_INV_CHAR_def ERR_ARRAY_OVERFLOW_def by (metis rangeI)+
qed

lemma el_loop_consumes:
  "el_loop st buf n neg evs \<noteq> OutOfFuel \<and>
   (el_loop st buf n neg evs = Ret (i, evs') \<longrightarrow>
      length evs' \<le> length evs \<and> i \<in> range uint_to_int)"
proof (induction st buf n neg evs rule: el_loop.induct)
  case (1 st buf n neg evs)
  show ?case
  proof (cases "MAX_ARRAY_SIZE < n")
    case True
    then show ?thesis by (simp add: el_loop.simps [of st buf n neg evs])
  next
    case False
    then have n: "n \<le> MAX_ARRAY_SIZE" by simp
    from n show ?thesis
    proof (cases rule: el_loop_cases [where evs = evs and st = st and buf = buf and neg = neg])
      case (turn buf' turn)
      note eq = el_loop_turn [OF n turn]
      show ?thesis
      proof (cases turn)
        case (ElNext st' n' neg')
        from "1.IH" [OF False turn(1) refl turn(2) ElNext] show ?thesis
          by (auto simp: eq ElNext)
      qed (use turn(2) in \<open>auto simp: eq dest: el_switch_return\<close>)
    qed auto
  qed
qed

lemma get_el_size_not_fuel [simp]: "get_el_size s \<noteq> OutOfFuel"
  using el_loop_consumes by (auto simp: get_el_size_def outcome_simps)

subsection \<open>A reference parser for size lines\<close>

fun rx_digit :: "rx_event \<Rightarrow> bool" where
  "rx_digit (RxByte c) = is_digit c"
| "rx_digit (RxErr e) = False"

fun rx_char :: "rx_event \<Rightarrow> char" where
  "rx_char (RxByte c) = c"
| "rx_char (RxErr e) = NUL"

definition starts_with :: "string \<Rightarrow> rx_event list \<Rightarrow> bool" where
  "starts_with p evs \<longleftrightarrow> take (length p) evs = rx_bytes p"

text \<open>A size line is a non-empty run of digits, or \<^verbatim>\<open>-1\<close>, followed by CR LF.\<close>

definition size_line :: "rx_event list \<Rightarrow> (int \<times> rx_event list) option" where
  "size_line evs =
     (let ds = takeWhile rx_digit evs; r = dropWhile rx_digit evs in
      if ds \<noteq> [] \<and> starts_with CRLF r
      then Some (uint_to_int (of_nat (digits_val (map rx_char ds))), drop 2 r)
      else if starts_with (''-1'' @ CRLF) evs then Some (-1, drop 4 evs)
      else None)"

lemma starts_with_CRLF:
  "starts_with CRLF evs \<longleftrightarrow> (\<exists>r. evs = RxByte CR # RxByte LF # r)"
  by (cases evs; cases "tl evs") (auto simp: starts_with_def)

lemma takeWhile_digit_bytes:
  "rx_bytes (map rx_char (takeWhile rx_digit evs)) = takeWhile rx_digit evs"
proof (induction evs)
  case (Cons e evs)
  then show ?case by (cases e) auto
qed simp

lemma takeWhile_digit_chars: "\<forall>c\<in>set (map rx_char (takeWhile rx_digit evs)). is_digit c"
proof
  fix c assume "c \<in> set (map rx_char (takeWhile rx_digit evs))"
  then obtain e where e: "e \<in> set (takeWhile rx_digit evs)" "c = rx_char e" by auto
  from set_takeWhileD [OF e(1)] e(2) show "is_digit c" by (cases e) auto
qed

text \<open>After the digits, anything but CR LF is refused; the end of the input too.\<close>

lemma el_loop_end_state:
  assumes "length buf < MAX_ARRAY_SIZE" "\<not> starts_with [LF] evs"
  shows "\<exists>evs'. el_loop END_STATE (buf @ [CR]) (length buf) neg evs = Ret (ERR_INV_CHAR, evs')"
proof (cases evs)
  case Nil
  then show ?thesis using assms(1) by (subst el_loop.simps) (simp add: el_recv_def)
next
  case (Cons e r)
  show ?thesis
  proof (cases e)
    case (RxByte c)
    with Cons assms have "c \<noteq> LF" by (simp add: starts_with_def)
    then show ?thesis
      using assms(1) Cons RxByte
      by (subst el_loop.simps) (simp add: el_recv_def buf_put_last)
  next
    case (RxErr err)
    then show ?thesis using assms(1) Cons by (subst el_loop.simps) (simp add: el_recv_def)
  qed
qed

lemma el_loop_digit_state:
  assumes "length buf < MAX_ARRAY_SIZE" "\<not> starts_with CRLF evs" "evs = [] \<or> \<not> rx_digit (hd evs)"
  shows "\<exists>evs'. el_loop DIGIT_STATE buf (length buf) neg evs = Ret (ERR_INV_CHAR, evs')"
proof (cases evs)
  case Nil
  then show ?thesis
    using assms(1) by (subst el_loop.simps) (simp add: el_recv_def buf_at_def)
next
  case (Cons e r)
  show ?thesis
  proof (cases e)
    case (RxByte c)
    show ?thesis
    proof (cases "c = CR")
      case True
      with Cons RxByte assms(2) have "\<not> starts_with [LF] r" by (simp add: starts_with_def)
      from el_loop_end_state [OF assms(1) this] show ?thesis
        using assms(1) Cons RxByte True
        by (subst el_loop.simps) (simp add: el_recv_def buf_put_snoc)
    next
      case False
      with assms(1,3) Cons RxByte show ?thesis
        by (subst el_loop.simps) (simp add: el_recv_def buf_put_snoc)
    qed
  next
    case (RxErr err)
    then show ?thesis using assms(1) Cons by (subst el_loop.simps) (simp add: el_recv_def)
  qed
qed

lemma el_loop_neg_state_II:
  assumes "\<not> starts_with CRLF evs"
  shows "\<exists>evs'. el_loop NEG_DIGIT_STATE_II ''1'' 1 True evs = Ret (ERR_INV_CHAR, evs')"
proof (cases evs)
  case Nil
  then show ?thesis
    by (subst el_loop.simps) (simp add: el_recv_def buf_at_def MAX_ARRAY_SIZE_def)
next
  case (Cons e r)
  show ?thesis
  proof (cases "e = RxByte CR")
    case True
    with Cons assms have "\<not> starts_with [LF] r" by (simp add: starts_with_def)
    with el_loop_end_state [of "''1''" r True] Cons True show ?thesis
      by (subst el_loop.simps) (simp add: el_recv_def buf_put_def buf_at_def MAX_ARRAY_SIZE_def)
  next
    case False
    with Cons show ?thesis
      by (cases e; subst el_loop.simps)
        (simp_all add: el_recv_def buf_put_def buf_at_def MAX_ARRAY_SIZE_def)
  qed
qed

lemma el_loop_neg:
  "\<exists>evs'. el_loop NEG_DIGIT_STATE_I ''-'' 0 True evs =
    Ret (if starts_with (''1'' @ CRLF) evs then (-1, drop 3 evs) else (ERR_INV_CHAR, evs'))"
proof (cases evs)
  case Nil
  then show ?thesis
    by (subst el_loop.simps)
      (simp add: el_recv_def buf_at_def starts_with_def MAX_ARRAY_SIZE_def)
next
  case (Cons e r)
  show ?thesis
  proof (cases "e = RxByte CHR ''1''")
    case True
    have one: "el_loop NEG_DIGIT_STATE_I ''-'' 0 True evs = el_loop NEG_DIGIT_STATE_II ''1'' 1 True r"
      using Cons True
      by (subst el_loop.simps) (simp add: el_recv_def buf_put_def buf_at_def MAX_ARRAY_SIZE_def)
    show ?thesis
    proof (cases "starts_with CRLF r")
      case True
      then obtain r' where "r = RxByte CR # RxByte LF # r'" by (auto simp: starts_with_CRLF)
      then have "el_loop NEG_DIGIT_STATE_II ''1'' 1 True r = Ret (-1, r')"
        by (subst el_loop.simps, subst el_loop.simps)
          (simp add: el_recv_def buf_put_def buf_at_def MAX_ARRAY_SIZE_def string_to_uint_def
            cstr_def char_int_def uint_to_int_def)
      then show ?thesis
        using one True Cons \<open>e = RxByte CHR ''1''\<close> \<open>r = RxByte CR # RxByte LF # r'\<close>
        by (simp add: starts_with_def)
    next
      case False
      with el_loop_neg_state_II [OF False] one Cons \<open>e = RxByte CHR ''1''\<close> show ?thesis
        by (simp add: starts_with_def)
    qed
  next
    case False
    with Cons show ?thesis
      by (cases e; subst el_loop.simps)
        (simp_all add: el_recv_def buf_put_def buf_at_def MAX_ARRAY_SIZE_def starts_with_def)
  qed
qed

lemma size_line_minus:
  "size_line (RxByte CHR ''-'' # evs) =
    (if starts_with (''1'' @ CRLF) evs then Some (-1, drop 3 evs) else None)"
  by (simp add: size_line_def starts_with_def)

text \<open>The element loop agrees with the reference on every input whose run of digits fits the buffer.\<close>

lemma el_loop_size_line:
  assumes "length (takeWhile rx_digit evs) < MAX_ARRAY_SIZE"
  shows "\<exists>evs'. el_loop START_STATE [] 0 False evs =
    Ret (case size_line evs of Some vr \<Rightarrow> vr | None \<Rightarrow> (ERR_INV_CHAR, evs'))"
proof (cases "takeWhile rx_digit evs = []")
  case False
  define ds where "ds = map rx_char (takeWhile rx_digit evs)"
  define r where "r = dropWhile rx_digit evs"
  have evs: "evs = rx_bytes ds @ r"
    by (simp only: ds_def r_def takeWhile_digit_bytes takeWhile_dropWhile_id)
  have dg: "\<forall>c\<in>set ds. is_digit c" unfolding ds_def by (rule takeWhile_digit_chars)
  have ne: "ds \<noteq> []" and len: "length ds < MAX_ARRAY_SIZE" using False assms by (simp_all add: ds_def)
  have minus: "\<not> starts_with (''-1'' @ CRLF) evs"
    using evs ne dg by (cases ds) (auto simp: starts_with_def)
  have sl: "size_line evs = (if starts_with CRLF r
      then Some (uint_to_int (of_nat (digits_val ds)), drop 2 r) else None)"
    using False minus by (simp add: size_line_def Let_def ds_def r_def)
  show ?thesis
  proof (cases "starts_with CRLF r")
    case True
    then obtain r' where r': "r = rx_bytes CRLF @ r'" by (auto simp: starts_with_CRLF)
    show ?thesis using el_loop_number [OF dg ne len, of r'] sl True evs r' by simp
  next
    case nc: False
    have hd: "r = [] \<or> \<not> rx_digit (hd r)"
      unfolding r_def by (metis hd_dropWhile)
    obtain c cs where c: "ds = c # cs" using ne by (cases ds) auto
    have "el_loop START_STATE [] 0 False evs = el_loop DIGIT_STATE [c] (length [c]) False (rx_bytes cs @ r)"
      using dg by (simp add: evs c el_loop_start)
    also have "\<dots> = el_loop DIGIT_STATE ds (length ds) False r"
      using el_loop_digits [of cs "[c]" False r] dg len by (simp add: c)
    finally show ?thesis using el_loop_digit_state [OF len nc hd, of False] sl nc by simp
  qed
next
  case True
  show ?thesis
  proof (cases evs)
    case Nil
    then show ?thesis
      by (subst el_loop.simps)
        (simp add: el_recv_def buf_at_def MAX_ARRAY_SIZE_def size_line_def starts_with_def)
  next
    case (Cons e r)
    with True have nd: "\<not> rx_digit e" by (auto split: if_splits)
    show ?thesis
    proof (cases "e = RxByte CHR ''-''")
      case minus: True
      have "el_loop START_STATE [] 0 False evs = el_loop NEG_DIGIT_STATE_I ''-'' 0 True r"
        using Cons minus
        by (subst el_loop.simps) (simp add: el_recv_def buf_put_def buf_at_def MAX_ARRAY_SIZE_def)
      then show ?thesis using el_loop_neg [of r] Cons minus by (auto simp: size_line_minus)
    next
      case False
      then have "size_line evs = None" using Cons True by (simp add: size_line_def starts_with_def)
      then show ?thesis
        using Cons nd False
        by (cases e; subst el_loop.simps)
          (simp_all add: el_recv_def buf_put_def buf_at_def MAX_ARRAY_SIZE_def)
    qed
  qed
qed

text \<open>A run of digits as long as the buffer makes the next byte land one past its end.\<close>

lemma el_loop_overflow:
  assumes "\<forall>c\<in>set ds. is_digit c" "length ds = MAX_ARRAY_SIZE"
  shows "el_loop START_STATE [] 0 False (rx_bytes ds @ RxByte b # evs) = UB"
proof -
  obtain c cs where c: "ds = c # cs" using assms(2) by (cases ds) (auto simp: MAX_ARRAY_SIZE_def)
  have "el_loop START_STATE [] 0 False (rx_bytes ds @ RxByte b # evs) =
    el_loop DIGIT_STATE [c] (length [c]) False (rx_bytes cs @ RxByte b # evs)"
    using assms(1) by (simp add: c el_loop_start)
  also have "\<dots> = el_loop DIGIT_STATE ds (length ds) False (RxByte b # evs)"
    using el_loop_digits [of cs "[c]" False "RxByte b # evs"] assms by (simp add: c)
  also have "\<dots> = UB"
    using assms(2) by (subst el_loop.simps) (simp add: el_recv_def buf_put_def)
  finally show ?thesis .
qed

section \<open>Termination and well-formed trees\<close>

text \<open>What the lexer builds: bulk strings whose recorded size is their length, and arrays with as many
  elements as announced; the only \<open>BaseNode\<close>s are the contents of nil and empty arrays.\<close>

fun node_wf :: "node \<Rightarrow> bool" where
  "node_wf (BulkStringNode c sz) =
     (case c of None \<Rightarrow> False | Some b \<Rightarrow> sz = int (length b) \<and> sz \<le> PROTO_MAX_BULK_SIZE)"
| "node_wf (ArrayNode ns sz) =
     ((ns = [BaseNode NILL_ARRAY] \<or> ns = [BaseNode EMPTY_ARRAY]) \<and> sz = 1 \<or>
      ns \<noteq> [] \<and> length ns = unat (word_of_int sz :: uint) \<and> (\<forall>nd\<in>set ns. node_wf nd))"
| "node_wf (BaseNode d) = False"

definition lexed :: "sock \<Rightarrow> node option \<times> sock \<Rightarrow> bool" where
  "lexed s r \<longleftrightarrow> length (rx (snd r)) \<le> length (rx s) \<and> (\<forall>nd. fst r = Some nd \<longrightarrow> node_wf nd)"

lemma lexed_trans: "lexed s1 r \<Longrightarrow> length (rx s1) \<le> length (rx s) \<Longrightarrow> lexed s r"
  by (auto simp: lexed_def)

lemma lexed_None [simp]: "length (rx s1) \<le> length (rx s) \<Longrightarrow> lexed s (None, s1)"
  by (simp add: lexed_def)

lemma wp_get_el_size:
  "wp (get_el_size s) (\<lambda>(i, s'). length (rx s') \<le> length (rx s) \<and> i \<in> range uint_to_int)"
  by (rule wpI) (use el_loop_consumes in \<open>auto simp: get_el_size_def outcome_simps\<close>)

lemma range_uint_to_int_pos:
  assumes "i \<in> range uint_to_int" "i \<noteq> 0"
  shows "0 < unat (word_of_int i :: uint)"
proof -
  obtain w where w: "i = uint_to_int w" using assms(1) by blast
  then have "word_of_int i = w" by (simp add: uint_to_int_def)
  moreover have "w \<noteq> 0" using w assms(2) by (auto simp: uint_to_int_def)
  ultimately show ?thesis by (simp add: unat_gt_0)
qed

lemma wp_is_valid_terminator:
  "wp (is_valid_terminator s) (\<lambda>(b, s'). length (rx s') \<le> length (rx s))"
proof -
  have "wp (read_exact_bytes 1 s1) (\<lambda>(r', bs', s2). length (rx s2) \<le> length (rx s))"
    if "length (rx s1) \<le> length (rx s)" for s1
    using that by (auto simp: took_def intro!: wp_mono [OF wp_read_exact])
  then show ?thesis
    unfolding is_valid_terminator_def
    by (auto simp: took_def intro!: wp_mono [OF wp_read_exact])
qed

lemma wp_new_bulk_str:
  "0 \<le> sz \<Longrightarrow> sz = int (length b) \<Longrightarrow> sz \<le> PROTO_MAX_BULK_SIZE \<Longrightarrow>
    wp (new_bulk_str (Some b) sz) node_wf"
  by (simp add: new_bulk_str_def)

lemma wp_finish_bulk_str:
  assumes "length (rx s1) \<le> length (rx s)" "sz = int (length b)" "sz \<le> PROTO_MAX_BULK_SIZE"
  shows "wp (finish_bulk_str b sz s1) (lexed s)"
  unfolding finish_bulk_str_def wp_obind
  by (rule wp_mono [OF wp_is_valid_terminator])
    (use assms in \<open>auto simp: lexed_def intro!: wp_mono [OF wp_new_bulk_str]\<close>)

lemma wp_lex_bulk_str: "wp (lex_bulk_str s) (lexed s)"
proof -
  have bulk: "wp (obind (read_exact_bytes (nat n) s1) (\<lambda>(r, buf, s2).
      if r \<noteq> 1 then Ret (None, s2) else finish_bulk_str buf n s2)) (lexed s)"
    if "length (rx s1) \<le> length (rx s)" "0 \<le> n" "n \<le> PROTO_MAX_BULK_SIZE" for s1 n
    unfolding wp_obind
    by (rule wp_mono [OF wp_read_exact])
      (use that in \<open>auto simp: took_def intro!: wp_finish_bulk_str\<close>)
  show ?thesis
    unfolding lex_bulk_str_def wp_obind
    by (rule wp_mono [OF wp_get_el_size])
      (auto simp: new_bulk_str_def PROTO_MAX_BULK_SIZE_def simp del: wp_obind
        intro!: wp_finish_bulk_str bulk)
qed

lemma delete_not_fuel [simp]: "delete_node nd \<noteq> OutOfFuel" "delete_array ns \<noteq> OutOfFuel"
  by (induction nd and ns rule: delete_node_delete_array.induct) (auto simp: outcome_simps)

lemma wp_discard: "length (rx s1) \<le> length (rx s) \<Longrightarrow> wp (discard acc n s1) (lexed s)"
  by (auto simp: discard_def simp del: wp_obind intro!: wpI simp: outcome_simps)

text \<open>Both lexer functions, by induction on the fuel: more fuel than receive events is enough.\<close>

lemma wp_lexer_both:
  "length (rx s) < f \<Longrightarrow> wp (lexer_fuel f s) (lexed s)"
  "length (rx s) < f \<Longrightarrow> k = length acc \<Longrightarrow> k \<le> unat (word_of_int n :: uint) \<Longrightarrow>
     0 < unat (word_of_int n :: uint) \<Longrightarrow> \<forall>nd\<in>set acc. node_wf nd \<Longrightarrow>
     wp (lexer_loop f n k acc s) (lexed s)"
proof (induction f arbitrary: s n k acc)
  case 0
  { case 1 then show ?case by simp
  next
    case 2 then show ?case by simp }
next
  case (Suc f)
  have loop: "wp (lexer_loop (Suc f) n k acc s) (lexed s)"
    if "length (rx s) < Suc f" "k = length acc" "k \<le> unat (word_of_int n :: uint)"
      "0 < unat (word_of_int n :: uint)" "\<forall>nd\<in>set acc. node_wf nd" for s n k acc
  proof -
    have cont: "wp (case cur of None \<Rightarrow> discard acc n s2
        | Some nd \<Rightarrow> lexer_loop f n (k + 1) (acc @ [nd]) s2) (lexed s)"
      if "lexed s1 (cur, s2)" "length (rx s1) < length (rx s)" "k < unat (word_of_int n :: uint)"
      for cur s1 s2
    proof (cases cur)
      case None
      with that show ?thesis by (auto simp: lexed_def intro: wp_discard)
    next
      case (Some nd)
      with that \<open>length (rx s) < Suc f\<close> \<open>k = length acc\<close> \<open>\<forall>nd\<in>set acc. node_wf nd\<close>
      have "wp (lexer_loop f n (k + 1) (acc @ [nd]) s2) (lexed s2)"
        by (intro Suc.IH(2)) (auto simp: lexed_def)
      with Some that show ?thesis
        by (auto simp: lexed_def elim!: wp_mono)
    qed
    have elem: "wp (obind (lex_bulk_str s1) (\<lambda>(cur, s2). case cur of None \<Rightarrow> discard acc n s2
          | Some nd \<Rightarrow> lexer_loop f n (k + 1) (acc @ [nd]) s2)) (lexed s)"
      "wp (obind (lexer_fuel f s1) (\<lambda>(cur, s2). case cur of None \<Rightarrow> discard acc n s2
          | Some nd \<Rightarrow> lexer_loop f n (k + 1) (acc @ [nd]) s2)) (lexed s)"
      if "length (rx s1) < length (rx s)" "k < unat (word_of_int n :: uint)" for s1
    proof -
      from that(1) \<open>length (rx s) < Suc f\<close> have "wp (lexer_fuel f s1) (lexed s1)"
        by (intro Suc.IH(1)) simp
      then show "wp (obind (lexer_fuel f s1) (\<lambda>(cur, s2). case cur of None \<Rightarrow> discard acc n s2
          | Some nd \<Rightarrow> lexer_loop f n (k + 1) (acc @ [nd]) s2)) (lexed s)"
        unfolding wp_obind by (rule wp_mono) (use cont that in auto)
      show "wp (obind (lex_bulk_str s1) (\<lambda>(cur, s2). case cur of None \<Rightarrow> discard acc n s2
          | Some nd \<Rightarrow> lexer_loop f n (k + 1) (acc @ [nd]) s2)) (lexed s)"
        unfolding wp_obind by (rule wp_mono [OF wp_lex_bulk_str]) (use cont that in auto)
    qed
    show ?thesis
    proof (cases "k < unat (word_of_int n :: uint)")
      case True
      show ?thesis
        unfolding lexer_loop.simps if_P [OF True] wp_obind [of "read_exact_bytes 1 s"]
        by (rule wp_mono [OF wp_read_exact])
          (auto simp: took_def simp del: wp_obind lexer_fuel.simps intro!: elem wp_discard True)
    next
      case False
      with that show ?thesis by (auto simp: lexed_def new_array_def)
    qed
  qed
  { case 1
    show ?case
      unfolding lexer_fuel.simps wp_obind
      by (rule wp_mono [OF wp_get_el_size])
        (use 1 in \<open>auto simp: lexed_def new_array_def simp del: lexer_loop.simps
          intro!: wp_mono [OF loop] range_uint_to_int_pos\<close>)
  next
    case 2
    then show ?case by (rule loop) }
qed

lemma wp_lexer: "wp (lexer s) (lexed s)"
  unfolding lexer_def by (rule wp_lexer_both) simp

section \<open>Round trip\<close>

text \<open>The RESP text of a tree, and the trees that a client can send.\<close>

fun resp :: "node \<Rightarrow> string" where
  "resp (BulkStringNode c sz) = ''$'' @ dec_int sz @ CRLF @ (case c of None \<Rightarrow> [] | Some b \<Rightarrow> b @ CRLF)"
| "resp (ArrayNode ns sz) = ''*'' @ dec_int sz @ CRLF @ concat (map resp ns)"
| "resp (BaseNode d) = []"

fun plain :: "node \<Rightarrow> bool" where
  "plain (BulkStringNode c sz) =
     (case c of None \<Rightarrow> False | Some b \<Rightarrow> sz = int (length b) \<and> sz \<le> PROTO_MAX_BULK_SIZE)"
| "plain (ArrayNode ns sz) =
     (ns \<noteq> [] \<and> sz = int (length ns) \<and> sz \<le> INT_MAX \<and> (\<forall>nd\<in>set ns. plain nd))"
| "plain (BaseNode d) = False"

lemma is_valid_terminator_ok:
  "rx s = rx_bytes CRLF @ evs \<Longrightarrow> is_valid_terminator s = Ret (True, s\<lparr>rx := evs\<rparr>)"
  by (simp add: is_valid_terminator_def)

lemma finish_bulk_str_ok:
  "rx s = rx_bytes CRLF @ evs \<Longrightarrow>
    finish_bulk_str b (int (length b)) s = Ret (Some (BulkStringNode (Some b) (int (length b))), s\<lparr>rx := evs\<rparr>)"
  by (simp add: finish_bulk_str_def is_valid_terminator_ok new_bulk_str_def)

lemma lex_bulk_str_ok:
  assumes "int (length b) \<le> PROTO_MAX_BULK_SIZE"
    "rx s = rx_bytes (dec_nat (length b) @ CRLF @ b @ CRLF) @ evs"
  shows "lex_bulk_str s = Ret (Some (BulkStringNode (Some b) (int (length b))), s\<lparr>rx := evs\<rparr>)"
proof -
  let ?s1 = "s\<lparr>rx := rx_bytes (b @ CRLF) @ evs\<rparr>"
  have sz: "get_el_size s = Ret (int (length b), ?s1)"
    using assms by (intro get_el_size_dec) (simp_all add: PROTO_MAX_BULK_SIZE_def)
  show ?thesis
  proof (cases "b = []")
    case True
    with sz finish_bulk_str_ok [of ?s1 evs "[]"] show ?thesis
      by (simp add: lex_bulk_str_def ERR_ARRAY_OVERFLOW_def ERR_INV_CHAR_def)
  next
    case False
    have "read_exact_bytes (length b) ?s1 = Ret (1, b, ?s1\<lparr>rx := rx_bytes CRLF @ evs\<rparr>)"
      by (rule read_exact_bytes_ok) (simp_all add: False)
    with sz False assms(1) finish_bulk_str_ok [of "?s1\<lparr>rx := rx_bytes CRLF @ evs\<rparr>" evs b]
    show ?thesis by (simp add: lex_bulk_str_def ERR_ARRAY_OVERFLOW_def ERR_INV_CHAR_def)
  qed
qed

text \<open>\<open>reads f nd\<close>: with fuel \<open>f\<close>, the reader chosen by the first byte of the text of \<open>nd\<close> turns the
  rest of that text back into \<open>nd\<close> and leaves what follows it.\<close>

definition reads :: "nat \<Rightarrow> node \<Rightarrow> bool" where
  "reads f nd \<longleftrightarrow> (\<forall>s evs. rx s = rx_bytes (tl (resp nd)) @ evs \<longrightarrow> length (rx s) < f \<longrightarrow>
     (case nd of
        BulkStringNode c sz \<Rightarrow> lex_bulk_str s = Ret (Some nd, s\<lparr>rx := evs\<rparr>)
      | ArrayNode ns sz \<Rightarrow> lexer_fuel f s = Ret (Some nd, s\<lparr>rx := evs\<rparr>)
      | BaseNode d \<Rightarrow> False))"

lemma plain_resp_hd:
  "plain nd \<Longrightarrow> \<exists>t. resp nd = (case nd of ArrayNode ns sz \<Rightarrow> CHR ''*'' | _ \<Rightarrow> CHR ''$'') # t"
  by (cases nd) auto

lemma lexer_loop_reads:
  assumes "\<forall>nd\<in>set ns. plain nd \<and> (\<forall>g<f. reads g nd)" "sz = int (length (acc @ ns))" "sz \<le> INT_MAX"
    "rx s = rx_bytes (concat (map resp ns)) @ evs" "length (rx s) < f"
  shows "lexer_loop f sz (length acc) acc s = Ret (Some (ArrayNode (acc @ ns) sz), s\<lparr>rx := evs\<rparr>)"
  using assms
proof (induction ns arbitrary: f acc s)
  case Nil
  then obtain g where "f = Suc g" by (cases f) auto
  moreover have "unat (word_of_int sz :: uint) = length acc"
    using Nil.prems(2,3) by (simp add: unat_of_nat)
  ultimately show ?case using Nil.prems by (simp add: new_array_def)
next
  case (Cons nd ns)
  obtain g where f: "f = Suc g" using Cons.prems(5) by (cases f) auto
  have pl: "plain nd" and rd: "reads g nd" using Cons.prems(1) f by auto
  have un: "unat (word_of_int sz :: uint) = length (acc @ nd # ns)"
    using Cons.prems(2,3) by (simp add: unat_of_nat del: of_nat_Suc)
  obtain t where t: "resp nd = (case nd of ArrayNode ns sz \<Rightarrow> CHR ''*'' | _ \<Rightarrow> CHR ''$'') # t"
    using plain_resp_hd [OF pl] by blast
  let ?s2 = "s\<lparr>rx := rx_bytes (concat (map resp ns)) @ evs\<rparr>"
  let ?s1 = "s\<lparr>rx := rx_bytes t @ rx_bytes (concat (map resp ns)) @ evs\<rparr>"
  have len: "length (rx ?s1) < g" "length (rx ?s2) < g"
    using Cons.prems(4,5) f t by auto
  have rest: "lexer_loop g sz (length acc + 1) (acc @ [nd]) ?s2 =
      Ret (Some (ArrayNode (acc @ nd # ns) sz), s\<lparr>rx := evs\<rparr>)"
    using Cons.IH [of g "acc @ [nd]" ?s2] Cons.prems len f by simp
  show ?case
  proof (cases nd)
    case (BulkStringNode c n)
    have "rx s = RxByte CHR ''$'' # rx ?s1"
      using Cons.prems(4) t BulkStringNode by (simp del: resp.simps)
    moreover have "lex_bulk_str ?s1 = Ret (Some nd, ?s2)"
      using rd len BulkStringNode t by (simp add: reads_def del: resp.simps)
    ultimately show ?thesis using un rest f by simp
  next
    case (ArrayNode ms n)
    have "rx s = RxByte CHR ''*'' # rx ?s1"
      using Cons.prems(4) t ArrayNode by (simp del: resp.simps)
    moreover have "lexer_fuel g ?s1 = Ret (Some nd, ?s2)"
      using rd len ArrayNode t by (simp add: reads_def del: lexer_fuel.simps resp.simps)
    ultimately show ?thesis using un rest f by (simp del: lexer_fuel.simps)
  next
    case (BaseNode d)
    with pl show ?thesis by simp
  qed
qed

lemma plain_reads: "plain nd \<Longrightarrow> reads f nd"
proof (induction nd arbitrary: f)
  case (BulkStringNode c sz)
  then show ?case
    by (auto simp: reads_def dec_int_def split: option.splits intro!: lex_bulk_str_ok)
next
  case (ArrayNode ns sz)
  show ?case
    unfolding reads_def node.case
  proof (intro allI impI)
    fix s :: sock and evs
    assume r: "rx s = rx_bytes (tl (resp (ArrayNode ns sz))) @ evs" and len: "length (rx s) < f"
    let ?s1 = "s\<lparr>rx := rx_bytes (concat (map resp ns)) @ evs\<rparr>"
    have sz: "sz = int (length ns)" "sz \<le> INT_MAX" "ns \<noteq> []" using ArrayNode.prems by auto
    have "get_el_size s = Ret (sz, ?s1)"
      using get_el_size_dec [of "length ns" s "rx_bytes (concat (map resp ns)) @ evs"] r sz
      by (simp add: dec_int_def)
    moreover have "lexer_loop f sz 0 [] ?s1 = Ret (Some (ArrayNode ns sz), s\<lparr>rx := evs\<rparr>)"
      using lexer_loop_reads [of ns f sz "[]" ?s1 evs] ArrayNode sz r len by simp
    ultimately show "lexer_fuel f s = Ret (Some (ArrayNode ns sz), s\<lparr>rx := evs\<rparr>)"
      using sz by simp
  qed
qed simp

section \<open>Properties\<close>

definition demo_sock :: "string \<Rightarrow> sock" where
  "demo_sock bs = \<lparr>rx = rx_bytes bs, slp = [], tx = [], sent = []\<rparr>"

text \<open>C9. Round trip: what the lexer makes of the RESP text of a command tree (arrays and bulk strings of
  any nesting, the leading \<^verbatim>\<open>*\<close> already read) is that tree, and what follows stays unread.\<close>

theorem lexer_round_trip:
  assumes "plain (ArrayNode ns n)" "rx s = rx_bytes (tl (resp (ArrayNode ns n))) @ evs"
  shows "lexer s = Ret (Some (ArrayNode ns n), s\<lparr>rx := evs\<rparr>)"
  using plain_reads [OF assms(1), of "Suc (length (rx s))"] assms(2)
  by (simp add: lexer_def reads_def del: lexer_fuel.simps resp.simps)

theorem lexer_round_trip_witness:
  "lexer (demo_sock (''2'' @ CRLF @ ''$3'' @ CRLF @ ''GET'' @ CRLF @ ''*1'' @ CRLF @ ''$0'' @ CRLF @ CRLF @ ''+'')) =
    Ret (Some (ArrayNode [BulkStringNode (Some ''GET'') 3, ArrayNode [BulkStringNode (Some []) 0] 1] 2),
         demo_sock ''+'')"
proof -
  have d: "dec_int 0 = ''0''" "dec_int 1 = ''1''" "dec_int 2 = ''2''" "dec_int 3 = ''3''"
    by code_simp+
  show ?thesis
    using lexer_round_trip [of "[BulkStringNode (Some ''GET'') 3, ArrayNode [BulkStringNode (Some []) 0] 1]" 2
        "demo_sock (''2'' @ CRLF @ ''$3'' @ CRLF @ ''GET'' @ CRLF @ ''*1'' @ CRLF @ ''$0'' @ CRLF @ CRLF @ ''+'')"
        "rx_bytes ''+''"]
    by (simp add: d demo_sock_def PROTO_MAX_BULK_SIZE_def)
qed

text \<open>C22. The lexer terminates on every input, whatever bytes and read errors arrive: it never needs more
  turns than there are receive events, it never reads backwards, and a tree it returns is well formed
  (recorded sizes are the real ones, within the limits).\<close>

theorem lexer_total:
  "lexer s \<noteq> OutOfFuel \<and>
   (lexer s = UB \<or> (\<exists>r s'. lexer s = Ret (r, s') \<and> length (rx s') \<le> length (rx s) \<and>
      (r = None \<or> (\<exists>nd. r = Some nd \<and> node_wf nd))))"
  using wp_lexer [of s] by (cases "lexer s") (auto simp: lexed_def)

text \<open>C30. The state machine for sizes computes the reference parser: digits then CR LF give the number
  modulo \<open>2 ^ 32\<close> read as an \<^verbatim>\<open>int\<close>, \<^verbatim>\<open>-1\<close> is accepted, and everything else is \<^verbatim>\<open>ERR_INV_CHAR\<close>, as long as
  the digits fit the buffer.\<close>

theorem get_el_size_reference:
  assumes "length (takeWhile rx_digit (rx s)) < MAX_ARRAY_SIZE"
  shows "\<exists>evs. get_el_size s =
    (case size_line (rx s) of
       Some (i, rest) \<Rightarrow> Ret (i, s\<lparr>rx := rest\<rparr>)
     | None \<Rightarrow> Ret (ERR_INV_CHAR, s\<lparr>rx := evs\<rparr>))"
proof -
  obtain evs where "el_loop START_STATE [] 0 False (rx s) =
      Ret (case size_line (rx s) of Some vr \<Rightarrow> vr | None \<Rightarrow> (ERR_INV_CHAR, evs))"
    using el_loop_size_line [OF assms] by blast
  then show ?thesis
    by (intro exI [of _ evs]) (auto simp: get_el_size_def split: option.splits)
qed

theorem get_el_size_reference_witness:
  "get_el_size (demo_sock (''4294967295'' @ CRLF)) = Ret (-1, demo_sock [])"
proof -
  have "uint_to_int 4294967295 = -1" by (simp add: uint_to_int_def)
  then show ?thesis
    using get_el_size_reference [of "demo_sock (''4294967295'' @ CRLF)"]
    by (simp add: demo_sock_def size_line_def starts_with_def is_digit_def digits_val_def digit_val_def
        MAX_ARRAY_SIZE_def)
qed

text \<open>C40. The size buffer can be overflowed by the peer: after \<^verbatim>\<open>MAX_ARRAY_SIZE\<close> digits the next byte is
  written one past the end of the buffer, because the bound is tested with \<^verbatim>\<open>>\<close>.\<close>

theorem get_el_size_overflow:
  assumes "\<forall>c\<in>set ds. is_digit c" "length ds = MAX_ARRAY_SIZE" "rx s = rx_bytes ds @ RxByte b # evs"
  shows "get_el_size s = UB"
  using el_loop_overflow [OF assms(1,2), of b evs] assms(3) by (simp add: get_el_size_def)

theorem get_el_size_overflow_witness:
  "get_el_size (demo_sock (replicate 8192 CHR ''1'' @ ''1'')) = UB"
  by (rule get_el_size_overflow [of "replicate 8192 CHR ''1''" _ "CHR ''1''" "[]"])
    (simp_all add: is_digit_def MAX_ARRAY_SIZE_def demo_sock_def)

text \<open>A null bulk string inside a command crashes the server: after \<^verbatim>\<open>$-1\<close> the constructor writes the
  terminating NUL through the NULL content.\<close>

lemma null_bulk_crashes:
  "rx s = rx_bytes (''-1'' @ CRLF) @ evs \<Longrightarrow> lex_bulk_str s = UB"
proof -
  assume rx: "rx s = rx_bytes (''-1'' @ CRLF) @ evs"
  have sl: "size_line (rx s) = Some (-1, evs)"
    unfolding rx by (simp add: size_line_def starts_with_def is_digit_def)
  have "length (takeWhile rx_digit (rx s)) < MAX_ARRAY_SIZE"
    unfolding rx by (simp add: is_digit_def MAX_ARRAY_SIZE_def)
  from el_loop_size_line [OF this] sl have "get_el_size s = Ret (-1, s\<lparr>rx := evs\<rparr>)"
    by (simp add: get_el_size_def)
  then show ?thesis by (simp add: lex_bulk_str_def new_bulk_str_def ERR_ARRAY_OVERFLOW_def ERR_INV_CHAR_def)
qed

text \<open>The nodes of a tree.\<close>

fun count_bulk :: "node \<Rightarrow> nat" where
  "count_bulk (BulkStringNode c sz) = 1"
| "count_bulk (ArrayNode ns sz) = sum_list (map count_bulk ns)"
| "count_bulk (BaseNode d) = 0"

fun count_array :: "node \<Rightarrow> nat" where
  "count_array (BulkStringNode c sz) = 0"
| "count_array (ArrayNode ns sz) = 1 + sum_list (map count_array ns)"
| "count_array (BaseNode d) = 0"

text \<open>The heap blocks that the lexer allocated for a tree: node, \<^verbatim>\<open>BaseNode\<close> and content of a bulk string,
  node and \<^verbatim>\<open>BaseNode\<close> of an array.\<close>

definition blocks :: "node \<Rightarrow> nat" where
  "blocks nd = 3 * count_bulk nd + 2 * count_array nd"

lemma delete_array_sum:
  "\<forall>nd\<in>set ns. delete_node nd = Ret (f nd) \<Longrightarrow> delete_array ns = Ret (sum_list (map f ns))"
  by (induction ns) auto

text \<open>\<^verbatim>\<open>delete_array\<close> runs to its end on every tree a client can send, and leaks exactly one block per
  array: the \<^verbatim>\<open>ArrayNode\<close> itself is never freed.\<close>

lemma delete_array_leaks:
  assumes "plain nd"
  shows "\<exists>n. delete_array [nd] = Ret n \<and> n + count_array nd = blocks nd"
proof -
  have "plain nd \<Longrightarrow> delete_node nd = Ret (3 * count_bulk nd + count_array nd)"
  proof (induction nd)
    case (ArrayNode ns sz)
    then have "delete_array ns = Ret (\<Sum>nd\<leftarrow>ns. 3 * count_bulk nd + count_array nd)"
      by (intro delete_array_sum) auto
    then show ?case by (simp add: sum_list_addf sum_list_const_mult)
  qed (auto split: option.splits)
  with assms show ?thesis by (simp add: blocks_def)
qed

lemma delete_array_leaks_witness:
  "\<exists>n. delete_array [ArrayNode [BulkStringNode (Some ''GET'') 3] 1] = Ret n \<and> n + 1 = (5 :: nat)"
  using delete_array_leaks [of "ArrayNode [BulkStringNode (Some ''GET'') 3] 1"]
  by (simp add: PROTO_MAX_BULK_SIZE_def blocks_def)

end
