(* ===== verification/Key_Value.thy ===== *)
theory Key_Value
  imports C_Float Protocol
begin

text \<open>
  The key and value nodes of \<^verbatim>\<open>src/src/cmd_handler.c\<close>: their construction from request nodes, the
  comparison callback of the data map, their RESP text, and the expiry test. \<open>env\<close> collects what the
  C library and the operating system answer while one command runs.
\<close>

section \<open>Data\<close>

record KeyNode =
  kn_content :: "string option"
  kn_input_time :: "timespec option"
  kn_ex :: uint
  kn_px :: uint
  kn_size :: int

record ValueNode =
  vn_content :: "string option"
  vn_dtype :: RedisDtype
  vn_size :: int

datatype kv_node = TYPE_KEY_NODE KeyNode | TYPE_VALUE_NODE ValueNode

type_synonym data_map = "(KeyNode, ValueNode) SimpleMap"
type_synonym data_pair = "(KeyNode, ValueNode) KeyValuePair"

text \<open>The clock reading of the command, the outcome of its memory requests, and \<^verbatim>\<open>fnmatch\<close>.\<close>

record env =
  env_now :: timespec
  env_alloc :: alloc
  env_fnmatch :: fnmatch_fn

section \<open>Construction\<close>

definition create_key_node :: "timespec \<Rightarrow> string option \<Rightarrow> uint \<Rightarrow> uint \<Rightarrow> int \<Rightarrow>
    KeyNode option outcome" where
  "create_key_node now content ex px sz =
     (case content of
        None \<Rightarrow> Ret None
      | Some b \<Rightarrow>
          if sz < 1 then Ret None
          else obind (memcpy_bytes b (nat sz)) (\<lambda>c.
            Ret (Some \<lparr>kn_content = Some c, kn_input_time = Some now,
                       kn_ex = ex, kn_px = px, kn_size = sz\<rparr>)))"

definition create_value_node_string :: "string option \<Rightarrow> RedisDtype \<Rightarrow> int \<Rightarrow>
    ValueNode option outcome" where
  "create_value_node_string content dtype sz =
     (case content of
        None \<Rightarrow> Ret None
      | Some b \<Rightarrow>
          if sz < 1 then Ret None
          else obind (memcpy_bytes b (nat sz)) (\<lambda>c.
            Ret (Some \<lparr>vn_content = Some c, vn_dtype = dtype, vn_size = sz\<rparr>)))"

text \<open>The type tag a \<^verbatim>\<open>GenericNode\<close> carries.\<close>

fun node_type :: "node \<Rightarrow> RedisDtype outcome" where
  "node_type (BulkStringNode c sz) = Ret BULK_STR"
| "node_type (ArrayNode ns sz) = Ret ARRAY"
| "node_type (BaseNode d) = UB"

definition create_value_node :: "node option \<Rightarrow> ValueNode option outcome" where
  "create_value_node gnode =
     (case gnode of
        None \<Rightarrow> Ret None
      | Some nd \<Rightarrow>
          obind (node_type nd) (\<lambda>t.
            case nd of
              BulkStringNode content sz \<Rightarrow> create_value_node_string content t sz
            | _ \<Rightarrow> Ret None))"

text \<open>\<^verbatim>\<open>clean_up_kv\<close>: the number of heap blocks it frees.\<close>

definition clean_up_kv :: "KeyNode option \<Rightarrow> ValueNode option \<Rightarrow> nat" where
  "clean_up_kv key value =
     (case key of
        None \<Rightarrow> 0
      | Some k \<Rightarrow> (if kn_content k = None then 0 else 1) +
                  (if kn_input_time k = None then 0 else 1) + 1) +
     (case value of
        None \<Rightarrow> 0
      | Some v \<Rightarrow> (if vn_dtype v = BULK_STR \<and> vn_content v \<noteq> None then 1 else 0) + 1)"

section \<open>Comparison\<close>

text \<open>Reading byte \<open>i\<close> of a NUL-terminated buffer.\<close>

definition str_at :: "string option \<Rightarrow> int \<Rightarrow> char outcome" where
  "str_at content i =
     (case content of
        None \<Rightarrow> UB
      | Some b \<Rightarrow> if 0 \<le> i \<and> i \<le> int (length b) then Ret ((b @ [NUL]) ! nat i) else UB)"

function compare_loop :: "KeyNode \<Rightarrow> KeyNode \<Rightarrow> int \<Rightarrow> bool outcome" where
  "compare_loop ka kb i =
     (if i < kn_size ka then
        obind (str_at (kn_content ka) i) (\<lambda>x. obind (str_at (kn_content kb) i) (\<lambda>y.
        if x \<noteq> y then Ret False else compare_loop ka kb (i + 1)))
      else Ret True)"
  by pat_completeness auto
termination
  by (relation "measure (\<lambda>(ka, kb, i). nat (kn_size ka - i))") auto

declare compare_loop.simps [simp del]

definition compare :: "KeyNode cmp_fptr" where
  "compare a b =
     (case (a, b) of
        (Some ka, Some kb) \<Rightarrow>
          if kn_size ka \<noteq> kn_size kb then Ret False else compare_loop ka kb 0
      | _ \<Rightarrow> Ret False)"

text \<open>A key as \<^verbatim>\<open>create_key_node\<close> makes it, and what identifies it: its bytes.\<close>

definition key_ok :: "KeyNode \<Rightarrow> bool" where
  "key_ok k \<longleftrightarrow>
     (case kn_content k of None \<Rightarrow> False | Some b \<Rightarrow> b \<noteq> [] \<and> kn_size k = int (length b)) \<and>
     kn_input_time k \<noteq> None"

definition key_bytes :: "KeyNode \<Rightarrow> string" where
  "key_bytes k = (case kn_content k of None \<Rightarrow> [] | Some b \<Rightarrow> b)"

lemma compare_loop_bytes:
  assumes "kn_content ka = Some a" "kn_content kb = Some b" "kn_size ka = int (length a)"
    "length b = length a" "i \<le> length a"
  shows "compare_loop ka kb (int i) = Ret (drop i a = drop i b)"
  using assms(5)
proof (induction "length a - i" arbitrary: i)
  case 0
  then show ?case using assms by (subst compare_loop.simps) simp
next
  case (Suc n)
  then have i: "i < length a" by simp
  have IH: "compare_loop ka kb (int (Suc i)) = Ret (drop (Suc i) a = drop (Suc i) b)"
    using Suc.hyps i by (intro Suc.hyps(1)) auto
  have "str_at (kn_content ka) (int i) = Ret (a ! i)" "str_at (kn_content kb) (int i) = Ret (b ! i)"
    using assms i by (simp_all add: str_at_def nth_append)
  moreover have "(drop i a = drop i b) = (a ! i = b ! i \<and> drop (Suc i) a = drop (Suc i) b)"
    using Cons_nth_drop_Suc [OF i] Cons_nth_drop_Suc [of i b] assms(4) i by (metis list.inject)
  ultimately show ?case
    using IH assms(3) i by (subst compare_loop.simps) (simp add: add.commute)
qed

lemma compare_key_ok:
  assumes "key_ok a" "key_ok b"
  shows "compare (Some a) (Some b) = Ret (key_bytes a = key_bytes b)"
proof -
  obtain x y where x: "kn_content a = Some x" "kn_size a = int (length x)"
    and y: "kn_content b = Some y" "kn_size b = int (length y)"
    using assms by (auto simp: key_ok_def split: option.splits)
  show ?thesis
  proof (cases "length x = length y")
    case True
    with compare_loop_bytes [OF x(1) y(1) x(2), of 0] x y show ?thesis
      by (simp add: compare_def key_bytes_def)
  next
    case False
    with x y show ?thesis by (auto simp: compare_def key_bytes_def)
  qed
qed

text \<open>\<open>compare\<close> meets the contract of a comparison callback, so the map of keys and values is a finite
  map from key bytes to stored key and value.\<close>

interpretation data: key_compare compare key_ok key_bytes
  by unfold_locales (rule compare_key_ok)

abbreviation data_rep :: "data_map \<Rightarrow> (string \<rightharpoonup> KeyNode \<times> ValueNode option) \<Rightarrow> bool" where
  "data_rep \<equiv> sm_map key_ok key_bytes"

section \<open>RESP text\<close>

text \<open>\<^verbatim>\<open>key_or_value_node_to_string\<close>: the returned size and the allocated text. A size above \<^verbatim>\<open>INT_MAX\<close>
  wraps to a negative \<^verbatim>\<open>int\<close>, for which \<^verbatim>\<open>calloc\<close> fails.\<close>

definition key_or_value_node_to_string :: "kv_node option \<Rightarrow> (int \<times> string option) outcome" where
  "key_or_value_node_to_string nodep =
     (case nodep of
        None \<Rightarrow> Ret (-1, None)
      | Some nd \<Rightarrow>
          let (content_size, content) =
            (case nd of TYPE_KEY_NODE k \<Rightarrow> (kn_size k, kn_content k)
                      | TYPE_VALUE_NODE v \<Rightarrow> (vn_size v, vn_content v));
            content_size_buf = dec_int content_size;
            rtn_val_size = 1 + int (length content_size_buf) + 2 + content_size + 3
          in
          if content_size < 0 then UB
          else if INT_MAX < rtn_val_size then Ret (-1, None)
          else
            (case content of
               None \<Rightarrow> if content_size = 0
                       then Ret (rtn_val_size, Some (''$'' @ content_size_buf @ CRLF @ CRLF)) else UB
             | Some b \<Rightarrow>
                 obind (memcpy_bytes b (nat content_size)) (\<lambda>bytes.
                 Ret (rtn_val_size, Some (''$'' @ content_size_buf @ CRLF @ bytes @ CRLF)))))"

text \<open>The RESP bulk string with content \<open>b\<close>.\<close>

definition bulk :: "string \<Rightarrow> string" where
  "bulk b = ''$'' @ dec_nat (length b) @ CRLF @ b @ CRLF"

text \<open>A value as \<^verbatim>\<open>create_value_node\<close> makes it, and one within the protocol's limit.\<close>

definition text_value :: "ValueNode \<Rightarrow> bool" where
  "text_value v \<longleftrightarrow> vn_dtype v = BULK_STR \<and>
     (case vn_content v of None \<Rightarrow> False | Some b \<Rightarrow> b \<noteq> [] \<and> vn_size v = int (length b))"

definition value_bytes :: "ValueNode \<Rightarrow> string" where
  "value_bytes v = (case vn_content v of None \<Rightarrow> [] | Some b \<Rightarrow> b)"

definition value_ok :: "ValueNode \<Rightarrow> bool" where
  "value_ok v \<longleftrightarrow> text_value v \<and> int (length (value_bytes v)) \<le> PROTO_MAX_BULK_SIZE"

lemma text_size_fits:
  assumes "int n \<le> PROTO_MAX_BULK_SIZE"
  shows "1 + int (length (dec_nat n)) + 2 + int n + 3 \<le> INT_MAX"
  using dec_nat_length_le [of n 8] assms by (simp add: PROTO_MAX_BULK_SIZE_def)

lemma value_node_to_string:
  "value_ok v \<Longrightarrow> key_or_value_node_to_string (Some (TYPE_VALUE_NODE v)) =
    Ret (int (length (bulk (value_bytes v))) + 1, Some (bulk (value_bytes v)))"
  using text_size_fits [of "length (value_bytes v)"]
  by (auto simp: key_or_value_node_to_string_def value_ok_def text_value_def value_bytes_def bulk_def dec_int_def
      Let_def split: option.splits)

lemma key_node_to_string:
  "key_ok k \<Longrightarrow> int (length (key_bytes k)) \<le> PROTO_MAX_BULK_SIZE \<Longrightarrow>
    key_or_value_node_to_string (Some (TYPE_KEY_NODE k)) =
    Ret (int (length (bulk (key_bytes k))) + 1, Some (bulk (key_bytes k)))"
  using text_size_fits [of "length (key_bytes k)"]
  by (auto simp: key_or_value_node_to_string_def key_ok_def key_bytes_def bulk_def dec_int_def
      Let_def split: option.splits)

lemma bulk_resp: "bulk b = resp (BulkStringNode (Some b) (int (length b)))"
  by (simp add: bulk_def dec_int_def)

section \<open>Expiry\<close>

text \<open>\<^verbatim>\<open>has_key_expired\<close>: the difference of two \<^verbatim>\<open>float\<close> times against \<^verbatim>\<open>ex\<close> seconds or \<^verbatim>\<open>px\<close>
  milliseconds.\<close>

definition has_key_expired :: "KeyNode \<Rightarrow> KeyNode \<Rightarrow> bool outcome" where
  "has_key_expired new_key prev_key =
     (let ex = kn_ex prev_key; px = kn_px prev_key in
      if ex = 0 \<and> px = 0 then Ret False
      else
        (case (kn_input_time new_key, kn_input_time prev_key) of
           (Some curr_time, Some prev_time) \<Rightarrow>
             (let delta_sec = fl 24 (ts_float curr_time - ts_float prev_time) in
              Ret (if ex \<noteq> 0 then delta_sec > fl 24 (of_nat (unat ex))
                   else fl 24 (delta_sec * 1000) > fl 24 (of_nat (unat px))))
         | _ \<Rightarrow> UB))"

text \<open>Lemmas on the expiry test: it is monotone in the clock, and exact on whole seconds while the
  uptime fits the 24 bits of a \<^verbatim>\<open>float\<close>.\<close>

lemma expiry_mono:
  assumes "kn_input_time n = Some t" "kn_input_time n' = Some t'" "kn_input_time k = Some t0"
    "ts_valid t" "ts_valid t'" "t \<le> t'" "has_key_expired n k = Ret True"
  shows "has_key_expired n' k = Ret True"
proof -
  let ?d = "fl 24 (ts_float t - ts_float t0)" and ?d' = "fl 24 (ts_float t' - ts_float t0)"
  have d: "?d \<le> ?d'" using ts_float_mono [OF assms(4-6)] by (intro fl_mono) simp_all
  then have m: "fl 24 (?d * 1000) \<le> fl 24 (?d' * 1000)" by (intro fl_mono) simp_all
  show ?thesis
    using assms(1-3,7) d m by (auto simp: has_key_expired_def Let_def split: if_splits)
qed

lemma expiry_whole_seconds:
  assumes "kn_input_time n = Some (Timespec b 0)" "kn_input_time k = Some (Timespec a 0)"
    "0 \<le> a" "a \<le> b" "b < 2 ^ 24" "kn_ex k \<noteq> 0" "unat (kn_ex k) < 2 ^ 24"
  shows "has_key_expired n k = Ret (int (unat (kn_ex k)) < b - a)"
proof -
  have "fl 24 (ts_float (Timespec b 0) - ts_float (Timespec a 0)) = of_int (b - a)"
    using assms fl_int_exact [of "b - a" 24] by (simp add: ts_float_whole)
  moreover have "fl 24 (of_nat (unat (kn_ex k))) = of_nat (unat (kn_ex k))"
    using fl_nat_exact [OF assms(7)] by simp
  moreover have "((of_nat (unat (kn_ex k)) :: rat) < of_int (b - a)) = (int (unat (kn_ex k)) < b - a)"
    by (metis of_int_less_iff of_int_of_nat_eq)
  ultimately show ?thesis
    using assms(1,2,6) by (simp add: has_key_expired_def Let_def del: of_nat_unat of_int_diff)
qed

section \<open>Properties\<close>

definition demo_key :: KeyNode where
  "demo_key = \<lparr>kn_content = Some ''k'', kn_input_time = Some (Timespec 5 0), kn_ex = 3, kn_px = 0, kn_size = 1\<rparr>"

definition demo_value :: ValueNode where
  "demo_value = \<lparr>vn_content = Some ''v'', vn_dtype = BULK_STR, vn_size = 1\<rparr>"

definition demo_map :: data_map where
  "demo_map = \<lparr>keys = Some [Ptr (Some demo_key)], vals = Some [Ptr (Some demo_value)], capacity = 1, top = 0\<rparr>"

lemma demo_ok:
  "key_ok demo_key" "key_bytes demo_key = ''k''" "value_ok demo_value" "value_bytes demo_value = ''v''"
  by (simp_all add: key_ok_def key_bytes_def value_ok_def text_value_def value_bytes_def demo_key_def demo_value_def
      PROTO_MAX_BULK_SIZE_def)

lemma demo_sm_rep: "sm_rep demo_map [(demo_key, Some demo_value)]"
  by (simp add: sm_rep_def demo_map_def)

lemma demo_rep: "data_rep demo_map [''k'' \<mapsto> (demo_key, Some demo_value)]"
  unfolding sm_map_def
  by (rule exI [of _ "[(demo_key, Some demo_value)]"])
    (simp add: demo_sm_rep demo_ok entries_map_def)

text \<open>\<^verbatim>\<open>set\<close> with an absent key returns \<^verbatim>\<open>SUCESS_SET\<close>, adds exactly that entry, and the arrays at most
  double, and only when every cell is in use.\<close>

lemma data_insert:
  assumes "data_rep sm m" "key_ok k" "m (key_bytes k) = None"
    "2 * capacity sm \<le> INT_MAX" "realloc_keys al" "realloc_values al"
  shows "\<exists>sm'. sm_set al (Some sm) (Some \<lparr>kvp_key = Some k, kvp_value = v\<rparr>) (Some compare) =
      Ret (SUCESS_SET, Some sm', Some \<lparr>kvp_key = Some k, kvp_value = v\<rparr>) \<and>
    data_rep sm' (m(key_bytes k \<mapsto> (k, v))) \<and>
    capacity sm' \<le> max (capacity sm) (2 * int (card (dom m)))"
  by (rule data.set_refines_new [OF assms])

text \<open>\<^verbatim>\<open>remove_key\<close> with a present key removes exactly that entry, keeps the others, and hands the
  removed key and value back.\<close>

lemma data_remove:
  assumes "data_rep sm m" "key_ok k" "m (key_bytes k) = Some (k', v')"
  shows "\<exists>sm'. remove_key (Some sm) (Some k) (Some compare) (Some rmv) =
      Ret (REMOVE_SUCCESS, Some sm', Some \<lparr>kvp_key = Some k', kvp_value = v'\<rparr>) \<and>
    data_rep sm' (m(key_bytes k := None)) \<and> capacity sm' = capacity sm"
  by (rule data.remove_refines [OF assms])

text \<open>A full map whose arrays cannot be doubled.\<close>

lemma set_oom:
  assumes "data_rep sm m" "key_ok k" "m (key_bytes k) = None" "int (card (dom m)) = capacity sm"
    "2 * capacity sm \<le> INT_MAX" "\<not> (realloc_keys al \<and> realloc_values al)"
  shows "sm_set al (Some sm) (Some \<lparr>kvp_key = Some k, kvp_value = v\<rparr>) (Some compare) =
    Ret (ERROR_SET_SM_RTN, Some (if realloc_keys al \<and> \<not> realloc_shrink al then sm\<lparr>keys := None\<rparr> else sm),
      Some \<lparr>kvp_key = Some k, kvp_value = v\<rparr>)"
proof -
  obtain es where es: "sm_rep sm es" "\<forall>e\<in>set es. key_ok (fst e)"
    "distinct (map (\<lambda>e. key_bytes (fst e)) es)" "m = entries_map key_bytes es"
    by (rule sm_mapE [OF assms(1)], rule that)
  have "find_idx (\<lambda>e. key_bytes (fst e) = key_bytes k) es = None"
    using entries_map_find_Some [OF es(3), of "key_bytes k"] assms(3) es(4)
    by (cases "find_idx (\<lambda>e. key_bytes (fst e) = key_bytes k) es") auto
  moreover have "int (length es) = capacity sm" using assms(4) card_dom_entries [OF es(3)] es(4) by simp
  ultimately show ?thesis
    using sm_set_rep_oom [where P = "\<lambda>e. key_bytes (fst e) = key_bytes k" and cmp = compare and k = k,
        OF es(1) data.cmp_left [OF es(2) assms(2)] _ _ assms(5,6)] by blast
qed

text \<open>C29. When the arrays are full and a \<^verbatim>\<open>realloc\<close> of the doubling fails, \<^verbatim>\<open>set\<close> of a new key reports an
  error; it leaves the map as it was, unless the one for the values fails and shrinking the keys back
  fails as well: then the map has lost its array of keys.\<close>

theorem data_insert_oom:
  assumes "data_rep sm m" "key_ok k" "m (key_bytes k) = None" "int (card (dom m)) = capacity sm"
    "2 * capacity sm \<le> INT_MAX" "\<not> (realloc_keys al \<and> realloc_values al)"
  shows "sm_set al (Some sm) (Some \<lparr>kvp_key = Some k, kvp_value = v\<rparr>) (Some compare) =
    Ret (ERROR_SET_SM_RTN, Some (if realloc_keys al \<and> \<not> realloc_shrink al then sm\<lparr>keys := None\<rparr> else sm),
      Some \<lparr>kvp_key = Some k, kvp_value = v\<rparr>)"
  using assms by (rule set_oom)

theorem data_insert_oom_witness:
  "sm_set \<lparr>realloc_keys = True, realloc_values = False, realloc_shrink = True\<rparr> (Some demo_map)
      (Some \<lparr>kvp_key = Some (demo_key\<lparr>kn_content := Some ''x''\<rparr>), kvp_value = None\<rparr>) (Some compare) =
    Ret (ERROR_SET_SM_RTN, Some demo_map,
         Some \<lparr>kvp_key = Some (demo_key\<lparr>kn_content := Some ''x''\<rparr>), kvp_value = None\<rparr>) \<and>
   sm_set \<lparr>realloc_keys = True, realloc_values = False, realloc_shrink = False\<rparr> (Some demo_map)
      (Some \<lparr>kvp_key = Some (demo_key\<lparr>kn_content := Some ''x''\<rparr>), kvp_value = None\<rparr>) (Some compare) =
    Ret (ERROR_SET_SM_RTN, Some (demo_map\<lparr>keys := None\<rparr>),
         Some \<lparr>kvp_key = Some (demo_key\<lparr>kn_content := Some ''x''\<rparr>), kvp_value = None\<rparr>)"
proof -
  let ?k = "demo_key\<lparr>kn_content := Some ''x''\<rparr>"
  have k: "key_ok ?k" "[''k'' \<mapsto> (demo_key, Some demo_value)] (key_bytes ?k) = None"
    "int (card (dom [''k'' \<mapsto> (demo_key, Some demo_value)])) = capacity demo_map" "2 * capacity demo_map \<le> INT_MAX"
    by (simp_all add: key_ok_def key_bytes_def demo_key_def demo_map_def)
  show ?thesis
    by (subst data_insert_oom [OF demo_rep k], simp, subst data_insert_oom [OF demo_rep k]) simp_all
qed

text \<open>The expiry test is monotone in the clock: a key that has expired stays expired at every later
  reading, in spite of the rounding to \<^verbatim>\<open>float\<close>.\<close>

lemma expired_stays_expired:
  assumes "kn_input_time n = Some t" "kn_input_time n' = Some t'" "kn_input_time k = Some t0"
    "ts_valid t" "ts_valid t'" "t \<le> t'" "has_key_expired n k = Ret True"
  shows "has_key_expired n' k = Ret True"
  using assms by (rule expiry_mono)

text \<open>The test loses whole seconds after \<open>2 ^ 24\<close> seconds of uptime (194 days): a key set then with
  \<^verbatim>\<open>PX 1\<close>, one millisecond, is not seen as expired a full second later.\<close>

lemma expiry_float_loses_seconds:
  "has_key_expired (demo_key\<lparr>kn_input_time := Some (Timespec (2 ^ 24 + 1) 0)\<rparr>)
     (demo_key\<lparr>kn_input_time := Some (Timespec (2 ^ 24) 0), kn_ex := 0, kn_px := 1\<rparr>) = Ret False"
  by (simp add: has_key_expired_def ts_float_rounds [simplified])

end
