(* ===== verification/Set_Parser.thy ===== *)
theory Set_Parser
  imports Key_Value
begin

text \<open>
  Validation of the SET command in \<^verbatim>\<open>src/src/cmd_handler.c\<close>: \<^verbatim>\<open>set_cmd_stage_a\<close>,
  \<^verbatim>\<open>handle_set_options\<close>, \<^verbatim>\<open>is_set_option_valid\<close> and \<^verbatim>\<open>validate_set_cmd\<close>. The parsing state is the
  8-bit signed \<^verbatim>\<open>char\<close> of the source. The array \<^verbatim>\<open>parsed_cmd\<close> is a list of six slots; a node pointer
  is the list of nodes from that node on, and NULL is the empty list. The result is compared with a
  grammar of SET requests.
\<close>

unbundle bit_operations_syntax

section \<open>Options\<close>

datatype OptionType = OPTION_NX | OPTION_XX | OPTION_GET | OPTION_EX | OPTION_PX | OPTION_EXAT
  | OPTION_PXAT | OPTION_INVALID

definition get_option_type :: "string option \<Rightarrow> OptionType outcome" where
  "get_option_type optn =
     (case optn of
        None \<Rightarrow> UB
      | Some s \<Rightarrow>
          Ret (if strcmp_eq s ''NX'' then OPTION_NX
               else if strcmp_eq s ''XX'' then OPTION_XX
               else if strcmp_eq s ''GET'' then OPTION_GET
               else if strcmp_eq s ''EX'' then OPTION_EX
               else if strcmp_eq s ''PX'' then OPTION_PX
               else if strcmp_eq s ''EXAT'' then OPTION_EXAT
               else if strcmp_eq s ''PXAT'' then OPTION_PXAT
               else OPTION_INVALID))"

type_synonym parsed_cmd = "node option list"

text \<open>The values of \<^verbatim>\<open>enum SET_STATES\<close>.\<close>

definition SET_BASIC :: cchar where "SET_BASIC = 0b01110000"
definition SET_NXXX :: cchar where "SET_NXXX = 0b01111000"
definition SET_GET :: cchar where "SET_GET = 0b01110100"
definition SET_EX_PX_EXAL_PXAT :: cchar where "SET_EX_PX_EXAL_PXAT = 0b01110011"
definition SET_NXXX_EXPX :: cchar where "SET_NXXX_EXPX = 0b01111011"
definition SET_GET_EXPX :: cchar where "SET_GET_EXPX = 0b01110111"
definition SET_NXXX_GET :: cchar where "SET_NXXX_GET = 0b01111100"

lemmas set_states = SET_BASIC_def SET_NXXX_def SET_GET_def SET_EX_PX_EXAL_PXAT_def
  SET_NXXX_EXPX_def SET_GET_EXPX_def SET_NXXX_GET_def

text \<open>\<^verbatim>\<open>*state & 1<<bit_pos\<close> stored in an \<^verbatim>\<open>unsigned char\<close>, and the loop that walks down the bits;
  \<open>bits_clear st n\<close> tests the bits below \<open>n\<close>.\<close>

fun bits_clear :: "cchar \<Rightarrow> nat \<Rightarrow> bool" where
  "bits_clear st 0 = True"
| "bits_clear st (Suc b) =
     (if (ucast ((scast st :: 32 word) AND push_bit b 1) :: 8 word) \<noteq> 0 then False
      else bits_clear st b)"

definition is_set_option_valid :: "cchar \<Rightarrow> int \<Rightarrow> bool" where
  "is_set_option_valid st bit_pos =
     (if bit_pos < -1 \<or> bit_pos > 8 then False else bits_clear st (nat (bit_pos + 1)))"

definition handle_set_options :: "cchar \<Rightarrow> parsed_cmd \<Rightarrow> node list \<Rightarrow> nat \<Rightarrow>
    cchar \<times> parsed_cmd \<times> node list" where
  "handle_set_options st parsed gnode bit_pos =
     (case gnode of
        [] \<Rightarrow> (- 1, parsed, gnode)
      | nd # rest \<Rightarrow>
          if \<not> is_set_option_valid st (int bit_pos) then (- 1, parsed, gnode)
          else (ucast ((scast st :: 32 word) OR push_bit bit_pos 1),
                parsed[bit_pos := Some nd], rest))"

text \<open>\<^verbatim>\<open>__validate_px_ex_content\<close>: the expiry must be a non-empty run of digits. The scan stops at
  the first byte that is not a digit, at the latest at the terminating NUL of the content.\<close>

definition validate_px_ex_content :: "node \<Rightarrow> cchar \<Rightarrow> cchar outcome" where
  "validate_px_ex_content nd st =
     (if sint st < 0 then Ret st
      else
        (case nd of
           BulkStringNode content sz \<Rightarrow>
             (case content of
                None \<Rightarrow> Ret (- 1)
              | Some b \<Rightarrow>
                  Ret (if 1 \<le> sz \<and> nat sz \<le> length b \<and> list_all is_digit (take (nat sz) b)
                       then st else - 1))
         | _ \<Rightarrow> UB))"

section \<open>Validation\<close>

text \<open>\<^verbatim>\<open>set_cmd_stage_a\<close>: the two turns of its loop, for the key (state 64) and the value (state 96).\<close>

definition set_cmd_stage_a :: "node list \<Rightarrow> parsed_cmd \<Rightarrow>
    (cchar \<times> parsed_cmd \<times> node list) outcome" where
  "set_cmd_stage_a gnode parsed =
     (case gnode of
        [] \<Rightarrow> Ret (- 1, parsed, [])
      | key # rest \<Rightarrow>
          obind (node_type key) (\<lambda>t.
          if t \<noteq> BULK_STR \<or> rest = [] then Ret (- 1, parsed, [])
          else
            (case rest of
               [] \<Rightarrow> UB
             | val # rest' \<Rightarrow>
                 obind (node_type val) (\<lambda>t'.
                 if t' \<noteq> BULK_STR then Ret (- 1, parsed[5 := Some key], [])
                 else Ret (64 OR push_bit 5 1 OR push_bit 4 1,
                           parsed[5 := Some key, 4 := Some val], rest')))))"

text \<open>The option loop of \<^verbatim>\<open>validate_set_cmd\<close>; \<open>None\<close> is an early \<^verbatim>\<open>return NULL\<close>.\<close>

fun bulk_content :: "node \<Rightarrow> string option" where
  "bulk_content (BulkStringNode c sz) = c"
| "bulk_content _ = None"

lemma validate_px_ex_content_failed [simp]: "validate_px_ex_content nd (- 1) = Ret (- 1)"
  by (simp add: validate_px_ex_content_def)

lemma minus_one_not_positive [simp]: "sint (- 1 :: cchar) = - 1"
  by simp

function validate_loop :: "cchar \<Rightarrow> parsed_cmd \<Rightarrow> node list \<Rightarrow>
    (cchar \<times> parsed_cmd) option outcome" where
  "validate_loop st parsed gnode =
     (if gnode \<noteq> [] \<and> sint st > 0 then
        obind (node_type (hd gnode)) (\<lambda>t.
        if t \<noteq> BULK_STR then Ret None
        else
          obind (get_option_type (bulk_content (hd gnode))) (\<lambda>opt.
          if opt \<in> {OPTION_NX, OPTION_XX} then
            (case handle_set_options st parsed gnode 3 of
               (st', parsed', gnode') \<Rightarrow> validate_loop st' parsed' gnode')
          else if opt = OPTION_GET then
            (case handle_set_options st parsed gnode 2 of
               (st', parsed', gnode') \<Rightarrow> validate_loop st' parsed' gnode')
          else if opt \<in> {OPTION_EX, OPTION_EXAT, OPTION_PX, OPTION_PXAT} then
            (case handle_set_options st parsed gnode 1 of
               (st1, parsed1, gnode1) \<Rightarrow>
                 (case gnode1 of
                    [] \<Rightarrow> Ret None
                  | last_nd # rest1 \<Rightarrow>
                      obind (node_type last_nd) (\<lambda>t1.
                      if t1 \<noteq> BULK_STR \<or> rest1 \<noteq> [] then Ret None
                      else
                        (case handle_set_options st1 parsed1 gnode1 0 of
                           (st2, parsed2, gnode2) \<Rightarrow>
                             obind (validate_px_ex_content last_nd st2) (\<lambda>st3.
                             validate_loop st3 parsed2 gnode2)))))
          else Ret None))
      else Ret (if sint st < 0 then None else Some (st, parsed)))"
  by pat_completeness auto
termination
  by (relation "measure (\<lambda>(st, parsed, gnode). if sint st > 0 then Suc (length gnode) else 0)")
    (auto simp: handle_set_options_def split: list.splits if_splits)

declare validate_loop.simps [simp del]

definition validate_set_cmd :: "node list \<Rightarrow> (cchar \<times> parsed_cmd) option outcome" where
  "validate_set_cmd nodep =
     (if nodep = [] then Ret None
      else
        obind (set_cmd_stage_a nodep (replicate 6 None)) (\<lambda>(st, parsed, next).
        validate_loop st parsed next))"

section \<open>The grammar of SET requests\<close>

text \<open>The arguments that SET accepts: a key and a value, then at most one of NX and XX, then at most
  one GET, then at most one expiry option with its digits, which ends the request.\<close>

record set_request =
  rq_key :: node
  rq_value :: node
  rq_nxxx :: "node option"
  rq_get :: "node option"
  rq_expiry :: "(node \<times> node) option"

fun is_bulk :: "node \<Rightarrow> bool" where
  "is_bulk (BulkStringNode c sz) = True"
| "is_bulk _ = False"

fun is_word :: "string list \<Rightarrow> node \<Rightarrow> bool" where
  "is_word ws (BulkStringNode (Some b) sz) = (cstr b \<in> set ws)"
| "is_word ws _ = False"

fun is_number :: "node \<Rightarrow> bool" where
  "is_number (BulkStringNode (Some b) sz) = (b \<noteq> [] \<and> list_all is_digit b)"
| "is_number _ = False"

definition take_opt :: "(node \<Rightarrow> bool) \<Rightarrow> node list \<Rightarrow> node option \<times> node list" where
  "take_opt P ns = (case ns of [] \<Rightarrow> (None, []) | nd # rest \<Rightarrow> if P nd then (Some nd, rest) else (None, ns))"

definition expiry_part :: "node list \<Rightarrow> (node \<times> node) option option" where
  "expiry_part ns =
     (if ns = [] then Some None
      else if length ns = 2 \<and> is_word [''EX'', ''PX'', ''EXAT'', ''PXAT''] (ns ! 0) \<and> is_number (ns ! 1)
      then Some (Some (ns ! 0, ns ! 1))
      else None)"

definition set_grammar :: "node list \<Rightarrow> set_request option" where
  "set_grammar ns =
     (case ns of
        key # val # opts \<Rightarrow>
          if is_bulk key \<and> is_bulk val then
            (let (nxxx, r1) = take_opt (is_word [''NX'', ''XX'']) opts;
                 (gt, r2) = take_opt (is_word [''GET'']) r1
             in map_option (\<lambda>e. \<lparr>rq_key = key, rq_value = val, rq_nxxx = nxxx, rq_get = gt,
                                   rq_expiry = e\<rparr>) (expiry_part r2))
          else None
      | _ \<Rightarrow> None)"

text \<open>How the parser's state byte and six slots encode a request.\<close>

definition rq_state :: "set_request \<Rightarrow> cchar" where
  "rq_state rq = 112 + (if rq_nxxx rq = None then 0 else 8) + (if rq_get rq = None then 0 else 4) +
     (if rq_expiry rq = None then 0 else 3)"

definition rq_slots :: "set_request \<Rightarrow> parsed_cmd" where
  "rq_slots rq = [map_option snd (rq_expiry rq), map_option fst (rq_expiry rq), rq_get rq, rq_nxxx rq,
     Some (rq_value rq), Some (rq_key rq)]"

lemma option_bits:
  "is_set_option_valid 112 3" "is_set_option_valid 112 2" "is_set_option_valid 112 1"
  "is_set_option_valid 120 2" "is_set_option_valid 120 1" "is_set_option_valid 116 1"
  "is_set_option_valid 124 1" "is_set_option_valid 114 0" "is_set_option_valid 122 0"
  "is_set_option_valid 118 0" "is_set_option_valid 126 0" "\<not> is_set_option_valid 120 3"
  "\<not> is_set_option_valid 116 3" "\<not> is_set_option_valid 124 3" "\<not> is_set_option_valid 116 2"
  "\<not> is_set_option_valid 124 2" "\<not> is_set_option_valid (- 1) 0"
  by code_simp+

lemma validate_loop_failed [simp]: "validate_loop (- 1) parsed ns = Ret None"
  by (subst validate_loop.simps) simp

lemma validate_loop_end: "0 < sint st \<Longrightarrow> validate_loop st parsed [] = Ret (Some (st, parsed))"
  by (subst validate_loop.simps) simp

text \<open>One turn of the loop for each kind of node.\<close>

lemma word_bulk: "is_word ws nd \<Longrightarrow> \<exists>b sz. nd = BulkStringNode (Some b) sz \<and> cstr b \<in> set ws"
  by (cases "(ws, nd)" rule: is_word.cases) auto

lemma get_option_type_word:
  "get_option_type (Some b) = Ret (
     if cstr b = ''NX'' then OPTION_NX else if cstr b = ''XX'' then OPTION_XX
     else if cstr b = ''GET'' then OPTION_GET else if cstr b = ''EX'' then OPTION_EX
     else if cstr b = ''PX'' then OPTION_PX else if cstr b = ''EXAT'' then OPTION_EXAT
     else if cstr b = ''PXAT'' then OPTION_PXAT else OPTION_INVALID)"
  by (simp add: get_option_type_def strcmp_eq_def)

lemma validate_loop_nxxx:
  assumes "0 < sint st" "is_word [''NX'', ''XX''] nd"
  shows "validate_loop st parsed (nd # ns) =
    (if is_set_option_valid st 3
     then validate_loop (ucast ((scast st :: 32 word) OR 8)) (parsed[3 := Some nd]) ns
     else Ret None)"
  using word_bulk [OF assms(2)] assms(1)
  by (subst validate_loop.simps) (auto simp: get_option_type_word handle_set_options_def)

lemma validate_loop_get:
  assumes "0 < sint st" "is_word [''GET''] nd"
  shows "validate_loop st parsed (nd # ns) =
    (if is_set_option_valid st 2
     then validate_loop (ucast ((scast st :: 32 word) OR 4)) (parsed[2 := Some nd]) ns
     else Ret None)"
  using word_bulk [OF assms(2)] assms(1)
  by (subst validate_loop.simps) (auto simp: get_option_type_word handle_set_options_def)

lemma validate_loop_other:
  assumes "0 < sint st" "node_wf nd"
    "\<not> is_word [''NX'', ''XX'', ''GET'', ''EX'', ''PX'', ''EXAT'', ''PXAT''] nd"
  shows "validate_loop st parsed (nd # ns) = Ret None"
  using assms
  by (subst validate_loop.simps, cases nd) (auto simp: get_option_type_word split: option.splits)

lemma px_ex_content_number:
  "node_wf nd \<Longrightarrow> is_bulk nd \<Longrightarrow> 0 \<le> sint st \<Longrightarrow>
    validate_px_ex_content nd st = Ret (if is_number nd then st else - 1)"
  by (cases nd) (auto simp: validate_px_ex_content_def Suc_le_eq split: option.splits)

lemma expiry_states:
  assumes "st \<in> {112, 116, 120, 124 :: cchar}"
  shows "0 < sint st" "is_set_option_valid st 1" "is_set_option_valid (ucast ((scast st :: 32 word) OR 2)) 0"
    "ucast ((scast (ucast ((scast st :: 32 word) OR 2) :: cchar) :: 32 word) OR 1) = st + 3"
    "0 < sint (st + 3)"
  using assms by (auto simp: option_bits)

lemma validate_loop_expiry:
  assumes st: "st \<in> {112, 116, 120, 124 :: cchar}"
    and o: "is_word [''EX'', ''PX'', ''EXAT'', ''PXAT''] nd" and wf: "\<forall>nd\<in>set ns. node_wf nd"
  shows "validate_loop st parsed (nd # ns) =
    Ret (if length ns = 1 \<and> is_number (hd ns)
         then Some (st + 3, parsed[1 := Some nd, 0 := Some (hd ns)]) else None)"
proof (cases ns)
  case Nil
  with word_bulk [OF o] expiry_states [OF st] show ?thesis
    by (subst validate_loop.simps) (auto simp: get_option_type_word handle_set_options_def)
next
  case (Cons t rest)
  show ?thesis
  proof (cases "is_bulk t \<and> rest = []")
    case True
    with word_bulk [OF o] expiry_states [OF st] Cons wf px_ex_content_number [of t "st + 3"]
    show ?thesis
      by (subst validate_loop.simps, cases t)
        (auto simp: get_option_type_word handle_set_options_def validate_loop_end)
  next
    case False
    with word_bulk [OF o] expiry_states [OF st] Cons wf show ?thesis
      by (subst validate_loop.simps, cases t)
        (auto simp: get_option_type_word handle_set_options_def)
  qed
qed

text \<open>The tail of a request, after NX, XX and GET.\<close>

definition tail_result :: "cchar \<Rightarrow> parsed_cmd \<Rightarrow> node list \<Rightarrow> (cchar \<times> parsed_cmd) option" where
  "tail_result st parsed ns =
     map_option (\<lambda>e. case e of None \<Rightarrow> (st, parsed)
                              | Some (opt, t) \<Rightarrow> (st + 3, parsed[1 := Some opt, 0 := Some t]))
       (expiry_part ns)"

lemma validate_loop_tail:
  assumes st: "st \<in> {112, 116, 120, 124 :: cchar}" and wf: "\<forall>nd\<in>set ns. node_wf nd"
    and hd: "ns = [] \<or> \<not> is_word [''NX'', ''XX'', ''GET''] (hd ns)"
  shows "validate_loop st parsed ns = Ret (tail_result st parsed ns)"
proof (cases ns)
  case Nil
  with expiry_states [OF st] show ?thesis
    by (simp add: validate_loop_end tail_result_def expiry_part_def)
next
  case (Cons nd rest)
  show ?thesis
  proof (cases "is_word [''EX'', ''PX'', ''EXAT'', ''PXAT''] nd")
    case True
    with validate_loop_expiry [OF st True, of rest parsed] wf Cons show ?thesis
      by (cases rest) (auto simp: tail_result_def expiry_part_def)
  next
    case False
    then have "\<not> is_word [''NX'', ''XX'', ''GET'', ''EX'', ''PX'', ''EXAT'', ''PXAT''] nd"
      using hd Cons by (cases "([]::string list, nd)" rule: is_word.cases) auto
    with validate_loop_other [of st nd parsed rest] expiry_states [OF st] False wf Cons show ?thesis
      by (simp add: tail_result_def expiry_part_def)
  qed
qed

lemma tail_result_word:
  "ns \<noteq> [] \<Longrightarrow> is_word [''NX'', ''XX'', ''GET''] (hd ns) \<Longrightarrow> tail_result st parsed ns = None"
  by (cases ns; cases "([]::string list, hd ns)" rule: is_word.cases)
    (auto simp: tail_result_def expiry_part_def)

lemma is_word_mono: "is_word ws nd \<Longrightarrow> set ws \<subseteq> set ws' \<Longrightarrow> is_word ws' nd"
  by (cases "(ws, nd)" rule: is_word.cases) auto

lemma is_word_split:
  "is_word [''NX'', ''XX'', ''GET''] nd \<longleftrightarrow> is_word [''NX'', ''XX''] nd \<or> is_word [''GET''] nd"
  by (cases "([]::string list, nd)" rule: is_word.cases) auto

lemma validate_loop_after_get:
  assumes st: "st \<in> {116, 124 :: cchar}" and wf: "\<forall>nd\<in>set ns. node_wf nd"
  shows "validate_loop st parsed ns = Ret (tail_result st parsed ns)"
proof (cases "ns = [] \<or> \<not> is_word [''NX'', ''XX'', ''GET''] (hd ns)")
  case True
  then show ?thesis using st wf by (intro validate_loop_tail) auto
next
  case False
  then have "validate_loop st parsed ns = Ret None"
    using st validate_loop_nxxx [of st "hd ns" parsed "tl ns"] validate_loop_get [of st "hd ns" parsed "tl ns"]
    by (auto simp: is_word_split option_bits)
  with False show ?thesis by (simp add: tail_result_word)
qed

definition get_result :: "cchar \<Rightarrow> parsed_cmd \<Rightarrow> node list \<Rightarrow> (cchar \<times> parsed_cmd) option" where
  "get_result st parsed ns =
     (case take_opt (is_word [''GET'']) ns of
        (None, r) \<Rightarrow> tail_result st parsed r
      | (Some g, r) \<Rightarrow> tail_result (st + 4) (parsed[2 := Some g]) r)"

lemma validate_loop_get_part:
  assumes st: "st \<in> {112, 120 :: cchar}" and wf: "\<forall>nd\<in>set ns. node_wf nd"
    and hd: "ns = [] \<or> st = 120 \<or> \<not> is_word [''NX'', ''XX''] (hd ns)"
  shows "validate_loop st parsed ns = Ret (get_result st parsed ns)"
proof (cases "ns = [] \<or> \<not> is_word [''NX'', ''XX'', ''GET''] (hd ns)")
  case True
  moreover from True have "take_opt (is_word [''GET'']) ns = (None, ns)"
    by (auto simp: take_opt_def is_word_split split: list.splits)
  ultimately show ?thesis using st wf validate_loop_tail [of st ns parsed] by (auto simp: get_result_def)
next
  case False
  then obtain nd rest where ns: "ns = nd # rest" by (cases ns) auto
  show ?thesis
  proof (cases "is_word [''GET''] nd")
    case True
    with st wf ns validate_loop_get [of st nd parsed rest] show ?thesis
      by (auto simp: get_result_def take_opt_def option_bits validate_loop_after_get)
  next
    case False
    with \<open>\<not> (ns = [] \<or> \<not> is_word [''NX'', ''XX'', ''GET''] (hd ns))\<close> ns
    have nx: "is_word [''NX'', ''XX''] nd" by (simp add: is_word_split)
    with hd ns st validate_loop_nxxx [of st nd parsed rest] False
      tail_result_word [of ns st parsed] show ?thesis
      by (auto simp: get_result_def take_opt_def option_bits is_word_split)
  qed
qed

lemma validate_set_cmd_grammar:
  assumes wf: "\<forall>nd\<in>set ns. node_wf nd"
  shows "validate_set_cmd ns = Ret (map_option (\<lambda>rq. (rq_state rq, rq_slots rq)) (set_grammar ns))"
proof (cases "\<exists>k v opts. ns = k # v # opts \<and> is_bulk k \<and> is_bulk v")
  case True
  then obtain k v opts where ns: "ns = k # v # opts" and kv: "is_bulk k" "is_bulk v" by blast
  let ?p = "[None, None, None, None, Some v, Some k]"
  have a: "set_cmd_stage_a ns (replicate 6 None) = Ret (112, ?p, opts)"
    using ns kv by (cases k; cases v) (simp_all add: set_cmd_stage_a_def numeral_eq_Suc)
  have "validate_loop 112 ?p opts = Ret (case take_opt (is_word [''NX'', ''XX'']) opts of
      (None, r) \<Rightarrow> get_result 112 ?p r
    | (Some x, r) \<Rightarrow> get_result 120 (?p[3 := Some x]) r)"
  proof (cases "opts = [] \<or> \<not> is_word [''NX'', ''XX''] (hd opts)")
    case True
    then show ?thesis
      using wf ns validate_loop_get_part [of 112 opts ?p]
      by (auto simp: take_opt_def split: list.splits)
  next
    case False
    then obtain x r where o: "opts = x # r" "is_word [''NX'', ''XX''] x" by (cases opts) auto
    then show ?thesis
      using wf ns validate_loop_nxxx [of 112 x ?p r] validate_loop_get_part [of 120 r "?p[3 := Some x]"]
      by (auto simp: take_opt_def option_bits)
  qed
  with a ns kv show ?thesis
    by (auto simp: validate_set_cmd_def set_grammar_def get_result_def tail_result_def rq_state_def
        rq_slots_def numeral_eq_Suc option.map_comp intro!: option.map_cong split: prod.splits option.splits)
next
  case False
  then have "set_grammar ns = None"
    by (auto simp: set_grammar_def split: list.splits)
  moreover have "validate_set_cmd ns = Ret None"
  proof (cases ns)
    case (Cons k rest)
    with False wf show ?thesis
      by (cases k; cases rest; cases "hd rest") (auto simp: validate_set_cmd_def set_cmd_stage_a_def)
  qed (simp add: validate_set_cmd_def)
  ultimately show ?thesis by simp
qed

section \<open>Properties\<close>

definition arg :: "string \<Rightarrow> node" where
  "arg b = BulkStringNode (Some b) (int (length b))"

lemma arg_wf [simp]: "node_wf (arg b) \<longleftrightarrow> int (length b) \<le> PROTO_MAX_BULK_SIZE"
  by (simp add: arg_def)

lemma arg_words [simp]:
  "is_bulk (arg b)" "is_word ws (arg b) = (cstr b \<in> set ws)" "is_number (arg b) = (b \<noteq> [] \<and> list_all is_digit b)"
  by (simp_all add: arg_def)

text \<open>C8. The bit-mask parser accepts exactly the SET grammar: on any well-formed argument list it fails
  iff the grammar fails, and otherwise its state byte and its six slots encode the parsed request. In
  particular options may only come in the order NX|XX, GET, expiry, each at most once.\<close>

theorem set_parser_is_grammar:
  assumes "\<forall>nd\<in>set ns. node_wf nd"
  shows "validate_set_cmd ns = Ret (map_option (\<lambda>rq. (rq_state rq, rq_slots rq)) (set_grammar ns))"
  using assms by (rule validate_set_cmd_grammar)

theorem set_parser_is_grammar_witness:
  "validate_set_cmd [arg ''k'', arg ''v'', arg ''NX'', arg ''EX'', arg ''10''] =
     Ret (Some (SET_NXXX_EXPX, [Some (arg ''10''), Some (arg ''EX''), None, Some (arg ''NX''),
       Some (arg ''v''), Some (arg ''k'')])) \<and>
   validate_set_cmd [arg ''k'', arg ''v'', arg ''GET'', arg ''NX''] = Ret None"
  using set_parser_is_grammar [of "[arg ''k'', arg ''v'', arg ''NX'', arg ''EX'', arg ''10'']"]
    set_parser_is_grammar [of "[arg ''k'', arg ''v'', arg ''GET'', arg ''NX'']"]
  by (simp add: PROTO_MAX_BULK_SIZE_def set_grammar_def take_opt_def expiry_part_def rq_state_def
      rq_slots_def SET_NXXX_EXPX_def is_digit_def cstr_def)

end
