(* ===== verification/Store.thy ===== *)
theory Store
  imports Key_Value
begin

text \<open>
  The data map of the server as an abstract store: \<open>db_rep sm d\<close> says that the \<^verbatim>\<open>SimpleMap\<close> of key and
  value nodes represents the finite map \<open>d\<close> from key bytes to entries (value bytes, time of the last
  SET, expiry). The lemmas lift the map operations of \<^verbatim>\<open>simple_map.c\<close>, used with the callback
  \<^verbatim>\<open>compare\<close>, to this view; the command handlers are specified against it.
\<close>

section \<open>Entries\<close>

record entry =
  en_value :: string
  en_time :: timespec
  en_ex :: uint
  en_px :: uint

type_synonym db = "string \<rightharpoonup> entry"

definition entry_of :: "KeyNode \<times> ValueNode option \<Rightarrow> entry" where
  "entry_of e =
     \<lparr>en_value = (case snd e of None \<Rightarrow> [] | Some v \<Rightarrow> value_bytes v),
      en_time = (case kn_input_time (fst e) of None \<Rightarrow> Timespec 0 0 | Some t \<Rightarrow> t),
      en_ex = kn_ex (fst e), en_px = kn_px (fst e)\<rparr>"

definition values_ok :: "(string \<rightharpoonup> KeyNode \<times> ValueNode option) \<Rightarrow> bool" where
  "values_ok m \<longleftrightarrow> (\<forall>x k v. m x = Some (k, v) \<longrightarrow>
     key_ok k \<and> key_bytes k = x \<and> (\<exists>w. v = Some w \<and> value_ok w))"

definition db_rep :: "data_map \<Rightarrow> db \<Rightarrow> bool" where
  "db_rep sm d \<longleftrightarrow> (\<exists>m. data_rep sm m \<and> values_ok m \<and> d = (\<lambda>x. map_option entry_of (m x)))"

text \<open>Expiry of an entry at a clock reading: the test of \<^verbatim>\<open>has_key_expired\<close>.\<close>

definition expired :: "timespec \<Rightarrow> entry \<Rightarrow> bool" where
  "expired now e \<longleftrightarrow>
     (let delta_sec = fl 24 (ts_float now - ts_float (en_time e)) in
      if en_ex e = 0 \<and> en_px e = 0 then False
      else if en_ex e \<noteq> 0 then delta_sec > fl 24 (of_nat (unat (en_ex e)))
      else fl 24 (delta_sec * 1000) > fl 24 (of_nat (unat (en_px e))))"

lemma has_key_expired_entry:
  "kn_input_time n = Some now \<Longrightarrow> key_ok k \<Longrightarrow> has_key_expired n k = Ret (expired now (entry_of (k, v)))"
  by (auto simp: has_key_expired_def expired_def entry_of_def key_ok_def Let_def split: option.splits)

section \<open>The map operations on the store\<close>

lemma db_rep_create: "db_rep create_simple_map Map.empty"
  using sm_map_create by (auto simp: db_rep_def values_ok_def intro!: exI [of _ Map.empty])

lemma db_repE:
  assumes "db_rep sm d"
  obtains m where "data_rep sm m" "values_ok m" "d = (\<lambda>x. map_option entry_of (m x))"
  using assms by (auto simp: db_rep_def)

lemma db_arrays: "db_rep sm d \<Longrightarrow> keys sm \<noteq> None \<and> vals sm \<noteq> None"
  by (auto simp: db_rep_def sm_map_def sm_rep_def)

lemma values_ok_upd:
  "values_ok m \<Longrightarrow> key_ok k \<Longrightarrow> value_ok v \<Longrightarrow> values_ok (m(key_bytes k \<mapsto> (k, Some v)))"
  by (auto simp: values_ok_def)

lemma entry_upd:
  "(\<lambda>x. map_option entry_of ((m(y \<mapsto> e)) x)) = (\<lambda>x. map_option entry_of (m x))(y \<mapsto> entry_of e)"
  by auto

lemma values_okE:
  assumes "values_ok m" "m x = Some (k, v)"
  obtains w where "v = Some w" "key_ok k" "key_bytes k = x" "value_ok w"
  using assms unfolding values_ok_def by meson

lemma db_rep_upd:
  assumes "data_rep sm' (m(key_bytes k \<mapsto> (k, Some v)))" "values_ok m" "key_ok k" "value_ok v"
  shows "db_rep sm' ((\<lambda>x. map_option entry_of (m x))(key_bytes k \<mapsto> entry_of (k, Some v)))"
  unfolding db_rep_def entry_upd [symmetric] using assms(1) values_ok_upd [OF assms(2-4)] by blast

text \<open>Lookup: nothing, or the stored pair, whose entry is the one of the store.\<close>

lemma db_get_None:
  assumes "db_rep sm d" "key_ok k" "d (key_bytes k) = None"
  shows "sm_get (Some sm) (Some k) (Some compare) = Ret None"
  using assms by (elim db_repE) (auto simp: data.get_refines)

lemma db_get_Some:
  assumes "db_rep sm d" "key_ok k" "d (key_bytes k) = Some e"
  obtains k' w where "sm_get (Some sm) (Some k) (Some compare) =
      Ret (Some \<lparr>kvp_key = Some k', kvp_value = Some w\<rparr>)"
    "key_ok k'" "key_bytes k' = key_bytes k" "value_ok w" "e = entry_of (k', Some w)"
proof -
  from assms(1) obtain m where m: "data_rep sm m" "values_ok m" "d = (\<lambda>x. map_option entry_of (m x))"
    by (rule db_repE)
  with assms(3) obtain k' v where kv: "m (key_bytes k) = Some (k', v)" "e = entry_of (k', v)" by auto
  from m(2) kv(1) obtain w where "v = Some w" "key_ok k'" "key_bytes k' = key_bytes k" "value_ok w"
    by (rule values_okE)
  with that data.get_refines [OF m(1) assms(2)] kv show ?thesis by simp
qed

text \<open>Insertion: the new entry replaces the old one, and the pair receives what was stored before.\<close>

lemma db_set_old:
  assumes "db_rep sm d" "key_ok k" "value_ok v" "d (key_bytes k) = Some e"
  obtains sm' k' w where "sm_set al (Some sm) (Some \<lparr>kvp_key = Some k, kvp_value = Some v\<rparr>) (Some compare) =
      Ret (SUCESS_UPGRADE, Some sm', Some \<lparr>kvp_key = Some k', kvp_value = Some w\<rparr>)"
    "db_rep sm' (d(key_bytes k \<mapsto> entry_of (k, Some v)))" "capacity sm' = capacity sm"
    "key_ok k'" "value_ok w" "e = entry_of (k', Some w)"
proof -
  from assms(1) obtain m where m: "data_rep sm m" "values_ok m" "d = (\<lambda>x. map_option entry_of (m x))"
    by (rule db_repE)
  with assms(4) obtain k' v' where kv: "m (key_bytes k) = Some (k', v')" "e = entry_of (k', v')" by auto
  from m(2) kv(1) obtain w where w: "v' = Some w" "key_ok k'" "key_bytes k' = key_bytes k" "value_ok w"
    by (rule values_okE)
  from data.set_refines_upgrade [OF m(1) assms(2) kv(1), of al "Some v"] obtain sm' where
    "sm_set al (Some sm) (Some \<lparr>kvp_key = Some k, kvp_value = Some v\<rparr>) (Some compare) =
      Ret (SUCESS_UPGRADE, Some sm', Some \<lparr>kvp_key = Some k', kvp_value = v'\<rparr>)"
    "data_rep sm' (m(key_bytes k \<mapsto> (k, Some v)))" "capacity sm' = capacity sm" by blast
  with that w kv m(3) db_rep_upd [OF _ m(2) assms(2,3)] show ?thesis by simp
qed

lemma db_set_new:
  assumes "db_rep sm d" "key_ok k" "value_ok v" "d (key_bytes k) = None"
    "2 * capacity sm \<le> INT_MAX" "realloc_keys al" "realloc_values al"
  obtains sm' where "sm_set al (Some sm) (Some \<lparr>kvp_key = Some k, kvp_value = Some v\<rparr>) (Some compare) =
      Ret (SUCESS_SET, Some sm', Some \<lparr>kvp_key = Some k, kvp_value = Some v\<rparr>)"
    "db_rep sm' (d(key_bytes k \<mapsto> entry_of (k, Some v)))" "capacity sm' \<le> max (capacity sm) (2 * int (card (dom d)))"
proof -
  from assms(1) obtain m where m: "data_rep sm m" "values_ok m" "d = (\<lambda>x. map_option entry_of (m x))"
    by (rule db_repE)
  with assms(4) have "m (key_bytes k) = None" by simp
  from data.set_refines_new [OF m(1) assms(2) this assms(5-7), of "Some v"] obtain sm' where
    "sm_set al (Some sm) (Some \<lparr>kvp_key = Some k, kvp_value = Some v\<rparr>) (Some compare) =
      Ret (SUCESS_SET, Some sm', Some \<lparr>kvp_key = Some k, kvp_value = Some v\<rparr>)"
    "data_rep sm' (m(key_bytes k \<mapsto> (k, Some v)))"
    "capacity sm' \<le> max (capacity sm) (2 * int (card (dom m)))" by blast
  moreover have "dom d = dom m" using m(3) by auto
  ultimately show ?thesis using that m(3) db_rep_upd [OF _ m(2) assms(2,3)] by simp
qed

lemma db_remove:
  assumes "db_rep sm d" "key_ok k" "d (key_bytes k) = Some e"
  obtains sm' k' w where "remove_key (Some sm) (Some k) (Some compare) (Some rmv) =
      Ret (REMOVE_SUCCESS, Some sm', Some \<lparr>kvp_key = Some k', kvp_value = Some w\<rparr>)"
    "db_rep sm' (d(key_bytes k := None))" "capacity sm' = capacity sm"
    "key_ok k'" "value_ok w" "e = entry_of (k', Some w)"
proof -
  from assms(1) obtain m where m: "data_rep sm m" "values_ok m" "d = (\<lambda>x. map_option entry_of (m x))"
    by (rule db_repE)
  with assms(3) obtain k' v' where kv: "m (key_bytes k) = Some (k', v')" "e = entry_of (k', v')" by auto
  from m(2) kv(1) obtain w where w: "v' = Some w" "key_ok k'" "key_bytes k' = key_bytes k" "value_ok w"
    by (rule values_okE)
  from data.remove_refines [OF m(1) assms(2) kv(1), of rmv] obtain sm' where
    sm': "remove_key (Some sm) (Some k) (Some compare) (Some rmv) =
      Ret (REMOVE_SUCCESS, Some sm', Some \<lparr>kvp_key = Some k', kvp_value = v'\<rparr>)"
    "data_rep sm' (m(key_bytes k := None))" "capacity sm' = capacity sm" by blast
  have "values_ok (m(key_bytes k := None))" using m(2) by (auto simp: values_ok_def)
  moreover have "d(key_bytes k := None) = (\<lambda>x. map_option entry_of ((m(key_bytes k := None)) x))"
    using m(3) by auto
  ultimately have "db_rep sm' (d(key_bytes k := None))" using sm'(2) unfolding db_rep_def by blast
  with that sm' w kv show ?thesis by blast
qed

end
