(* ===== verification/Set_Exec.thy ===== *)
theory Set_Exec
  imports Set_Parser Store
begin

text \<open>
  Execution of SET in \<^verbatim>\<open>src/src/cmd_handler.c\<close>: one definition per \<^verbatim>\<open>execute_set_*\<close> function, the
  dispatch on the parser state, and \<^verbatim>\<open>handle_set_cmd\<close>. Each returns the reply (\<open>None\<close> for NULL), the
  data map after the call, and the pairs handed to \<^verbatim>\<open>clean_up_kv\<close>, in order. \<open>set_spec\<close> is what SET
  promises of the abstract store.
\<close>

section \<open>Operations\<close>

type_synonym cleaned = "(KeyNode option \<times> ValueNode option) list"
type_synonym exec_result = "string option \<times> data_map \<times> cleaned"

definition RESP_OK :: string where "RESP_OK = ''+OK'' @ CRLF"
definition RESP_NIL :: string where "RESP_NIL = ''$-1'' @ CRLF"

text \<open>The members of a node that the code takes to be a \<^verbatim>\<open>BulkStringNode\<close>.\<close>

fun as_bulk :: "node \<Rightarrow> (string option \<times> int) outcome" where
  "as_bulk (BulkStringNode c sz) = Ret (c, sz)"
| "as_bulk _ = UB"

definition execute_set_check :: "data_map \<Rightarrow> data_pair option \<Rightarrow> bool \<times> cleaned" where
  "execute_set_check sm kvpp =
     (case kvpp of
        None \<Rightarrow> (False, [])
      | Some kvp \<Rightarrow>
          (case kvp_key kvp of
             None \<Rightarrow> (False, [(None, kvp_value kvp)])
           | Some key \<Rightarrow>
               if kvp_value kvp = None \<or> vals sm = None \<or> keys sm = None \<or> kn_content key = None
               then (False, [(Some key, kvp_value kvp)])
               else (True, [])))"

text \<open>\<^verbatim>\<open>set(sm,kvp,&compare)\<close> on a non-NULL map and pair.\<close>

definition set_pair :: "alloc \<Rightarrow> data_map \<Rightarrow> data_pair \<Rightarrow>
    (SetKeyValueRtn \<times> data_map \<times> data_pair) outcome" where
  "set_pair al sm kvp =
     obind (sm_set al (Some sm) (Some kvp) (Some compare)) (\<lambda>(rtn, smp, kvpp).
       case (smp, kvpp) of (Some sm', Some kvp') \<Rightarrow> Ret (rtn, sm', kvp') | _ \<Rightarrow> UB)"

definition pair_of :: "data_pair \<Rightarrow> KeyNode option \<times> ValueNode option" where
  "pair_of kvp = (kvp_key kvp, kvp_value kvp)"

definition execute_set_basic :: "alloc \<Rightarrow> data_map \<Rightarrow> data_pair option \<Rightarrow> exec_result outcome" where
  "execute_set_basic al sm kvpp =
     (case (execute_set_check sm kvpp, kvpp) of
        ((True, _), Some kvp) \<Rightarrow>
          obind (set_pair al sm kvp) (\<lambda>(rtn, sm', kvp').
            Ret (case rtn of
                   ERROR_SET_SM_RTN \<Rightarrow> (Some [], sm', [pair_of kvp'])
                 | SUCESS_SET \<Rightarrow> (Some RESP_OK, sm', [])
                 | SUCESS_UPGRADE \<Rightarrow> (Some RESP_OK, sm', [pair_of kvp'])))
      | ((_, freed), _) \<Rightarrow> Ret (None, sm, freed))"

text \<open>The RESP text of a stored value: nil unless it is a bulk string with a content.\<close>

definition old_value_text :: "ValueNode \<Rightarrow> string option outcome" where
  "old_value_text v =
     (if vn_dtype v = BULK_STR \<and> vn_content v \<noteq> None
      then obind (key_or_value_node_to_string (Some (TYPE_VALUE_NODE v))) (\<lambda>(n, txt). Ret txt)
      else Ret (Some RESP_NIL))"

definition execute_set_get :: "alloc \<Rightarrow> data_map \<Rightarrow> data_pair option \<Rightarrow> exec_result outcome" where
  "execute_set_get al sm kvpp =
     (case (execute_set_check sm kvpp, kvpp) of
        ((True, _), Some kvp) \<Rightarrow>
          obind (set_pair al sm kvp) (\<lambda>(rtn, sm', kvp').
            case rtn of
              ERROR_SET_SM_RTN \<Rightarrow> Ret (None, sm', [pair_of kvp'])
            | SUCESS_SET \<Rightarrow> Ret (Some RESP_NIL, sm', [])
            | SUCESS_UPGRADE \<Rightarrow>
                (case kvp_value kvp' of
                   None \<Rightarrow> Ret (Some RESP_NIL, sm', [pair_of kvp'])
                 | Some old_value \<Rightarrow>
                     obind (old_value_text old_value) (\<lambda>txt. Ret (txt, sm', [pair_of kvp']))))
      | ((_, freed), _) \<Rightarrow> Ret (None, sm, freed))"

text \<open>\<^verbatim>\<open>execute_set_nx_xx\<close>; \<open>parsed ! 3\<close> is \<^verbatim>\<open>parsed_cmd[3]\<close>.\<close>

definition execute_set_nx_xx :: "alloc \<Rightarrow> data_map \<Rightarrow> data_pair option \<Rightarrow> parsed_cmd \<Rightarrow>
    exec_result outcome" where
  "execute_set_nx_xx al sm kvpp parsed =
     (case (execute_set_check sm kvpp, kvpp, parsed ! 3) of
        ((True, _), Some kvp, Some nx_xx) \<Rightarrow>
          obind (as_bulk nx_xx) (\<lambda>(optn, _).
          case optn of
            None \<Rightarrow> Ret (None, sm, [pair_of kvp])
          | Some opt \<Rightarrow>
              if \<not> strcmp_eq opt ''NX'' \<and> \<not> strcmp_eq opt ''XX'' then Ret (None, sm, [pair_of kvp])
              else
                obind (sm_get (Some sm) (kvp_key kvp) (Some compare)) (\<lambda>old_kvp.
                if strcmp_eq opt ''NX'' then
                  (if old_kvp = None then
                     obind (set_pair al sm kvp) (\<lambda>(rtn, sm', kvp').
                       Ret (if rtn = SUCESS_SET then (Some RESP_OK, sm', [])
                            else (Some RESP_NIL, sm', [])))
                   else Ret (Some RESP_NIL, sm, [pair_of kvp]))
                else
                  (if old_kvp \<noteq> None then
                     obind (set_pair al sm kvp) (\<lambda>(rtn, sm', kvp').
                       Ret (if rtn = SUCESS_UPGRADE then (Some RESP_OK, sm', [pair_of kvp'])
                            else (Some RESP_NIL, sm', [])))
                   else Ret (Some RESP_NIL, sm, [pair_of kvp]))))
      | ((_, freed), _, _) \<Rightarrow> Ret (None, sm, freed))"

text \<open>\<^verbatim>\<open>execute_set_nxxx_get\<close>: the old value is printed first, then \<^verbatim>\<open>execute_set_nx_xx\<close> decides.\<close>

definition execute_set_nxxx_get :: "alloc \<Rightarrow> data_map \<Rightarrow> data_pair option \<Rightarrow> parsed_cmd \<Rightarrow>
    exec_result outcome" where
  "execute_set_nxxx_get al sm kvpp parsed =
     (case (execute_set_check sm kvpp, kvpp) of
        ((True, _), Some kvp) \<Rightarrow>
          if parsed ! 3 = None then Ret (None, sm, [pair_of kvp])
          else
            obind (sm_get (Some sm) (kvp_key kvp) (Some compare)) (\<lambda>kvp_old.
            let run = (\<lambda>rtn_val. obind (execute_set_nx_xx al sm kvpp parsed) (\<lambda>(rtn, sm', freed).
                        Ret (if rtn \<noteq> None then rtn_val else None, sm', freed)))
            in case kvp_old of
                 None \<Rightarrow> run (Some RESP_NIL)
               | Some old \<Rightarrow>
                   (case (kvp_key old, kvp_value old) of
                      (Some k, Some v) \<Rightarrow>
                        if kn_content k = None then Ret (None, sm, [pair_of kvp])
                        else obind (old_value_text v) run
                    | _ \<Rightarrow> Ret (None, sm, [pair_of kvp])))
      | ((_, freed), _) \<Rightarrow> Ret (None, sm, freed))"

text \<open>\<^verbatim>\<open>execute_set_ex_px_exat_pxat\<close>: the expiry is stored in the key, then the pair is set.\<close>

definition execute_set_ex_px_exat_pxat :: "alloc \<Rightarrow> data_map \<Rightarrow> data_pair option \<Rightarrow> parsed_cmd \<Rightarrow>
    exec_result outcome" where
  "execute_set_ex_px_exat_pxat al sm kvpp parsed =
     (case (execute_set_check sm kvpp, kvpp, parsed ! 1, parsed ! 0) of
        ((True, _), Some kvp, Some option_nd, Some time_nd) \<Rightarrow>
          obind (as_bulk option_nd) (\<lambda>(opt, _). obind (as_bulk time_nd) (\<lambda>(tm, _).
          case (kvp_key kvp, tm) of
            (Some key, Some digits) \<Rightarrow>
              (let time = string_to_uint digits in
               obind (get_option_type opt) (\<lambda>ty.
               if ty \<in> {OPTION_EX, OPTION_EXAT}
               then execute_set_basic al sm (Some (kvp\<lparr>kvp_key := Some (key\<lparr>kn_ex := time\<rparr>)\<rparr>))
               else if ty \<in> {OPTION_PX, OPTION_PXAT}
               then execute_set_basic al sm (Some (kvp\<lparr>kvp_key := Some (key\<lparr>kn_px := time\<rparr>)\<rparr>))
               else Ret (None, sm, [pair_of kvp])))
          | _ \<Rightarrow> UB))
      | ((_, freed), _, _, _) \<Rightarrow> Ret (None, sm, freed))"

definition execute_set_cmd :: "env \<Rightarrow> cchar \<Rightarrow> parsed_cmd \<Rightarrow> data_map \<Rightarrow> exec_result outcome" where
  "execute_set_cmd e st parsed sm =
     (case (parsed ! 5, parsed ! 4) of
        (Some k, Some v) \<Rightarrow>
          obind (as_bulk k) (\<lambda>(content, sz).
          obind (create_key_node (env_now e) content 0 0 sz) (\<lambda>keyp.
          case keyp of
            None \<Rightarrow> Ret (None, sm, [])
          | Some key \<Rightarrow>
              obind (create_value_node (Some v)) (\<lambda>valuep.
              case valuep of
                None \<Rightarrow> Ret (None, sm, [(Some key, None)])
              | Some value \<Rightarrow>
                  (let kvp = create_key_val_pair (Some key) (Some value); al = env_alloc e in
                   if st = SET_BASIC then execute_set_basic al sm kvp
                   else if st = SET_GET then execute_set_get al sm kvp
                   else if st = SET_NXXX then execute_set_nx_xx al sm kvp parsed
                   else if st = SET_NXXX_GET then execute_set_nxxx_get al sm kvp parsed
                   else if st = SET_EX_PX_EXAL_PXAT then execute_set_ex_px_exat_pxat al sm kvp parsed
                   else Ret (None, sm, [])))))
      | _ \<Rightarrow> Ret (None, sm, []))"

definition handle_set_cmd :: "env \<Rightarrow> node list \<Rightarrow> data_map \<Rightarrow> exec_result outcome" where
  "handle_set_cmd e nodep sm =
     obind (validate_set_cmd nodep) (\<lambda>r.
       case r of
         None \<Rightarrow> Ret (None, sm, [])
       | Some (st, parsed) \<Rightarrow> execute_set_cmd e st parsed sm)"

section \<open>What SET promises\<close>

fun node_text :: "node \<Rightarrow> string" where
  "node_text (BulkStringNode (Some b) sz) = b"
| "node_text _ = []"

definition new_entry :: "timespec \<Rightarrow> string \<Rightarrow> uint \<Rightarrow> uint \<Rightarrow> entry" where
  "new_entry now v ex px = \<lparr>en_value = v, en_time = now, en_ex = ex, en_px = px\<rparr>"

definition old_reply :: "db \<Rightarrow> string \<Rightarrow> string" where
  "old_reply d k = (case d k of None \<Rightarrow> RESP_NIL | Some e \<Rightarrow> bulk (en_value e))"

text \<open>NX asks for an absent key, XX for a present one.\<close>

definition allowed :: "node \<Rightarrow> db \<Rightarrow> string \<Rightarrow> bool" where
  "allowed opt d k \<longleftrightarrow> (cstr (node_text opt) = ''NX'') = (d k = None)"

definition set_spec :: "timespec \<Rightarrow> set_request \<Rightarrow> db \<Rightarrow> string option \<times> db" where
  "set_spec now rq d =
     (let k = node_text (rq_key rq); v = node_text (rq_value rq);
          d' = d(k \<mapsto> new_entry now v 0 0)
      in if k = [] \<or> v = [] then (None, d)
         else
           (case (rq_nxxx rq, rq_get rq, rq_expiry rq) of
              (None, None, None) \<Rightarrow> (Some RESP_OK, d')
            | (None, Some _, None) \<Rightarrow> (Some (old_reply d k), d')
            | (Some opt, None, None) \<Rightarrow>
                if allowed opt d k then (Some RESP_OK, d') else (Some RESP_NIL, d)
            | (Some opt, Some _, None) \<Rightarrow>
                (Some (old_reply d k), if allowed opt d k then d' else d)
            | (None, None, Some (opt, t)) \<Rightarrow>
                (let time = of_nat (digits_val (node_text t)) in
                 (Some RESP_OK,
                  d(k \<mapsto> if cstr (node_text opt) \<in> {''EX'', ''EXAT''} then new_entry now v time 0
                         else new_entry now v 0 time)))
            | _ \<Rightarrow> (None, d)))"

section \<open>Refinement\<close>

text \<open>\<open>leads_to r sm d reply d'\<close>: run on a map that represents \<open>d\<close>, the call returns \<open>reply\<close> and a map
  that represents \<open>d'\<close>; the arrays grow only when all their cells are used.\<close>

definition leads_to :: "exec_result outcome \<Rightarrow> data_map \<Rightarrow> db \<Rightarrow> string option \<Rightarrow> db \<Rightarrow> bool" where
  "leads_to r sm d reply d' \<longleftrightarrow>
     (\<exists>sm' freed. r = Ret (reply, sm', freed) \<and> db_rep sm' d' \<and> capacity sm' \<le> max (capacity sm) (2 * int (card (dom d))))"

text \<open>The conditions under which an insertion cannot fail.\<close>

definition room :: "alloc \<Rightarrow> data_map \<Rightarrow> bool" where
  "room al sm \<longleftrightarrow> 2 * capacity sm \<le> INT_MAX \<and> realloc_keys al \<and> realloc_values al"

abbreviation pair :: "KeyNode \<Rightarrow> ValueNode \<Rightarrow> data_pair" where
  "pair k v \<equiv> \<lparr>kvp_key = Some k, kvp_value = Some v\<rparr>"

lemma db_capacity: "db_rep sm d \<Longrightarrow> 0 < capacity sm"
  by (auto simp: db_rep_def sm_map_def dest: sm_rep_capacity)

lemma leads_to_same: "db_rep sm d \<Longrightarrow> leads_to (Ret (reply, sm, freed)) sm d reply d"
  using db_capacity [of sm d] by (simp add: leads_to_def)

lemma check_ok: "db_rep sm d \<Longrightarrow> key_ok k \<Longrightarrow> execute_set_check sm (Some (pair k v)) = (True, [])"
  using db_arrays [of sm d] by (auto simp: execute_set_check_def key_ok_def split: option.splits)

lemma set_pair_db:
  assumes "db_rep sm d" "key_ok k" "value_ok v" "room al sm"
  shows "\<exists>rtn sm' kvp'. set_pair al sm (pair k v) = Ret (rtn, sm', kvp') \<and>
    db_rep sm' (d(key_bytes k \<mapsto> entry_of (k, Some v))) \<and> capacity sm' \<le> max (capacity sm) (2 * int (card (dom d))) \<and>
    (case d (key_bytes k) of
       None \<Rightarrow> rtn = SUCESS_SET
     | Some e \<Rightarrow> rtn = SUCESS_UPGRADE \<and>
         (\<exists>k' w. kvp' = pair k' w \<and> value_ok w \<and> e = entry_of (k', Some w)))"
proof (cases "d (key_bytes k)")
  case None
  from assms(4) have r: "2 * capacity sm \<le> INT_MAX" "realloc_keys al" "realloc_values al"
    by (simp_all add: room_def)
  show ?thesis by (rule db_set_new [OF assms(1-3) None r]) (simp add: set_pair_def None)
next
  case (Some e)
  show ?thesis
    by (rule db_set_old [OF assms(1-3) Some, of al])
      (use db_capacity [OF assms(1)] in \<open>simp add: set_pair_def Some\<close>)
qed

lemma en_value_entry_of [simp]: "en_value (entry_of (k, Some w)) = value_bytes w"
  by (simp add: entry_of_def)

lemma old_value_text_ok: "value_ok w \<Longrightarrow> old_value_text w = Ret (Some (bulk (value_bytes w)))"
  using value_node_to_string [of w]
  by (auto simp: old_value_text_def value_ok_def text_value_def split: option.splits)

lemma execute_set_basic_db:
  assumes "db_rep sm d" "key_ok k" "value_ok v" "room al sm"
  shows "leads_to (execute_set_basic al sm (Some (pair k v))) sm d (Some RESP_OK)
    (d(key_bytes k \<mapsto> entry_of (k, Some v)))"
  using set_pair_db [OF assms] check_ok [OF assms(1,2), of v]
  by (cases "d (key_bytes k)") (auto simp: execute_set_basic_def leads_to_def)

lemma execute_set_get_db:
  assumes "db_rep sm d" "key_ok k" "value_ok v" "room al sm"
  shows "leads_to (execute_set_get al sm (Some (pair k v))) sm d (Some (old_reply d (key_bytes k)))
    (d(key_bytes k \<mapsto> entry_of (k, Some v)))"
  using set_pair_db [OF assms] check_ok [OF assms(1,2), of v]
  by (cases "d (key_bytes k)")
    (auto simp: execute_set_get_def leads_to_def old_reply_def old_value_text_ok)

lemma db_get_none_iff:
  assumes "db_rep sm d" "key_ok k"
  shows "\<exists>r. sm_get (Some sm) (Some k) (Some compare) = Ret r \<and> (r = None) = (d (key_bytes k) = None)"
  using db_get_None [OF assms] db_get_Some [OF assms] by (cases "d (key_bytes k)") fastforce+

lemma execute_set_nx_xx_db:
  assumes "db_rep sm d" "key_ok k" "value_ok v" "room al sm"
    "parsed ! 3 = Some opt" "is_word [''NX'', ''XX''] opt"
  shows "leads_to (execute_set_nx_xx al sm (Some (pair k v)) parsed) sm d
    (Some (if allowed opt d (key_bytes k) then RESP_OK else RESP_NIL))
    (if allowed opt d (key_bytes k) then d(key_bytes k \<mapsto> entry_of (k, Some v)) else d)"
proof -
  obtain b sz where o: "opt = BulkStringNode (Some b) sz" "cstr b \<in> {''NX'', ''XX''}"
    using word_bulk [OF assms(6)] by auto
  obtain r where r: "sm_get (Some sm) (Some k) (Some compare) = Ret r" "(r = None) = (d (key_bytes k) = None)"
    using db_get_none_iff [OF assms(1,2)] by (elim exE conjE)
  obtain rtn sm' kvp' where set: "set_pair al sm (pair k v) = Ret (rtn, sm', kvp')"
    "db_rep sm' (d(key_bytes k \<mapsto> entry_of (k, Some v)))" "capacity sm' \<le> max (capacity sm) (2 * int (card (dom d)))"
    and rtn: "rtn = (if d (key_bytes k) = None then SUCESS_SET else SUCESS_UPGRADE)"
    using set_pair_db [OF assms(1-4)] by (auto split: option.splits)
  note * = execute_set_nx_xx_def check_ok [OF assms(1,2)] assms(5) strcmp_eq_def allowed_def set(1) rtn
  from o(2) consider "cstr b = ''NX''" | "cstr b = ''XX''" by blast
  then show ?thesis
  proof cases
    case 1
    with set(2,3) r leads_to_same [OF assms(1)] show ?thesis
      by (cases "d (key_bytes k)"; cases r) (simp_all add: o(1) *, simp add: leads_to_def)
  next
    case 2
    with set(2,3) r leads_to_same [OF assms(1)] show ?thesis
      by (cases "d (key_bytes k)"; cases r) (simp_all add: o(1) *, simp add: leads_to_def)
  qed
qed

lemma execute_set_nxxx_get_db:
  assumes "db_rep sm d" "key_ok k" "value_ok v" "room al sm"
    "parsed ! 3 = Some opt" "is_word [''NX'', ''XX''] opt"
  shows "leads_to (execute_set_nxxx_get al sm (Some (pair k v)) parsed) sm d
    (Some (old_reply d (key_bytes k)))
    (if allowed opt d (key_bytes k) then d(key_bytes k \<mapsto> entry_of (k, Some v)) else d)"
proof -
  let ?d' = "if allowed opt d (key_bytes k) then d(key_bytes k \<mapsto> entry_of (k, Some v)) else d"
  obtain reply sm' freed where
    nx: "execute_set_nx_xx al sm (Some (pair k v)) parsed = Ret (Some reply, sm', freed)"
      "db_rep sm' ?d'" "capacity sm' \<le> max (capacity sm) (2 * int (card (dom d)))"
    using execute_set_nx_xx_db [OF assms] by (auto simp: leads_to_def)
  note * = execute_set_nxxx_get_def check_ok [OF assms(1,2)] assms(5) nx(1) old_reply_def
  show ?thesis
  proof (cases "d (key_bytes k)")
    case None
    with nx(2,3) db_get_None [OF assms(1,2)] show ?thesis
      by (simp add: * del: if_split) (auto simp: leads_to_def)
  next
    case (Some e)
    show ?thesis
    proof (rule db_get_Some [OF assms(1,2) Some])
      fix k' w
      assume get: "sm_get (Some sm) (Some k) (Some compare) = Ret (Some (pair k' w))"
        and w: "key_ok k'" "value_ok w" "e = entry_of (k', Some w)"
      from w(1) have "kn_content k' \<noteq> None" by (auto simp: key_ok_def split: option.splits)
      with Some get w nx(2,3) show ?thesis
        by (simp add: * old_value_text_ok del: if_split) (auto simp: leads_to_def)
    qed
  qed
qed

lemma execute_set_expiry_db:
  assumes "db_rep sm d" "key_ok k" "value_ok v" "room al sm"
    "parsed ! 1 = Some opt" "is_word [''EX'', ''PX'', ''EXAT'', ''PXAT''] opt"
    "parsed ! 0 = Some t" "is_number t"
  shows "leads_to (execute_set_ex_px_exat_pxat al sm (Some (pair k v)) parsed) sm d (Some RESP_OK)
    (d(key_bytes k \<mapsto> entry_of (
        if cstr (node_text opt) \<in> {''EX'', ''EXAT''} then k\<lparr>kn_ex := of_nat (digits_val (node_text t))\<rparr>
        else k\<lparr>kn_px := of_nat (digits_val (node_text t))\<rparr>, Some v)))"
proof -
  obtain b sz where o: "opt = BulkStringNode (Some b) sz" "cstr b \<in> {''EX'', ''PX'', ''EXAT'', ''PXAT''}"
    using word_bulk [OF assms(6)] by auto
  obtain ds sz' where t: "t = BulkStringNode (Some ds) sz'" "list_all is_digit ds"
    using assms(8) by (cases t rule: is_number.cases) auto
  have time: "string_to_uint ds = of_nat (digits_val ds)"
    using t(2) string_to_uint_digits [of ds] by (simp add: list_all_iff)
  have k: "key_ok (k\<lparr>kn_ex := x\<rparr>)" "key_ok (k\<lparr>kn_px := x\<rparr>)" "key_bytes (k\<lparr>kn_ex := x\<rparr>) = key_bytes k"
    "key_bytes (k\<lparr>kn_px := x\<rparr>) = key_bytes k" for x
    using assms(2) by (auto simp: key_ok_def key_bytes_def split: option.splits)
  show ?thesis
    using execute_set_basic_db [OF assms(1) k(1) assms(3,4)] execute_set_basic_db [OF assms(1) k(2) assms(3,4)] o(2)
    by (auto simp: execute_set_ex_px_exat_pxat_def check_ok [OF assms(1,2)] assms(5) [simplified] assms(7) o(1) t(1) time
        get_option_type_word k(3,4))
qed

text \<open>The nodes that \<^verbatim>\<open>execute_set_cmd\<close> builds from the request.\<close>

definition made_key :: "timespec \<Rightarrow> string \<Rightarrow> KeyNode" where
  "made_key now b = \<lparr>kn_content = Some b, kn_input_time = Some now, kn_ex = 0, kn_px = 0,
     kn_size = int (length b)\<rparr>"

definition made_value :: "string \<Rightarrow> ValueNode" where
  "made_value b = \<lparr>vn_content = Some b, vn_dtype = BULK_STR, vn_size = int (length b)\<rparr>"

lemma made_ok [simp]:
  "b \<noteq> [] \<Longrightarrow> key_ok (made_key now b)" "key_bytes (made_key now b) = b"
  "b \<noteq> [] \<Longrightarrow> text_value (made_value b)" "value_bytes (made_value b) = b"
  "b \<noteq> [] \<Longrightarrow> int (length b) \<le> PROTO_MAX_BULK_SIZE \<Longrightarrow> value_ok (made_value b)"
  by (simp_all add: key_ok_def key_bytes_def value_ok_def text_value_def value_bytes_def made_key_def made_value_def)

lemma made_entry:
  "entry_of (made_key now k, Some (made_value v)) = new_entry now v 0 0"
  "entry_of ((made_key now k)\<lparr>kn_ex := x\<rparr>, Some (made_value v)) = new_entry now v x 0"
  "entry_of ((made_key now k)\<lparr>kn_px := x\<rparr>, Some (made_value v)) = new_entry now v 0 x"
  by (simp_all add: entry_of_def new_entry_def made_key_def made_value_def value_bytes_def)

lemma create_nodes:
  "create_key_node now (Some b) 0 0 (int (length b)) = Ret (if b = [] then None else Some (made_key now b))"
  "create_value_node (Some (BulkStringNode (Some b) (int (length b)))) =
    Ret (if b = [] then None else Some (made_value b))"
proof -
  have "int (length b) < 1 \<longleftrightarrow> b = []" by (cases b) auto
  then show "create_key_node now (Some b) 0 0 (int (length b)) =
      Ret (if b = [] then None else Some (made_key now b))"
    "create_value_node (Some (BulkStringNode (Some b) (int (length b)))) =
      Ret (if b = [] then None else Some (made_value b))"
    by (simp_all add: create_key_node_def create_value_node_def create_value_node_string_def
        made_key_def made_value_def)
qed

lemma bulk_wf: "node_wf nd \<Longrightarrow> is_bulk nd \<Longrightarrow>
    nd = BulkStringNode (Some (node_text nd)) (int (length (node_text nd)))"
  by (cases nd) (auto split: option.splits)

lemma set_grammarD:
  assumes "set_grammar ns = Some rq"
  shows "rq_key rq \<in> set ns" "is_bulk (rq_key rq)" "rq_value rq \<in> set ns" "is_bulk (rq_value rq)"
    "rq_nxxx rq = Some opt \<Longrightarrow> is_word [''NX'', ''XX''] opt"
    "rq_expiry rq = Some (o', t) \<Longrightarrow> is_word [''EX'', ''PX'', ''EXAT'', ''PXAT''] o' \<and> is_number t"
  using assms
  by (auto simp: set_grammar_def take_opt_def expiry_part_def split: list.splits if_splits prod.splits)

lemma handle_set_cmd_invalid:
  "\<forall>nd\<in>set ns. node_wf nd \<Longrightarrow> set_grammar ns = None \<Longrightarrow> handle_set_cmd e ns sm = Ret (None, sm, [])"
  by (simp add: handle_set_cmd_def validate_set_cmd_grammar)

lemma grammar_nodes:
  assumes "\<forall>nd\<in>set ns. node_wf nd" "set_grammar ns = Some rq"
  shows "rq_key rq = BulkStringNode (Some (node_text (rq_key rq))) (int (length (node_text (rq_key rq))))"
    "rq_value rq = BulkStringNode (Some (node_text (rq_value rq))) (int (length (node_text (rq_value rq))))"
  using bulk_wf set_grammarD(1-4) [OF assms(2)] assms(1) by auto

lemma slots_nth:
  "rq_slots rq ! 5 = Some (rq_key rq)" "rq_slots rq ! 4 = Some (rq_value rq)"
  "rq_slots rq ! 3 = rq_nxxx rq" "rq_slots rq ! 1 = map_option fst (rq_expiry rq)"
  "rq_slots rq ! 0 = map_option snd (rq_expiry rq)"
  by (simp_all add: rq_slots_def numeral_eq_Suc)

lemma value_bounded:
  assumes "\<forall>nd\<in>set ns. node_wf nd" "set_grammar ns = Some rq"
  shows "int (length (node_text (rq_value rq))) \<le> PROTO_MAX_BULK_SIZE"
proof -
  have "node_wf (rq_value rq)" using assms(1) set_grammarD(3) [OF assms(2)] by blast
  with set_grammarD(4) [OF assms(2)] show ?thesis by (cases "rq_value rq") (auto split: option.splits)
qed

text \<open>On a request of the grammar, \<open>handle_set_cmd\<close> builds the pair and branches on the state.\<close>

lemma handle_set_cmd_run:
  assumes "\<forall>nd\<in>set ns. node_wf nd" "set_grammar ns = Some rq"
  shows "handle_set_cmd e ns sm =
    (let k = node_text (rq_key rq); v = node_text (rq_value rq); al = env_alloc e; parsed = rq_slots rq;
         st = rq_state rq; kvp = Some (pair (made_key (env_now e) k) (made_value v)) in
     if k = [] then Ret (None, sm, [])
     else if v = [] then Ret (None, sm, [(Some (made_key (env_now e) k), None)])
     else if st = 112 then execute_set_basic al sm kvp
     else if st = 116 then execute_set_get al sm kvp
     else if st = 120 then execute_set_nx_xx al sm kvp parsed
     else if st = 124 then execute_set_nxxx_get al sm kvp parsed
     else if st = 115 then execute_set_ex_px_exat_pxat al sm kvp parsed
     else Ret (None, sm, []))"
proof -
  let ?k = "node_text (rq_key rq)" and ?v = "node_text (rq_value rq)"
  note nodes = grammar_nodes [OF assms]
  have run: "handle_set_cmd e ns sm = execute_set_cmd e (rq_state rq) (rq_slots rq) sm"
    using assms by (simp add: handle_set_cmd_def validate_set_cmd_grammar)
  have asb: "as_bulk (rq_key rq) = Ret (Some ?k, int (length ?k))" by (subst nodes(1)) simp
  have mk: "create_value_node (Some (rq_value rq)) = Ret (if ?v = [] then None else Some (made_value ?v))"
    by (subst nodes(2)) (rule create_nodes)
  show ?thesis
    by (simp add: run execute_set_cmd_def slots_nth asb mk create_nodes create_key_val_pair_def set_states Let_def)
qed

lemma handle_set_cmd_db:
  assumes "db_rep sm d" "\<forall>nd\<in>set ns. node_wf nd" "set_grammar ns = Some rq" "room (env_alloc e) sm"
  shows "leads_to (handle_set_cmd e ns sm) sm d
    (fst (set_spec (env_now e) rq d)) (snd (set_spec (env_now e) rq d))"
proof -
  let ?k = "node_text (rq_key rq)" and ?v = "node_text (rq_value rq)"
  let ?kn = "made_key (env_now e) ?k" and ?vn = "made_value ?v"
  note g = set_grammarD [OF assms(3)]
  note run = handle_set_cmd_run [OF assms(2,3), of e sm]
  show ?thesis
  proof (cases "?k = [] \<or> ?v = []")
    case True
    with leads_to_same [OF assms(1)] show ?thesis by (auto simp: run set_spec_def Let_def)
  next
    case False
    then have ok: "key_ok ?kn" "value_ok ?vn" and ne: "?k \<noteq> []" "?v \<noteq> []"
      using value_bounded [OF assms(2,3)] by simp_all
    note ops = execute_set_basic_db [OF assms(1) ok assms(4)] execute_set_get_db [OF assms(1) ok assms(4)]
      execute_set_nx_xx_db [OF assms(1) ok assms(4) slots_nth(3) [of rq, THEN trans] g(5)]
      execute_set_nxxx_get_db [OF assms(1) ok assms(4) slots_nth(3) [of rq, THEN trans] g(5)]
    note ** = run set_spec_def rq_state_def ne Let_def
    show ?thesis
    proof (cases "rq_expiry rq")
      case None
      show ?thesis
      proof (cases "rq_nxxx rq")
        case N: None
        then show ?thesis using ops(1,2) by (cases "rq_get rq") (simp_all add: ** None made_entry)
      next
        case (Some opt)
        then show ?thesis
          using ops(3,4) [of opt]
          by (cases "rq_get rq"; cases "allowed opt d ?k") (simp_all add: ** None made_entry)
      qed
    next
      case (Some et)
      obtain opt t where et: "et = (opt, t)" by (cases et)
      with Some g(6) have ws: "is_word [''EX'', ''PX'', ''EXAT'', ''PXAT''] opt" "is_number t" by auto
      have "rq_slots rq ! 1 = Some opt" "rq_slots rq ! 0 = Some t" using slots_nth(4,5) Some et by simp_all
      note ex = execute_set_expiry_db [OF assms(1) ok assms(4) this(1) ws(1) this(2) ws(2)]
      show ?thesis
      proof (cases "rq_nxxx rq = None \<and> rq_get rq = None")
        case True
        with ex show ?thesis
          by (cases "cstr (node_text opt) \<in> {''EX'', ''EXAT''}") (simp_all add: ** Some et made_entry del: insert_iff)
      next
        case N: False
        then show ?thesis using leads_to_same [OF assms(1)]
          by (cases "rq_nxxx rq"; cases "rq_get rq") (simp_all add: ** Some et)
      qed
    qed
  qed
qed

section \<open>Properties\<close>

text \<open>C4. SET refines the abstract store, for every accepted combination of options and every previous
  content of the key: reply and new store are those of \<open>set_spec\<close> (plain SET, GET, NX, XX, NX|XX with
  GET, and expiry; the remaining combinations are refused without effect).\<close>

theorem set_refines_store:
  assumes "db_rep sm d" "\<forall>nd\<in>set ns. node_wf nd" "set_grammar ns = Some rq" "room (env_alloc e) sm"
  shows "\<exists>sm' freed. handle_set_cmd e ns sm = Ret (fst (set_spec (env_now e) rq d), sm', freed) \<and>
    db_rep sm' (snd (set_spec (env_now e) rq d)) \<and>
    capacity sm' \<le> max (capacity sm) (2 * int (card (dom d)))"
  using handle_set_cmd_db [OF assms] by (simp add: leads_to_def)

definition demo_env :: "timespec \<Rightarrow> env" where
  "demo_env t = \<lparr>env_now = t, env_alloc = alloc_ok, env_fnmatch = glob_fnmatch\<rparr>"

lemma demo_db: "db_rep demo_map [''k'' \<mapsto> new_entry (Timespec 5 0) ''v'' 3 0]"
proof -
  have "values_ok [''k'' \<mapsto> (demo_key, Some demo_value)]" by (simp add: values_ok_def demo_ok)
  moreover have "entry_of (demo_key, Some demo_value) = new_entry (Timespec 5 0) ''v'' 3 0"
    by (simp add: entry_of_def new_entry_def demo_ok) (simp add: demo_key_def)
  ultimately show ?thesis
    using demo_rep unfolding db_rep_def
    by (intro exI [of _ "[''k'' \<mapsto> (demo_key, Some demo_value)]"]) auto
qed

lemma demo_room: "room alloc_ok demo_map"
  by (simp add: room_def alloc_ok_def demo_map_def)

theorem set_refines_store_witness:
  "\<exists>sm' freed. handle_set_cmd (demo_env (Timespec 6 0)) [arg ''k'', arg ''w'', arg ''XX'', arg ''GET''] demo_map =
      Ret (Some (bulk ''v''), sm', freed) \<and> db_rep sm' [''k'' \<mapsto> new_entry (Timespec 6 0) ''w'' 0 0]"
  using set_refines_store [OF demo_db, of "[arg ''k'', arg ''w'', arg ''XX'', arg ''GET'']"
      "\<lparr>rq_key = arg ''k'', rq_value = arg ''w'', rq_nxxx = Some (arg ''XX''), rq_get = Some (arg ''GET''),
        rq_expiry = None\<rparr>" "demo_env (Timespec 6 0)"] demo_room
  by (auto simp: PROTO_MAX_BULK_SIZE_def set_grammar_def take_opt_def expiry_part_def cstr_def demo_env_def
      set_spec_def old_reply_def allowed_def new_entry_def arg_def)

end
