(* ===== verification/Get_Cmd.thy ===== *)
theory Get_Cmd
  imports Set_Exec
begin

text \<open>
  GET in \<^verbatim>\<open>src/src/cmd_handler.c\<close>: \<^verbatim>\<open>is_cmd_valid\<close> and \<^verbatim>\<open>handle_get_cmd\<close>, which removes a key whose
  expiry has passed. \<open>get_spec\<close> is what GET promises of the abstract store.
\<close>

section \<open>Operations\<close>

definition is_cmd_valid :: "node list \<Rightarrow> bool" where
  "is_cmd_valid gnode =
     (case gnode of
        [BulkStringNode content sz] \<Rightarrow> content \<noteq> None \<and> 0 \<le> sz
      | _ \<Rightarrow> False)"

definition handle_get_cmd :: "env \<Rightarrow> node list \<Rightarrow> data_map \<Rightarrow> exec_result outcome" where
  "handle_get_cmd e gnode sm =
     (if \<not> is_cmd_valid gnode then Ret (None, sm, [])
      else
        obind (as_bulk (hd gnode)) (\<lambda>(content, sz).
        obind (create_key_node (env_now e) content 0 0 sz) (\<lambda>keyp.
        case keyp of
          None \<Rightarrow> Ret (None, sm, [])
        | Some key \<Rightarrow>
            obind (sm_get (Some sm) (Some key) (Some compare)) (\<lambda>kvpp.
            case kvpp of
              None \<Rightarrow> Ret (Some RESP_NIL, sm, [(Some key, None)])
            | Some kvp \<Rightarrow>
                (case (kvp_key kvp, kvp_value kvp) of
                   (Some prev_key, Some v) \<Rightarrow>
                     obind (has_key_expired key prev_key) (\<lambda>gone.
                     if gone then
                       obind (remove_key (Some sm) (Some key) (Some compare)
                           (Some \<lparr>kvp_key = None, kvp_value = None\<rparr>)) (\<lambda>(rtn, smp, removed_kvpp).
                       case (smp, removed_kvpp) of
                         (Some sm', Some removed_kvp) \<Rightarrow>
                           Ret (case rtn of
                                  REMOVE_ERROR \<Rightarrow> (None, sm', [(Some key, None)])
                                | REMOVE_KEY_NOT_FOUND \<Rightarrow> (Some RESP_NIL, sm', [(Some key, None)])
                                | REMOVE_SUCCESS \<Rightarrow>
                                    (Some RESP_NIL, sm', [(Some key, None), pair_of removed_kvp]))
                       | _ \<Rightarrow> UB)
                     else if vn_dtype v = BULK_STR then
                       obind (key_or_value_node_to_string (Some (TYPE_VALUE_NODE v))) (\<lambda>(n, rtn).
                       Ret (rtn, sm, [(Some key, None)]))
                     else Ret (None, sm, [(Some key, None)]))
                 | _ \<Rightarrow> Ret (None, sm, [(Some key, None)]))))))"

section \<open>What GET promises\<close>

definition get_spec :: "timespec \<Rightarrow> string \<Rightarrow> db \<Rightarrow> string \<times> db" where
  "get_spec now k d =
     (case d k of
        None \<Rightarrow> (RESP_NIL, d)
      | Some en \<Rightarrow> if expired now en then (RESP_NIL, d(k := None)) else (bulk (en_value en), d))"

text \<open>The request is one non-empty bulk string.\<close>

definition get_request :: "node list \<Rightarrow> string option" where
  "get_request ns =
     (if length ns = 1 \<and> is_bulk (hd ns) \<and> node_text (hd ns) \<noteq> [] then Some (node_text (hd ns)) else None)"

lemma handle_get_cmd_invalid:
  assumes "\<forall>nd\<in>set ns. node_wf nd" "get_request ns = None"
  shows "handle_get_cmd e ns sm = Ret (None, sm, [])"
proof (cases "is_cmd_valid ns")
  case True
  then obtain content sz where ns: "ns = [BulkStringNode content sz]"
    unfolding is_cmd_valid_def by (cases ns; cases "tl ns"; cases "hd ns") auto
  with assms show ?thesis
    by (cases content) (auto simp: handle_get_cmd_def get_request_def create_nodes)
qed (simp add: handle_get_cmd_def)

lemma get_requestD:
  assumes "\<forall>nd\<in>set ns. node_wf nd" "get_request ns = Some k"
  shows "k \<noteq> []" "ns = [BulkStringNode (Some k) (int (length k))]"
proof -
  from assms(2) have r: "length ns = 1" "is_bulk (hd ns)" "k = node_text (hd ns)" "k \<noteq> []"
    by (auto simp: get_request_def split: if_splits)
  obtain nd where "ns = [nd]" using r(1) by (cases ns) auto
  with r assms(1) bulk_wf [of nd] show "k \<noteq> []" "ns = [BulkStringNode (Some k) (int (length k))]" by simp_all
qed

lemma made_key_expired:
  "key_ok k' \<Longrightarrow> has_key_expired (made_key now k) k' = Ret (expired now (entry_of (k', v)))"
  by (rule has_key_expired_entry) (simp_all add: made_key_def)

lemma handle_get_cmd_db:
  assumes "db_rep sm d" "\<forall>nd\<in>set ns. node_wf nd" "get_request ns = Some k"
  shows "leads_to (handle_get_cmd e ns sm) sm d
    (Some (fst (get_spec (env_now e) k d))) (snd (get_spec (env_now e) k d))"
proof -
  note k = get_requestD(1) [OF assms(2,3)] and ns = get_requestD(2) [OF assms(2,3)]
  let ?key = "made_key (env_now e) k"
  have ok: "key_ok ?key" using k by simp
  note * = handle_get_cmd_def is_cmd_valid_def ns create_nodes k get_spec_def
  show ?thesis
  proof (cases "d k")
    case None
    with db_get_None [OF assms(1) ok] leads_to_same [OF assms(1)] show ?thesis by (simp add: *)
  next
    case (Some en)
    then have dk: "d (key_bytes ?key) = Some en" by simp
    show ?thesis
    proof (rule db_get_Some [OF assms(1) ok dk])
      fix k' w
      assume get: "sm_get (Some sm) (Some ?key) (Some compare) = Ret (Some (pair k' w))"
        and w: "key_ok k'" "value_ok w" "en = entry_of (k', Some w)"
      have exp: "has_key_expired ?key k' = Ret (expired (env_now e) en)"
        using made_key_expired [OF w(1)] w(3) by simp
      show ?thesis
      proof (cases "expired (env_now e) en")
        case True
        show ?thesis
        proof (rule db_remove [OF assms(1) ok dk, of "\<lparr>kvp_key = None, kvp_value = None\<rparr>"])
          fix sm' k2 w2
          assume "remove_key (Some sm) (Some ?key) (Some compare)
              (Some \<lparr>kvp_key = None, kvp_value = None\<rparr>) =
            Ret (REMOVE_SUCCESS, Some sm', Some (pair k2 w2))"
            "db_rep sm' (d(key_bytes ?key := None))" "capacity sm' = capacity sm"
          with True exp get Some db_capacity [OF assms(1)] show ?thesis
            by (simp add: * leads_to_def)
        qed
      next
        case False
        with exp get Some w leads_to_same [OF assms(1)] value_node_to_string [OF w(2)] show ?thesis
          by (simp add: * value_ok_def text_value_def)
      qed
    qed
  qed
qed

section \<open>Properties\<close>

text \<open>C5. GET refines the abstract store: nil for an absent key, the stored value as a bulk string for a
  live one, and nil together with the removal of the key (and of nothing else) for an expired one.\<close>

theorem get_refines_store:
  assumes "db_rep sm d" "\<forall>nd\<in>set ns. node_wf nd" "get_request ns = Some k"
  shows "\<exists>sm' freed. handle_get_cmd e ns sm = Ret (Some (fst (get_spec (env_now e) k d)), sm', freed) \<and>
    db_rep sm' (snd (get_spec (env_now e) k d)) \<and> capacity sm' \<le> max (capacity sm) (2 * int (card (dom d)))"
  using handle_get_cmd_db [OF assms] by (simp add: leads_to_def)

lemma demo_expired: "expired (Timespec 9 0) (new_entry (Timespec 5 0) ''v'' 3 0)"
  using expiry_whole_seconds [of "demo_key\<lparr>kn_input_time := Some (Timespec 9 0)\<rparr>" 9 demo_key 5]
    has_key_expired_entry [of "demo_key\<lparr>kn_input_time := Some (Timespec 9 0)\<rparr>" "Timespec 9 0" demo_key
      "Some demo_value"]
  by (simp add: demo_ok) (simp add: demo_key_def entry_of_def new_entry_def demo_ok)

theorem get_refines_store_witness:
  "\<exists>sm' freed. handle_get_cmd (demo_env (Timespec 9 0)) [arg ''k''] demo_map = Ret (Some RESP_NIL, sm', freed) \<and>
    db_rep sm' Map.empty"
  using get_refines_store [OF demo_db, of "[arg ''k'']" "''k''" "demo_env (Timespec 9 0)"] demo_expired
  by (simp add: PROTO_MAX_BULK_SIZE_def get_request_def arg_def demo_env_def get_spec_def)
    (auto simp: fun_upd_def cong: if_cong)

text \<open>C23. What SET stores GET returns: after a SET without options that replied OK, a GET of the same key
  at any later time replies with the value of that SET, byte for byte.\<close>

theorem set_then_get:
  assumes "db_rep sm d" "\<forall>nd\<in>set ns. node_wf nd" "set_grammar ns = Some rq" "room (env_alloc e) sm"
    "rq_nxxx rq = None" "rq_get rq = None" "rq_expiry rq = None"
    "node_text (rq_key rq) \<noteq> []" "node_text (rq_value rq) \<noteq> []"
  shows "\<exists>sm' freed. handle_set_cmd e ns sm = Ret (Some RESP_OK, sm', freed) \<and>
    (\<exists>sm'' freed'. handle_get_cmd e' [rq_key rq] sm' = Ret (Some (bulk (node_text (rq_value rq))), sm'', freed'))"
proof -
  let ?k = "node_text (rq_key rq)" and ?v = "node_text (rq_value rq)"
  have spec: "set_spec (env_now e) rq d = (Some RESP_OK, d(?k \<mapsto> new_entry (env_now e) ?v 0 0))"
    using assms(5-9) by (simp add: set_spec_def)
  from handle_set_cmd_db [OF assms(1-4)] spec obtain sm' freed where
    s: "handle_set_cmd e ns sm = Ret (Some RESP_OK, sm', freed)" "db_rep sm' (d(?k \<mapsto> new_entry (env_now e) ?v 0 0))"
    by (auto simp: leads_to_def)
  have "get_request [rq_key rq] = Some ?k" "\<forall>nd\<in>set [rq_key rq]. node_wf nd"
    using set_grammarD(1,2) [OF assms(3)] assms(2,8) by (auto simp: get_request_def)
  from handle_get_cmd_db [OF s(2) this(2,1), of e'] s(1) show ?thesis
    by (auto simp: leads_to_def get_spec_def expired_def new_entry_def)
qed

theorem set_then_get_witness:
  "\<exists>sm' freed. handle_set_cmd (demo_env (Timespec 6 0)) [arg ''k'', arg ''w''] demo_map = Ret (Some RESP_OK, sm', freed) \<and>
    (\<exists>sm'' freed'. handle_get_cmd (demo_env (Timespec 99 0)) [arg ''k''] sm' = Ret (Some (bulk ''w''), sm'', freed'))"
  using set_then_get [OF demo_db, of "[arg ''k'', arg ''w'']"
      "\<lparr>rq_key = arg ''k'', rq_value = arg ''w'', rq_nxxx = None, rq_get = None, rq_expiry = None\<rparr>"
      "demo_env (Timespec 6 0)" "demo_env (Timespec 99 0)"] demo_room
  by (simp add: PROTO_MAX_BULK_SIZE_def set_grammar_def take_opt_def expiry_part_def demo_env_def)
    (simp add: arg_def)

end
