(* ===== verification/Echo_Cmd.thy ===== *)
theory Echo_Cmd
  imports Key_Value
begin

text \<open>
  ECHO in \<^verbatim>\<open>src/src/cmd_handler.c\<close>. The recursive \<^verbatim>\<open>__handle_echo_cmd\<close> shares one size counter
  between all its calls and sizes each buffer by it. \<^verbatim>\<open>next\<close> is NULL at the end of a list, and the
  code still passes it to \<^verbatim>\<open>%s\<close>; what \<^verbatim>\<open>printf\<close> prints for NULL is not fixed by the C standard, so it
  is the parameter \<open>nl\<close> of the definitions (glibc: \<^verbatim>\<open>(null)\<close>).
\<close>

section \<open>Operations\<close>

definition MAX_BYTES_ARR_SIZE :: nat where "MAX_BYTES_ARR_SIZE = 20"
definition MAX_BYTES_BULK_STR :: nat where "MAX_BYTES_BULK_STR = 9"

text \<open>What \<^verbatim>\<open>%s\<close> prints, and \<^verbatim>\<open>*size += n\<close> on an \<^verbatim>\<open>int\<close>, whose value sizes the next buffer.\<close>

definition percent_s :: "string \<Rightarrow> string option \<Rightarrow> string" where
  "percent_s nl s = (case s of None \<Rightarrow> nl | Some t \<Rightarrow> cstr t)"

definition grow :: "int \<Rightarrow> nat \<Rightarrow> int" where
  "grow sz n = uint_to_int (word_of_int (sz + int n))"

text \<open>\<^verbatim>\<open>rtn = calloc(*size+1); snprintf(rtn, *size+1, ...)\<close>\<close>

definition sized_text :: "int \<Rightarrow> string \<Rightarrow> string outcome" where
  "sized_text sz txt = (if sz < 0 \<or> INT_MAX \<le> sz then UB else Ret (snprintf_buf (nat (sz + 1)) txt))"

fun handle_echo :: "string \<Rightarrow> node list \<Rightarrow> int \<Rightarrow> (string option \<times> int) outcome" where
  "handle_echo nl [] sz = Ret (None, sz)"
| "handle_echo nl (ArrayNode content n # rest) sz =
     obind (handle_echo nl content sz) (\<lambda>(elements, sz1).
     obind (handle_echo nl rest sz1) (\<lambda>(next, sz2).
     let arr_size_s = snprintf_buf (MAX_BYTES_ARR_SIZE + 1) (dec_int n);
         sz3 = grow sz2 (strlen arr_size_s + 3)
     in obind (sized_text sz3 (''*'' @ dec_int n @ CRLF @ percent_s nl elements @ percent_s nl next)) (\<lambda>rtn.
        Ret (Some rtn, sz3))))"
| "handle_echo nl (BulkStringNode content n # rest) sz =
     obind (handle_echo nl rest sz) (\<lambda>(next, sz1).
     case content of
       None \<Rightarrow> UB
     | Some c \<Rightarrow>
         (let bs_size = snprintf_buf (MAX_BYTES_BULK_STR + 1) (dec_int n);
              sz2 = grow sz1 (strlen bs_size + 5 + strlen c)
          in obind (sized_text sz2 (''$'' @ dec_int n @ CRLF @ percent_s nl content @ CRLF @ percent_s nl next))
               (\<lambda>rtn. Ret (Some rtn, sz2))))"
| "handle_echo nl (BaseNode d # rest) sz = UB"

definition handle_echo_cmd :: "string \<Rightarrow> node list \<Rightarrow> string option outcome" where
  "handle_echo_cmd nl fst_nod = obind (handle_echo nl fst_nod 0) (\<lambda>(ret_val, sz). Ret ret_val)"

section \<open>Exactness\<close>

text \<open>Arguments whose text comes back unchanged: bulk strings without NUL, after at most one array
  whose own elements are of this kind.\<close>

fun plain_bulk :: "node \<Rightarrow> bool" where
  "plain_bulk (BulkStringNode (Some b) n) = (n = int (length b) \<and> n \<le> PROTO_MAX_BULK_SIZE \<and> NUL \<notin> set b)"
| "plain_bulk _ = False"

fun echoable :: "node list \<Rightarrow> bool" where
  "echoable [] = True"
| "echoable (ArrayNode content n # rest) =
     (0 \<le> n \<and> n \<le> INT_MAX \<and> content \<noteq> [] \<and> echoable content \<and> list_all plain_bulk rest)"
| "echoable (nd # rest) = (plain_bulk nd \<and> echoable rest)"

abbreviation resps :: "node list \<Rightarrow> string" where
  "resps ns \<equiv> concat (map resp ns)"

lemma dec_int_short: "0 \<le> n \<Longrightarrow> n \<le> INT_MAX \<Longrightarrow> length (dec_int n) \<le> 10"
  using dec_nat_length_le [of "nat n" 9] by (simp add: dec_int_def)

lemma dec_bulk_short: "0 \<le> n \<Longrightarrow> n \<le> PROTO_MAX_BULK_SIZE \<Longrightarrow> length (dec_int n) \<le> 9"
  using dec_nat_length_le [of "nat n" 8] by (simp add: dec_int_def PROTO_MAX_BULK_SIZE_def)

lemma grow_ok: "0 \<le> sz \<Longrightarrow> sz + int n \<le> INT_MAX \<Longrightarrow> grow sz n = sz + int n"
  using uint_to_int_of_nat [of "nat (sz + int n)"] by (simp add: grow_def)

lemma plain_bulkE:
  assumes "plain_bulk nd"
  obtains b where "nd = BulkStringNode (Some b) (int (length b))" "int (length b) \<le> PROTO_MAX_BULK_SIZE"
    "NUL \<notin> set b"
  using assms by (cases nd rule: plain_bulk.cases) auto

lemma flat_echoable: "list_all plain_bulk ns \<Longrightarrow> echoable ns"
proof (induction ns)
  case (Cons nd rest)
  then show ?case by (cases nd) auto
qed simp

lemma resps_no_NUL: "echoable ns \<Longrightarrow> NUL \<notin> set (resps ns)"
proof (induction ns rule: echoable.induct)
  case (2 content n rest)
  have "NUL \<notin> set (resps rest)" if "list_all plain_bulk rest" for rest
    using that by (induction rest) (auto elim!: plain_bulkE)
  with 2 show ?case by auto
qed (auto elim!: plain_bulkE)

lemma sized_text_ok:
  "0 \<le> sz \<Longrightarrow> sz + int n < INT_MAX \<Longrightarrow> sized_text (sz + int n) txt = Ret (take (nat sz + n) txt)"
  by (simp add: sized_text_def snprintf_buf_def nat_add_distrib)

text \<open>One more bulk string in front of a list.\<close>

lemma handle_echo_bulk:
  assumes "plain_bulk nd" "handle_echo nl rest sz = Ret (next, sz1)" "0 \<le> sz1"
    "sz1 + int (length (resp nd)) < INT_MAX"
  shows "handle_echo nl (nd # rest) sz =
    Ret (Some (take (nat sz1 + length (resp nd)) (resp nd @ percent_s nl next)), sz1 + int (length (resp nd)))"
  using assms(1)
proof (rule plain_bulkE)
  fix b assume b: "nd = BulkStringNode (Some b) (int (length b))" "int (length b) \<le> PROTO_MAX_BULK_SIZE"
    "NUL \<notin> set b"
  have l: "length (dec_int (int (length b))) \<le> 9" using b(2) by (intro dec_bulk_short) auto
  have len: "length (resp nd) = length (dec_int (int (length b))) + 5 + length b" by (simp add: b(1))
  have g: "grow sz1 (length (dec_int (int (length b))) + 5 + length b) = sz1 + int (length (resp nd))"
    using grow_ok [of sz1 "length (resp nd)"] assms(3,4) unfolding len by simp
  have tx: "''$'' @ dec_int (int (length b)) @ CRLF @ percent_s nl (Some b) @ CRLF @ percent_s nl next =
      resp nd @ percent_s nl next"
    using b by (simp add: percent_s_def)
  have bufsz: "strlen (snprintf_buf (MAX_BYTES_BULK_STR + 1) (dec_int (int (length b)))) =
      length (dec_int (int (length b)))"
    using l by (simp add: snprintf_buf_def MAX_BYTES_BULK_STR_def)
  have "handle_echo nl (nd # rest) sz =
      obind (sized_text (sz1 + int (length (resp nd))) (resp nd @ percent_s nl next))
        (\<lambda>rtn. Ret (Some rtn, sz1 + int (length (resp nd))))"
    unfolding b(1) handle_echo.simps assms(2) obind.simps prod.case option.case Let_def bufsz
      strlen_id [OF b(3)] g tx [unfolded b(1)] by (simp add: b(1))
  also have "sized_text (sz1 + int (length (resp nd))) (resp nd @ percent_s nl next) =
      Ret (take (nat sz1 + length (resp nd)) (resp nd @ percent_s nl next))"
    by (rule sized_text_ok) (use assms(3,4) in auto)
  finally show ?thesis by simp
qed

lemma handle_echo_flat:
  assumes "list_all plain_bulk ns" "ns \<noteq> []" "0 \<le> sz" "sz + int (length (resps ns)) < INT_MAX" "NUL \<notin> set nl"
  shows "handle_echo nl ns sz =
    Ret (Some (resps ns @ take (nat sz) nl), sz + int (length (resps ns)))"
  using assms(1,2,4)
proof (induction ns)
  case (Cons nd rest)
  show ?case
  proof (cases "rest = []")
    case True
    with Cons.prems assms(3) handle_echo_bulk [of nd nl "[]" sz None sz] show ?thesis
      by (simp add: percent_s_def)
  next
    case False
    with Cons have rest: "handle_echo nl rest sz =
        Ret (Some (resps rest @ take (nat sz) nl), sz + int (length (resps rest)))" by simp
    have nn: "NUL \<notin> set (resps rest @ take (nat sz) nl)"
      using resps_no_NUL [OF flat_echoable, of rest] Cons.prems assms(5) by (auto dest: in_set_takeD)
    show ?thesis
      using handle_echo_bulk [OF _ rest] Cons.prems assms(3) nn
      by (simp add: percent_s_def nat_add_distrib)
  qed
qed simp

text \<open>One array in front of a flat list.\<close>

lemma handle_echo_array:
  assumes "handle_echo nl content 0 = Ret (elements, sz1)" "handle_echo nl rest sz1 = Ret (nxt, sz2)"
    "0 \<le> n" "n \<le> INT_MAX" "0 \<le> sz2" "sz2 + int (length (dec_int n) + 3) < INT_MAX"
  shows "handle_echo nl (ArrayNode content n # rest) 0 =
    Ret (Some (take (nat sz2 + (length (dec_int n) + 3))
               (''*'' @ dec_int n @ CRLF @ percent_s nl elements @ percent_s nl nxt)),
         sz2 + int (length (dec_int n) + 3))"
proof -
  have l: "length (dec_int n) \<le> 10" using assms(3,4) by (rule dec_int_short)
  have bufsz: "strlen (snprintf_buf (MAX_BYTES_ARR_SIZE + 1) (dec_int n)) = length (dec_int n)"
    using l by (simp add: snprintf_buf_def MAX_BYTES_ARR_SIZE_def)
  have g: "grow sz2 (length (dec_int n) + 3) = sz2 + int (length (dec_int n) + 3)"
    using assms(5,6) by (intro grow_ok) auto
  show ?thesis
    unfolding handle_echo.simps assms(1,2) obind.simps prod.case Let_def bufsz g
    by (simp only: sized_text_ok [OF assms(5,6)] obind.simps)
qed

lemma handle_echo_exact:
  assumes "echoable ns" "ns \<noteq> []" "int (length (resps ns)) < INT_MAX" "NUL \<notin> set nl"
  shows "handle_echo nl ns 0 = Ret (Some (resps ns), int (length (resps ns)))"
  using assms(1-3)
proof (induction ns rule: echoable.induct [case_names Nil Arr Bulk Base])
  case (Arr content n rest)
  let ?hd = "''*'' @ dec_int n @ CRLF" and ?t = "resps content"
  have hd: "length ?hd = length (dec_int n) + 3" by simp
  have n: "0 \<le> n" "n \<le> INT_MAX" and flat: "list_all plain_bulk rest" using Arr by simp_all
  have sum: "int (length ?t) + int (length (resps rest)) + int (length (dec_int n) + 3) < INT_MAX"
    using Arr by simp
  have el: "handle_echo nl content 0 = Ret (Some ?t, int (length ?t))"
    using Arr sum by simp
  have pel: "percent_s nl (Some ?t) = ?t"
    using resps_no_NUL [of content] Arr by (simp add: percent_s_def)
  have cut: "take (m + (length (dec_int n) + 3)) (''*'' @ dec_int n @ CRLF @ u @ x) = ?hd @ u"
    if "m = length u" for m u x
    using that hd by (simp only: append_assoc [symmetric] length_append [symmetric] add.commute [of m])
      (simp only: append_assoc [symmetric] take_append length_append, simp)
  show ?case
  proof (cases "rest = []")
    case True
    with handle_echo_array [OF el _ n, of rest None "int (length ?t)"] sum cut [of "length ?t" ?t nl] pel
    show ?thesis by (simp add: percent_s_def del: append.simps)
  next
    case False
    have nx: "handle_echo nl rest (int (length ?t)) =
        Ret (Some (resps rest @ take (length ?t) nl), int (length ?t) + int (length (resps rest)))"
      using handle_echo_flat [OF flat False, of "int (length ?t)" nl] sum assms(4) by simp
    have pnx: "percent_s nl (Some (resps rest @ take (length ?t) nl)) = resps rest @ take (length ?t) nl"
    proof -
      have "NUL \<notin> set (take (length ?t) nl)" using assms(4) by (auto dest: in_set_takeD)
      with resps_no_NUL [OF flat_echoable [OF flat]] show ?thesis by (simp add: percent_s_def cstr_append)
    qed
    have "nat (int (length ?t) + int (length (resps rest))) = length (?t @ resps rest)" by simp
    with handle_echo_array [OF el nx n] sum pel pnx
      cut [of "length (?t @ resps rest)" "?t @ resps rest" "take (length ?t) nl"]
    show ?thesis by (simp del: append.simps)
  qed
next
  case (Bulk c n rest)
  let ?nd = "BulkStringNode c n"
  have nd: "plain_bulk ?nd" "echoable rest" using Bulk.prems by simp_all
  have sum: "int (length (resps rest)) + int (length (resp ?nd)) < INT_MAX" using Bulk.prems by simp
  show ?case
  proof (cases "rest = []")
    case True
    with handle_echo_bulk [OF nd(1), of nl "[]" 0 None 0] sum show ?thesis by (simp del: resp.simps)
  next
    case False
    then have "handle_echo nl rest 0 = Ret (Some (resps rest), int (length (resps rest)))"
      using Bulk nd by simp
    from handle_echo_bulk [OF nd(1) this] sum resps_no_NUL [OF nd(2)]
    show ?thesis by (simp add: percent_s_def del: resp.simps)
  qed
qed simp_all

lemma handle_echo_cmd_exact:
  "echoable ns \<Longrightarrow> ns \<noteq> [] \<Longrightarrow> int (length (resps ns)) < INT_MAX \<Longrightarrow> NUL \<notin> set nl \<Longrightarrow>
    handle_echo_cmd nl ns = Ret (Some (resps ns))"
  by (simp add: handle_echo_cmd_def handle_echo_exact)

text \<open>With two arrays before the last argument the shared counter is too large for the second one, and
  the text of NULL stays in the reply.\<close>

definition one_bulk :: "char \<Rightarrow> node" where
  "one_bulk c = BulkStringNode (Some [c]) 1"

lemma handle_echo_two_arrays:
  "handle_echo_cmd ''(null)'' [ArrayNode [one_bulk CHR ''a''] 1, ArrayNode [one_bulk CHR ''b''] 1, one_bulk CHR ''c''] =
    Ret (Some (take 29 (''*1'' @ CRLF @ bulk ''a'' @ ''*1'' @ CRLF @ bulk ''b'' @ ''(null)'' @ bulk ''c'')))"
  by code_simp

section \<open>Properties\<close>

text \<open>C33. On echoable arguments (\<open>echoable\<close>: NUL-free bulk strings, then at most one array, itself of
  echoable elements and followed by bulk strings only) ECHO replies with the exact RESP text of its
  arguments, whatever \<^verbatim>\<open>printf\<close> prints for NULL: the sizes computed by the recursion cut that text off.
  Two arrays in front of a further argument are not echoable, and the reply to them is wrong
  (\<open>echo_two_arrays_corrupted\<close>).\<close>

theorem echo_exact:
  assumes "echoable ns" "ns \<noteq> []" "int (length (resps ns)) < INT_MAX" "NUL \<notin> set nl"
  shows "handle_echo_cmd nl ns = Ret (Some (resps ns))"
  using assms by (rule handle_echo_cmd_exact)

theorem echo_exact_witness:
  "handle_echo_cmd ''(null)'' [one_bulk CHR ''a'', ArrayNode [one_bulk CHR ''b''] 1, one_bulk CHR ''c''] =
    Ret (Some (bulk ''a'' @ ''*1'' @ CRLF @ bulk ''b'' @ bulk ''c''))"
proof -
  have d: "dec_int 1 = ''1''" "dec_nat (Suc 0) = ''1''" by code_simp+
  have b: "resp (one_bulk c) = bulk [c]" for c by (simp add: one_bulk_def bulk_def d)
  show ?thesis
    using echo_exact [of "[one_bulk CHR ''a'', ArrayNode [one_bulk CHR ''b''] 1, one_bulk CHR ''c'']" "''(null)''"]
    by (simp add: one_bulk_def PROTO_MAX_BULK_SIZE_def d bulk_def)
qed

text \<open>With two arrays in front of another argument ECHO answers a corrupted reply: the text that
  \<^verbatim>\<open>printf\<close> prints for NULL appears inside it and the end is cut off.\<close>

lemma echo_two_arrays_corrupted:
  "handle_echo_cmd ''(null)'' [ArrayNode [one_bulk CHR ''a''] 1, ArrayNode [one_bulk CHR ''b''] 1, one_bulk CHR ''c''] \<noteq>
    Ret (Some (resps [ArrayNode [one_bulk CHR ''a''] 1, ArrayNode [one_bulk CHR ''b''] 1, one_bulk CHR ''c'']))"
  unfolding handle_echo_two_arrays by code_simp

end
