(* ===== verification/Config_Cmd.thy ===== *)
theory Config_Cmd
  imports Set_Exec
begin

text \<open>
  CONFIG in \<^verbatim>\<open>src/src/cmd_handler.c\<close>: \<^verbatim>\<open>handle_conf_cmd\<close>, \<^verbatim>\<open>handle_conf_get\<close> with its two arrays of
  reply strings, and \<^verbatim>\<open>generate_conf_get_response\<close>. The configuration is a map of key and value nodes.
  \<open>conf_hits\<close> says which entries a request selects; \<open>conf_get_exact\<close> shows that the arrays never
  overflow and that the reply lists exactly those entries.
\<close>

section \<open>Operations\<close>

datatype ConfigCmdOptions = CONF_GET | CONF_SET | INVALID_CONF_OPTION

definition config_cmd_options :: "(string option \<times> ConfigCmdOptions) list" where
  "config_cmd_options = [(Some ''GET'', CONF_GET), (Some ''SET'', CONF_SET), (None, INVALID_CONF_OPTION)]"

text \<open>The local state of \<^verbatim>\<open>handle_conf_get\<close>: its arrays and counters.\<close>

record conf_state =
  value_array :: "string cell list"
  key_array :: "string cell list"
  total_bytes_val_arr :: uint
  total_bytes_key_arr :: uint
  nr_inserted_el :: uint

text \<open>\<^verbatim>\<open>is_it_possible_to_insert_the_str_in_array\<close>: \<open>str\<close> differs from the first \<open>n\<close> cells.\<close>

fun is_it_possible_to_insert_the_str_in_array :: "string cell list \<Rightarrow> nat \<Rightarrow> string \<Rightarrow> bool outcome" where
  "is_it_possible_to_insert_the_str_in_array arr 0 str = Ret True"
| "is_it_possible_to_insert_the_str_in_array [] (Suc n) str = UB"
| "is_it_possible_to_insert_the_str_in_array (c # arr) (Suc n) str =
     obind (deref c) (\<lambda>value.
     if strcmp_eq str value then Ret False
     else is_it_possible_to_insert_the_str_in_array arr n str)"

definition insert_key_value_str_to_str_array :: "data_pair \<Rightarrow> conf_state \<Rightarrow> conf_state outcome" where
  "insert_key_value_str_to_str_array kvp cs =
     (case (kvp_key kvp, kvp_value kvp) of
        (Some key, Some val) \<Rightarrow>
          if kn_content key = None \<or> vn_content val = None \<or> vn_dtype val \<noteq> BULK_STR then Ret cs
          else
            obind (key_or_value_node_to_string (Some (TYPE_KEY_NODE key))) (\<lambda>(ksz, key_str).
            obind (key_or_value_node_to_string (Some (TYPE_VALUE_NODE val))) (\<lambda>(vsz, value_str).
            case key_str of
              None \<Rightarrow> if nr_inserted_el cs = 0 then Ret cs else UB
            | Some ks \<Rightarrow>
                obind (is_it_possible_to_insert_the_str_in_array (key_array cs) (unat (nr_inserted_el cs)) ks) (\<lambda>ok.
                case value_str of
                  None \<Rightarrow> Ret cs
                | Some vs \<Rightarrow>
                if \<not> ok then Ret cs
                else
                  obind (cell_put (key_array cs) (int (unat (nr_inserted_el cs))) (Ptr ks)) (\<lambda>ka.
                  obind (cell_put (value_array cs) (int (unat (nr_inserted_el cs))) (Ptr vs)) (\<lambda>va.
                  Ret \<lparr>value_array = va, key_array = ka,
                       total_bytes_val_arr = total_bytes_val_arr cs + word_of_int (vsz - 1),
                       total_bytes_key_arr = total_bytes_key_arr cs + word_of_int (ksz - 1),
                       nr_inserted_el = nr_inserted_el cs + 1\<rparr>)))))
      | _ \<Rightarrow> Ret cs)"

text \<open>The inner loop: all entries of the configuration against one pattern.\<close>

lemma smw_next_progress:
  "smw_next smw = Ret (Some kvp, smw') \<Longrightarrow> smw_sm smw' = smw_sm smw \<and>
    (\<exists>sm. smw_sm smw = Some sm \<and> nat (top sm + 1 - index smw') < nat (top sm + 1 - index smw))"
  by (auto simp: smw_next_def outcome_simps split: option.splits if_splits)

function conf_scan :: "fnmatch_fn \<Rightarrow> string option \<Rightarrow> (KeyNode, ValueNode) SimpleMapWrapper \<Rightarrow>
    conf_state \<Rightarrow> conf_state outcome" where
  "conf_scan fnmatch pat smw cs =
     obind (smw_next smw) (\<lambda>(kvpp, smw').
       case kvpp of
         None \<Rightarrow> Ret cs
       | Some kvp \<Rightarrow>
           (case kvp_key kvp of
              None \<Rightarrow> conf_scan fnmatch pat smw' cs
            | Some key \<Rightarrow>
                if does_the_strings_match fnmatch pat (kn_content key) = MATCH
                then obind (insert_key_value_str_to_str_array kvp cs) (\<lambda>cs'. conf_scan fnmatch pat smw' cs')
                else conf_scan fnmatch pat smw' cs))"
  by pat_completeness auto
termination
  by (relation "measure (\<lambda>(f, pat, smw, cs). case smw_sm smw of None \<Rightarrow> 0
                          | Some sm \<Rightarrow> nat (top sm + 1 - index smw))")
    (auto dest!: smw_next_progress)

declare conf_scan.simps [simp del]

text \<open>The outer loop, over the request nodes.\<close>

fun conf_patterns :: "fnmatch_fn \<Rightarrow> node list \<Rightarrow> data_map \<Rightarrow> conf_state \<Rightarrow> conf_state outcome" where
  "conf_patterns fnmatch [] config_dict cs = Ret cs"
| "conf_patterns fnmatch (BulkStringNode content sz # rest) config_dict cs =
     obind (conf_scan fnmatch content (init_simple_map_wrapper (Some config_dict)) cs) (\<lambda>cs'.
     conf_patterns fnmatch rest config_dict cs')"
| "conf_patterns fnmatch (ArrayNode ns sz # rest) config_dict cs = conf_patterns fnmatch rest config_dict cs"
| "conf_patterns fnmatch (BaseNode d # rest) config_dict cs = UB"

text \<open>\<^verbatim>\<open>pos += snprintf(response + pos, total_bytes - pos, ...)\<close>: \<open>pos\<close> counts the bytes that were asked
  for; writing behind the buffer is undefined, and so is a \<^verbatim>\<open>pos\<close> above \<^verbatim>\<open>INT_MAX\<close>, it is an \<^verbatim>\<open>int\<close> (a
  text for which \<^verbatim>\<open>snprintf\<close> itself could not return the length is counted there too).\<close>

definition resp_put :: "nat \<Rightarrow> string \<Rightarrow> string \<times> int \<Rightarrow> (string \<times> int) outcome" where
  "resp_put total_bytes text rp =
     (case rp of (response, pos) \<Rightarrow>
        if int total_bytes < pos \<or> INT_MAX < pos + int (length text) then UB
        else Ret (response @ snprintf_buf (total_bytes - nat pos) text, pos + int (length text)))"

fun gen_loop :: "nat \<Rightarrow> (string cell \<times> string cell) list \<Rightarrow> string \<times> int \<Rightarrow> string option outcome" where
  "gen_loop total_bytes [] rp = Ret (Some (fst rp))"
| "gen_loop total_bytes ((k, v) # rest) rp =
     (case k of
        Null \<Rightarrow> Ret None
      | Uninit \<Rightarrow> UB
      | Ptr ks \<Rightarrow>
          obind (deref v) (\<lambda>vs. obind (resp_put total_bytes (cstr ks @ cstr vs) rp) (\<lambda>rp'.
          gen_loop total_bytes rest rp')))"

definition generate_conf_get_response :: "string cell list \<Rightarrow> string cell list \<Rightarrow> uint \<Rightarrow> uint \<Rightarrow> nat \<Rightarrow>
    string option outcome" where
  "generate_conf_get_response ks vs total_key_bytes total_value_bytes num_elements =
     (let num_elements_buf = snprintf_buf 8 (dec_nat (2 * num_elements));
          total_bytes = 1 + length num_elements_buf + 2 + unat total_key_bytes + unat total_value_bytes + 1
      in if length ks < num_elements \<or> length vs < num_elements then UB
         else obind (resp_put total_bytes (''*'' @ num_elements_buf @ CRLF) ([], 0)) (\<lambda>rp.
              gen_loop total_bytes (zip (take num_elements ks) (take num_elements vs)) rp))"

definition handle_conf_get :: "fnmatch_fn \<Rightarrow> node list \<Rightarrow> data_map \<Rightarrow> string option outcome" where
  "handle_conf_get fnmatch bnode config_dict =
     (if bnode = [] \<or> keys config_dict = None \<or> vals config_dict = None \<or> top config_dict < 0 then Ret None
      else
        (let possible_max_size = nat (top config_dict + 1);
             cs = \<lparr>value_array = replicate possible_max_size Uninit,
                   key_array = replicate possible_max_size Uninit,
                   total_bytes_val_arr = 0, total_bytes_key_arr = 0, nr_inserted_el = 0\<rparr>
         in obind (conf_patterns fnmatch bnode config_dict cs) (\<lambda>cs'.
            if nr_inserted_el cs' = 0 then Ret (Some (''*0'' @ CRLF))
            else generate_conf_get_response (key_array cs') (value_array cs')
                   (total_bytes_key_arr cs') (total_bytes_val_arr cs') (unat (nr_inserted_el cs')))))"

text \<open>The option loop: \<^verbatim>\<open>item = config_cmd_options[i++]\<close> visits the first row twice.\<close>

function conf_cmd_loop :: "fnmatch_fn \<Rightarrow> string \<Rightarrow> node list \<Rightarrow> data_map \<Rightarrow>
    string option \<times> ConfigCmdOptions \<Rightarrow> nat \<Rightarrow> string option outcome" where
  "conf_cmd_loop fnmatch cmd args config_dict item i =
     (case fst item of
        None \<Rightarrow> Ret None
      | Some name \<Rightarrow>
          (case does_the_strings_match fnmatch (Some name) (Some cmd) of
             MATCH \<Rightarrow> if snd item = CONF_GET then handle_conf_get fnmatch args config_dict else Ret None
           | MATCH_ERROR \<Rightarrow> Ret None
           | NO_MATCH \<Rightarrow>
               if i < length config_cmd_options
               then conf_cmd_loop fnmatch cmd args config_dict (config_cmd_options ! i) (i + 1)
               else UB))"
  by pat_completeness auto
termination
  by (relation "measure (\<lambda>(f, cmd, args, cfg, item, i). length config_cmd_options - i)") auto

declare conf_cmd_loop.simps [simp del]

definition handle_conf_cmd :: "fnmatch_fn \<Rightarrow> node list \<Rightarrow> data_map \<Rightarrow> string option outcome" where
  "handle_conf_cmd fnmatch gnode config_dict =
     (case gnode of
        BulkStringNode (Some cmd) sz # args \<Rightarrow>
          if keys config_dict = None \<or> vals config_dict = None then Ret None
          else conf_cmd_loop fnmatch cmd args config_dict (config_cmd_options ! 0) 0
      | _ \<Rightarrow> Ret None)"

section \<open>What CONFIG GET promises\<close>

type_synonym conf_entry = "KeyNode \<times> ValueNode option"

definition conf_entry_ok :: "conf_entry \<Rightarrow> bool" where
  "conf_entry_ok en \<longleftrightarrow> key_ok (fst en) \<and> NUL \<notin> set (key_bytes (fst en)) \<and>
     (case snd en of None \<Rightarrow> True | Some v \<Rightarrow> text_value v \<and> NUL \<notin> set (value_bytes v))"

text \<open>The entry's texts are within the limit that clients are held to.\<close>

definition entry_fits :: "conf_entry \<Rightarrow> bool" where
  "entry_fits en \<longleftrightarrow> int (length (key_bytes (fst en))) \<le> PROTO_MAX_BULK_SIZE \<and>
     (case snd en of None \<Rightarrow> True | Some v \<Rightarrow> int (length (value_bytes v)) \<le> PROTO_MAX_BULK_SIZE)"

definition conf_step :: "fnmatch_fn \<Rightarrow> string \<Rightarrow> (string \<times> string) list \<Rightarrow> conf_entry \<Rightarrow>
    (string \<times> string) list" where
  "conf_step fnmatch pat acc en =
     (case snd en of
        None \<Rightarrow> acc
      | Some v \<Rightarrow>
          if fnmatch (cstr pat) (key_bytes (fst en)) FNM_IGNORECASE = 0 \<and>
             key_bytes (fst en) \<notin> fst ` set acc
          then acc @ [(key_bytes (fst en), value_bytes v)] else acc)"

fun conf_hits :: "fnmatch_fn \<Rightarrow> node list \<Rightarrow> conf_entry list \<Rightarrow> (string \<times> string) list \<Rightarrow>
    (string \<times> string) list" where
  "conf_hits fnmatch [] es acc = acc"
| "conf_hits fnmatch (BulkStringNode (Some pat) sz # rest) es acc =
     conf_hits fnmatch rest es (foldl (conf_step fnmatch pat) acc es)"
| "conf_hits fnmatch (nd # rest) es acc = conf_hits fnmatch rest es acc"

definition hits_text :: "(string \<times> string) list \<Rightarrow> string" where
  "hits_text acc = concat (map (\<lambda>(k, v). bulk k @ bulk v) acc)"

definition conf_reply :: "(string \<times> string) list \<Rightarrow> string" where
  "conf_reply acc = (if acc = [] then ''*0'' @ CRLF
     else ''*'' @ dec_nat (2 * length acc) @ CRLF @ hits_text acc)"

section \<open>The arrays\<close>

text \<open>\<open>conf_rep n cs acc\<close>: the first \<open>length acc\<close> cells of the arrays of size \<open>n\<close> hold the texts of
  \<open>acc\<close>, and the counters count them.\<close>

definition conf_rep :: "nat \<Rightarrow> conf_state \<Rightarrow> (string \<times> string) list \<Rightarrow> bool" where
  "conf_rep n cs acc \<longleftrightarrow>
     length (key_array cs) = n \<and> length (value_array cs) = n \<and> length acc \<le> n \<and>
     take (length acc) (key_array cs) = map (\<lambda>p. Ptr (bulk (fst p))) acc \<and>
     take (length acc) (value_array cs) = map (\<lambda>p. Ptr (bulk (snd p))) acc \<and>
     nr_inserted_el cs = of_nat (length acc) \<and>
     total_bytes_key_arr cs = of_nat (length (concat (map (\<lambda>p. bulk (fst p)) acc))) \<and>
     total_bytes_val_arr cs = of_nat (length (concat (map (\<lambda>p. bulk (snd p)) acc)))"

text \<open>Only keys of the configuration are collected, each once; so the arrays are large enough.\<close>

definition acc_ok :: "conf_entry list \<Rightarrow> (string \<times> string) list \<Rightarrow> bool" where
  "acc_ok es acc \<longleftrightarrow> distinct (map fst acc) \<and> fst ` set acc \<subseteq> (\<lambda>en. key_bytes (fst en)) ` set es \<and>
     (\<forall>(k, v)\<in>set acc. NUL \<notin> set k \<and> NUL \<notin> set v)"

lemma acc_ok_room:
  assumes "acc_ok es acc" "en \<in> set es" "key_bytes (fst en) \<notin> fst ` set acc"
  shows "length acc < length es"
proof -
  have "length acc = card (fst ` set acc)"
    using assms(1) distinct_card [of "map fst acc"] by (simp add: acc_ok_def)
  also have "\<dots> < card ((\<lambda>en. key_bytes (fst en)) ` set es)"
    using assms by (intro psubset_card_mono) (auto simp: acc_ok_def)
  also have "\<dots> \<le> length es" by (meson card_image_le card_length finite_set le_trans)
  finally show ?thesis .
qed

lemma bulk_no_NUL: "NUL \<notin> set b \<Longrightarrow> NUL \<notin> set (bulk b)"
  by (simp add: bulk_def)

lemma dec_prefix: "dec_nat a @ CR # x = dec_nat b @ CR # y \<Longrightarrow> a = b \<and> x = y"
proof -
  assume e: "dec_nat a @ CR # x = dec_nat b @ CR # y"
  have t: "takeWhile is_digit (dec_nat n @ CR # z) = dec_nat n" for n z
    using dec_nat_digits by (simp add: takeWhile_append)
  from t [of a x] t [of b y] e have "dec_nat a = dec_nat b" by simp
  with e show ?thesis using digits_val_dec_nat by (metis append_eq_append_conv list.inject)
qed

lemma bulk_inj: "bulk a = bulk b \<longleftrightarrow> a = b"
  by (auto simp: bulk_def dest: dec_prefix)

lemma bulk_length: "0 < length (bulk b)"
  by (simp add: bulk_def)

lemma insertable:
  "n \<le> length arr \<Longrightarrow> take n arr = map (\<lambda>p. Ptr (bulk (fst p))) acc \<Longrightarrow> n = length acc \<Longrightarrow>
    (\<forall>(k, v)\<in>set acc. NUL \<notin> set k) \<Longrightarrow> NUL \<notin> set k \<Longrightarrow>
    is_it_possible_to_insert_the_str_in_array arr n (bulk k) = Ret (k \<notin> fst ` set acc)"
proof (induction arr n "bulk k" arbitrary: acc rule: is_it_possible_to_insert_the_str_in_array.induct)
  case (3 c arr n)
  then obtain p acc' where acc: "acc = p # acc'" by (cases acc) auto
  with 3 have c: "c = Ptr (bulk (fst p))" and t: "take n arr = map (\<lambda>p. Ptr (bulk (fst p))) acc'" by auto
  have eq: "strcmp_eq (bulk k) (bulk (fst p)) \<longleftrightarrow> k = fst p"
    using 3 acc by (auto simp: strcmp_eq_def bulk_no_NUL bulk_inj split: prod.splits)
  show ?case
    using "3.hyps" [of "bulk (fst p)" acc'] "3.prems" t acc eq by (auto simp: c)
qed auto

lemma acc_ok_snoc:
  "acc_ok es acc \<Longrightarrow> en \<in> set es \<Longrightarrow> conf_entry_ok en \<Longrightarrow> snd en = Some v \<Longrightarrow>
    key_bytes (fst en) \<notin> fst ` set acc \<Longrightarrow> acc_ok es (acc @ [(key_bytes (fst en), value_bytes v)])"
  by (auto simp: acc_ok_def conf_entry_ok_def)

lemma conf_rep_snoc:
  assumes "conf_rep n cs acc" "length acc < n"
  shows "conf_rep n
    \<lparr>value_array = (value_array cs)[length acc := Ptr (bulk v)],
     key_array = (key_array cs)[length acc := Ptr (bulk k)],
     total_bytes_val_arr = total_bytes_val_arr cs + word_of_int (int (length (bulk v))),
     total_bytes_key_arr = total_bytes_key_arr cs + word_of_int (int (length (bulk k))),
     nr_inserted_el = nr_inserted_el cs + 1\<rparr> (acc @ [(k, v)])"
  using assms
  by (simp add: conf_rep_def take_Suc_conv_app_nth take_update_swap add.commute list_update_append)

lemma insert_rep:
  assumes rep: "conf_rep n cs acc" and acc: "acc_ok es acc" and n: "n = length es" "n < 2 ^ 32"
    and en: "en \<in> set es" "conf_entry_ok en" "entry_fits en" "snd en = Some v"
  shows "\<exists>cs'. insert_key_value_str_to_str_array \<lparr>kvp_key = Some (fst en), kvp_value = Some v\<rparr> cs = Ret cs' \<and>
    (let acc' = if key_bytes (fst en) \<in> fst ` set acc then acc
                else acc @ [(key_bytes (fst en), value_bytes v)]
     in conf_rep n cs' acc' \<and> acc_ok es acc')"
proof -
  let ?k = "key_bytes (fst en)"
  have ok: "key_ok (fst en)" "value_ok v" "NUL \<notin> set ?k" "int (length ?k) \<le> PROTO_MAX_BULK_SIZE"
    using en by (auto simp: conf_entry_ok_def entry_fits_def value_ok_def)
  have nn: "kn_content (fst en) \<noteq> None" "vn_content v \<noteq> None" "vn_dtype v = BULK_STR"
    using ok by (auto simp: key_ok_def value_ok_def text_value_def split: option.splits)
  have nr: "unat (nr_inserted_el cs) = length acc"
    using rep n(2) by (simp add: conf_rep_def unat_of_nat)
  have ins: "is_it_possible_to_insert_the_str_in_array (key_array cs) (length acc) (bulk ?k) =
      Ret (?k \<notin> fst ` set acc)"
    using rep acc ok(3) by (intro insertable) (auto simp: conf_rep_def acc_ok_def)
  note * = insert_key_value_str_to_str_array_def nn key_node_to_string [OF ok(1,4)]
    value_node_to_string [OF ok(2)] nr ins
  show ?thesis
  proof (cases "?k \<in> fst ` set acc")
    case True
    with rep acc show ?thesis by (simp add: *)
  next
    case False
    have len: "length acc < n" using acc_ok_room [OF acc en(1) False] n(1) by simp
    with rep have "length acc < length (key_array cs)" "length acc < length (value_array cs)"
      by (simp_all add: conf_rep_def)
    with False conf_rep_snoc [OF rep len] acc_ok_snoc [OF acc en(1,2,4) False] show ?thesis
      by (simp add: *)
  qed
qed

lemma conf_scan_rep:
  assumes cfg: "sm_rep cfg es" and ok: "\<forall>en\<in>set es. conf_entry_ok en \<and> entry_fits en" and n: "n = length es" "n < 2 ^ 32"
  shows "conf_rep n cs acc \<Longrightarrow> acc_ok es acc \<Longrightarrow> i \<le> length es \<Longrightarrow>
    \<exists>cs'. conf_scan fnmatch (Some pat) \<lparr>index = int i, smw_sm = Some cfg\<rparr> cs = Ret cs' \<and>
      conf_rep n cs' (foldl (conf_step fnmatch pat) acc (drop i es)) \<and>
      acc_ok es (foldl (conf_step fnmatch pat) acc (drop i es))"
proof (induction "length es - i" arbitrary: i cs acc)
  case 0
  then show ?case by (subst conf_scan.simps) (simp add: smw_next_rep [OF cfg])
next
  case (Suc m)
  then have i: "i < length es" by simp
  define en where "en = es ! i"
  have en: "en \<in> set es" "conf_entry_ok en" "entry_fits en" using i ok by (auto simp: en_def)
  have d: "drop i es = en # drop (Suc i) es" using i by (simp add: en_def Cons_nth_drop_Suc)
  obtain b where b: "kn_content (fst en) = Some b" "cstr b = key_bytes (fst en)"
    using en(2) by (auto simp: conf_entry_ok_def key_ok_def key_bytes_def split: option.splits)
  note IH = Suc.hyps(1) [of "Suc i"]
  have nxt: "smw_next \<lparr>index = int i, smw_sm = Some cfg\<rparr> =
      Ret (Some \<lparr>kvp_key = Some (fst en), kvp_value = snd en\<rparr>, \<lparr>index = int (Suc i), smw_sm = Some cfg\<rparr>)"
    using smw_next_rep [OF cfg, of i] i by (simp add: en_def)
  show ?case
  proof (cases "\<exists>v. snd en = Some v \<and> does_the_strings_match fnmatch (Some pat) (Some b) = MATCH")
    case True
    then obtain v where v: "snd en = Some v" "does_the_strings_match fnmatch (Some pat) (Some b) = MATCH"
      by blast
    let ?acc = "if key_bytes (fst en) \<in> fst ` set acc then acc
                else acc @ [(key_bytes (fst en), value_bytes v)]"
    obtain cs1 where cs1: "insert_key_value_str_to_str_array
        \<lparr>kvp_key = Some (fst en), kvp_value = Some v\<rparr> cs = Ret cs1" "conf_rep n cs1 ?acc" "acc_ok es ?acc"
      using insert_rep [OF Suc.prems(1,2) n en v(1)] by (auto simp: Let_def)
    have "conf_step fnmatch pat acc en = ?acc"
      using v b(2) by (simp add: conf_step_def does_the_strings_match_def split: if_splits)
    with IH [OF _ cs1(2,3)] Suc.hyps(2) i nxt v b cs1(1) show ?thesis
      by (subst conf_scan.simps) (simp add: d del: of_nat_Suc)
  next
    case False
    then have "conf_step fnmatch pat acc en = acc"
      using b(2) by (auto simp: conf_step_def does_the_strings_match_def split: option.splits if_splits)
    moreover have "conf_scan fnmatch (Some pat) \<lparr>index = int i, smw_sm = Some cfg\<rparr> cs =
        conf_scan fnmatch (Some pat) \<lparr>index = int (Suc i), smw_sm = Some cfg\<rparr> cs"
      using nxt b False
      by (subst conf_scan.simps) (cases "snd en"; simp add: insert_key_value_str_to_str_array_def del: of_nat_Suc)
    ultimately show ?thesis using IH [OF _ Suc.prems(1,2)] Suc.hyps(2) i by (simp add: d)
  qed
qed

lemma conf_patterns_rep:
  assumes cfg: "sm_rep cfg es" and ok: "\<forall>en\<in>set es. conf_entry_ok en \<and> entry_fits en" and n: "n = length es" "n < 2 ^ 32"
  shows "\<forall>nd\<in>set ns. node_wf nd \<Longrightarrow> conf_rep n cs acc \<Longrightarrow> acc_ok es acc \<Longrightarrow>
    \<exists>cs'. conf_patterns fnmatch ns cfg cs = Ret cs' \<and> conf_rep n cs' (conf_hits fnmatch ns es acc) \<and>
      acc_ok es (conf_hits fnmatch ns es acc)"
proof (induction ns arbitrary: cs acc)
  case (Cons nd ns)
  show ?case
  proof (cases nd)
    case (BulkStringNode c sz)
    with Cons.prems(1) obtain pat where pat: "c = Some pat" by (cases c) auto
    from conf_scan_rep [OF cfg ok n Cons.prems(2,3), of 0 fnmatch pat] obtain cs' where
      "conf_scan fnmatch (Some pat) (init_simple_map_wrapper (Some cfg)) cs = Ret cs'"
      "conf_rep n cs' (foldl (conf_step fnmatch pat) acc es)"
      "acc_ok es (foldl (conf_step fnmatch pat) acc es)"
      by (auto simp: init_simple_map_wrapper_def)
    with Cons.IH [of cs' "foldl (conf_step fnmatch pat) acc es"] Cons.prems(1) show ?thesis
      by (simp add: BulkStringNode pat)
  qed (use Cons in auto)
qed simp

section \<open>The reply\<close>

lemma resp_put_ok:
  "length r + length t < tb \<Longrightarrow> int (length r + length t) \<le> INT_MAX \<Longrightarrow>
    resp_put tb t (r, int (length r)) = Ret (r @ t, int (length (r @ t)))"
  by (simp add: resp_put_def snprintf_buf_def)

lemma gen_loop_ok:
  "\<forall>(k, v)\<in>set acc. NUL \<notin> set k \<and> NUL \<notin> set v \<Longrightarrow> length r + length (hits_text acc) < tb \<Longrightarrow>
    int (length r + length (hits_text acc)) \<le> INT_MAX \<Longrightarrow>
    gen_loop tb (map (\<lambda>p. (Ptr (bulk (fst p)), Ptr (bulk (snd p)))) acc) (r, int (length r)) =
    Ret (Some (r @ hits_text acc))"
proof (induction acc arbitrary: r)
  case (Cons p acc)
  let ?t = "bulk (fst p) @ bulk (snd p)"
  have ht: "hits_text (p # acc) = ?t @ hits_text acc" by (simp add: hits_text_def split: prod.splits)
  have c: "cstr (bulk (fst p)) @ cstr (bulk (snd p)) = ?t"
    using Cons.prems(1) by (simp add: bulk_no_NUL split: prod.splits)
  have "resp_put tb ?t (r, int (length r)) = Ret (r @ ?t, int (length (r @ ?t)))"
    using Cons.prems(2,3) ht by (intro resp_put_ok) simp_all
  moreover have "gen_loop tb (map (\<lambda>p. (Ptr (bulk (fst p)), Ptr (bulk (snd p)))) acc) (r @ ?t, int (length (r @ ?t))) =
      Ret (Some ((r @ ?t) @ hits_text acc))"
    using Cons.prems ht by (intro Cons.IH) simp_all
  ultimately show ?case using ht c by (simp del: of_nat_add length_append)
qed (simp add: hits_text_def)

lemma hits_text_length:
  "length (hits_text acc) = length (concat (map (\<lambda>p. bulk (fst p)) acc)) + length (concat (map (\<lambda>p. bulk (snd p)) acc))"
  by (induction acc) (auto simp: hits_text_def)

lemma generate_rep:
  assumes rep: "conf_rep n cs acc" and acc: "acc_ok es acc" and small: "length acc < 5000000"
    and some: "acc \<noteq> []" and fits: "int (length (conf_reply acc)) \<le> INT_MAX"
  shows "generate_conf_get_response (key_array cs) (value_array cs)
      (total_bytes_key_arr cs) (total_bytes_val_arr cs) (unat (nr_inserted_el cs)) =
    Ret (Some (''*'' @ dec_nat (2 * length acc) @ CRLF @ hits_text acc))"
proof -
  have fit: "int (length (''*'' @ dec_nat (2 * length acc) @ CRLF) + length (hits_text acc)) \<le> INT_MAX"
    using fits some by (simp add: conf_reply_def)
  then have fits: "length (hits_text acc) < 2 ^ 32" by simp
  have nr: "unat (nr_inserted_el cs) = length acc"
    using rep small by (simp add: conf_rep_def unat_of_nat)
  have bufsz: "snprintf_buf 8 (dec_nat (2 * length acc)) = dec_nat (2 * length acc)"
    using dec_nat_length_le [of "2 * length acc" 6] small by (simp add: snprintf_buf_def)
  have tot: "unat (total_bytes_key_arr cs) + unat (total_bytes_val_arr cs) = length (hits_text acc)"
    using rep fits by (simp add: conf_rep_def hits_text_length unat_of_nat)
  let ?hd = "''*'' @ dec_nat (2 * length acc) @ CRLF"
  let ?tb = "1 + length (dec_nat (2 * length acc)) + 2 + unat (total_bytes_key_arr cs) +
    unat (total_bytes_val_arr cs) + 1"
  have tb: "?tb = length (?hd @ hits_text acc) + 1" using tot by simp
  have zip: "zip (take (length acc) (key_array cs)) (take (length acc) (value_array cs)) =
      map (\<lambda>p. (Ptr (bulk (fst p)), Ptr (bulk (snd p)))) acc"
    using rep by (simp add: conf_rep_def zip_map_map zip_same_conv_map)
  have "resp_put ?tb ?hd ([], 0) = Ret (?hd, int (length ?hd))"
    using resp_put_ok [of "[]" ?hd ?tb] tb fit by simp
  moreover have "gen_loop ?tb (map (\<lambda>p. (Ptr (bulk (fst p)), Ptr (bulk (snd p)))) acc) (?hd, int (length ?hd)) =
      Ret (Some (?hd @ hits_text acc))"
    using acc tb fit by (intro gen_loop_ok) (auto simp: acc_ok_def)
  moreover have "length acc \<le> length (key_array cs)" "length acc \<le> length (value_array cs)"
    using rep by (simp_all add: conf_rep_def)
  ultimately show ?thesis
    by (simp only: generate_conf_get_response_def Let_def nr bufsz zip obind.simps not_less [symmetric]
        simp_thms if_False append_assoc)
qed

lemma conf_hits_length:
  assumes "acc_ok es acc" shows "length acc \<le> length es"
proof -
  have "length acc = card (fst ` set acc)"
    using assms distinct_card [of "map fst acc"] by (simp add: acc_ok_def)
  also have "\<dots> \<le> card ((\<lambda>en. key_bytes (fst en)) ` set es)"
    using assms by (intro card_mono) (auto simp: acc_ok_def)
  also have "\<dots> \<le> length es" by (meson card_image_le card_length finite_set le_trans)
  finally show ?thesis .
qed

lemma handle_conf_get_exact:
  assumes cfg: "sm_rep cfg es" "es \<noteq> []" "length es < 5000000" and ok: "\<forall>en\<in>set es. conf_entry_ok en \<and> entry_fits en"
    and ns: "ns \<noteq> []" "\<forall>nd\<in>set ns. node_wf nd"
    and fits: "int (length (conf_reply (conf_hits fnmatch ns es []))) \<le> INT_MAX"
  shows "handle_conf_get fnmatch ns cfg = Ret (Some (conf_reply (conf_hits fnmatch ns es [])))"
proof -
  let ?n = "length es" and ?acc = "conf_hits fnmatch ns es []"
  let ?cs = "\<lparr>value_array = replicate ?n Uninit, key_array = replicate ?n Uninit,
    total_bytes_val_arr = 0, total_bytes_key_arr = 0, nr_inserted_el = 0\<rparr>"
  have t: "top cfg = int ?n - 1" "keys cfg \<noteq> None" "vals cfg \<noteq> None"
    using cfg(1) by (auto simp: sm_rep_def)
  have "conf_rep ?n ?cs []" "acc_ok es []" by (simp_all add: conf_rep_def acc_ok_def)
  from conf_patterns_rep [OF cfg(1) ok refl _ ns(2) this, of fnmatch] cfg(3) obtain cs' where
    cs': "conf_patterns fnmatch ns cfg ?cs = Ret cs'" "conf_rep ?n cs' ?acc" "acc_ok es ?acc" by auto
  have small: "length ?acc < 5000000" using conf_hits_length [OF cs'(3)] cfg(3) by simp
  have nr: "nr_inserted_el cs' = 0 \<longleftrightarrow> ?acc = []"
    using cs'(2) small by (auto simp: conf_rep_def word_of_nat_eq_0_iff dest: dvd_imp_le)
  have "handle_conf_get fnmatch ns cfg = (if nr_inserted_el cs' = 0 then Ret (Some (''*0'' @ CRLF))
      else generate_conf_get_response (key_array cs') (value_array cs')
        (total_bytes_key_arr cs') (total_bytes_val_arr cs') (unat (nr_inserted_el cs')))"
    using t ns(1) cfg(2) cs'(1) by (auto simp: handle_conf_get_def)
  with nr generate_rep [OF cs'(2,3) small _ fits] show ?thesis by (simp add: conf_reply_def)
qed

text \<open>The option words, up to case.\<close>

lemma conf_option_literals:
  "literal_pattern ''GET''" "literal_pattern ''SET''" "NUL \<notin> set ''GET''" "NUL \<notin> set ''SET''"
  by (simp_all add: literal_pattern_def)

lemma handle_conf_cmd_option:
  assumes "fnmatch_casefold f" "keys cfg \<noteq> None" "vals cfg \<noteq> None"
  shows "handle_conf_cmd f (BulkStringNode (Some cmd) sz # args) cfg =
    (if casefold (cstr cmd) = casefold ''GET'' then handle_conf_get f args cfg else Ret None)"
proof -
  note m = does_the_strings_match_literal [OF assms(1) conf_option_literals(1,3)]
    does_the_strings_match_literal [OF assms(1) conf_option_literals(2,4)]
  have run: "handle_conf_cmd f (BulkStringNode (Some cmd) sz # args) cfg =
      conf_cmd_loop f cmd args cfg (Some ''GET'', CONF_GET) 0"
    using assms(2,3) by (auto simp: handle_conf_cmd_def config_cmd_options_def)
  have last: "conf_cmd_loop f cmd args cfg (None, x) i = Ret None" for x i
    by (subst conf_cmd_loop.simps) simp
  have second: "conf_cmd_loop f cmd args cfg (Some ''SET'', CONF_SET) 2 = Ret None"
    by (subst conf_cmd_loop.simps) (simp add: m last config_cmd_options_def)
  show ?thesis
  proof (cases "casefold ''GET'' = casefold (cstr cmd)")
    case True
    then show ?thesis by (subst run, subst conf_cmd_loop.simps) (simp add: m)
  next
    case False
    then have "conf_cmd_loop f cmd args cfg (Some ''GET'', CONF_GET) 1 = Ret None"
      by (subst conf_cmd_loop.simps) (simp add: m second [unfolded numeral_2_eq_2] config_cmd_options_def)
    with False show ?thesis
      by (subst run, subst conf_cmd_loop.simps) (auto simp: m config_cmd_options_def)
  qed
qed

section \<open>Properties\<close>

definition demo_config :: data_map where
  "demo_config =
     \<lparr>keys = Some [Ptr (Some (made_key (Timespec 1 0) ''dir'')), Ptr (Some (made_key (Timespec 1 0) ''dbfilename''))],
      vals = Some [Ptr (Some (made_value ''/tmp'')), Ptr (Some (made_value ''dump.rdb''))], capacity = 2, top = 1\<rparr>"

definition demo_entries :: "conf_entry list" where
  "demo_entries = [(made_key (Timespec 1 0) ''dir'', Some (made_value ''/tmp'')),
     (made_key (Timespec 1 0) ''dbfilename'', Some (made_value ''dump.rdb''))]"

lemma demo_config_rep:
  "sm_rep demo_config demo_entries" "\<forall>en\<in>set demo_entries. conf_entry_ok en"
  "\<forall>en\<in>set demo_entries. entry_fits en"
  by (simp_all add: sm_rep_def demo_config_def demo_entries_def conf_entry_ok_def entry_fits_def PROTO_MAX_BULK_SIZE_def)

lemma demo_hits:
  "conf_hits glob_fnmatch [arg ''*'', arg ''dir''] demo_entries [] = [(''dir'', ''/tmp''), (''dbfilename'', ''dump.rdb'')]"
  by (simp add: arg_def demo_entries_def conf_step_def glob_fnmatch_def glob_match_star cstr_def)

text \<open>C28. CONFIG GET never writes or reads outside its arrays and response buffer, and its reply lists
  exactly the configuration entries that some pattern selects, in order and each once, with the right
  element count; without a match it is the empty array. This is for a configuration of fewer than
  5,000,000 entries whose texts are no longer than the protocol's limit, and a reply of at most
  \<^verbatim>\<open>INT_MAX\<close> bytes: the write position is an \<^verbatim>\<open>int\<close>.\<close>

theorem config_get_exact:
  assumes "sm_rep cfg es" "es \<noteq> []" "length es < 5000000" "\<forall>en\<in>set es. conf_entry_ok en \<and> entry_fits en"
    "ns \<noteq> []" "\<forall>nd\<in>set ns. node_wf nd" "int (length (conf_reply (conf_hits fnmatch ns es []))) \<le> INT_MAX"
  shows "handle_conf_get fnmatch ns cfg = Ret (Some (conf_reply (conf_hits fnmatch ns es [])))"
  using assms by (rule handle_conf_get_exact)

lemma demo_reply_length:
  "length (conf_reply [(''dir'', ''/tmp''), (''dbfilename'', ''dump.rdb'')]) = 54"
  by code_simp

theorem config_get_exact_witness:
  "handle_conf_get glob_fnmatch [arg ''*'', arg ''dir''] demo_config =
    Ret (Some (conf_reply [(''dir'', ''/tmp''), (''dbfilename'', ''dump.rdb'')]))"
  using config_get_exact [of demo_config demo_entries "[arg ''*'', arg ''dir'']" glob_fnmatch]
    demo_config_rep demo_reply_length
  by (simp add: demo_hits PROTO_MAX_BULK_SIZE_def) (simp add: demo_entries_def)

end
