(* ===== verification/Dispatch.thy ===== *)
theory Dispatch
  imports Get_Cmd Echo_Cmd Config_Cmd
begin

text \<open>
  The command dispatcher of \<^verbatim>\<open>src/src/cmd_handler.c\<close>: \<^verbatim>\<open>find_redis_cmd\<close> and \<^verbatim>\<open>parse_command\<close>, with
  the lemmas that reduce a request to the handler of its command, and the abstract behaviour of a
  request on the store.
\<close>

section \<open>Operations\<close>

datatype RedisCommand = NULL_CMD | ECHO | SET | GET | CONFIG

definition command_table :: "(string option \<times> RedisCommand) list" where
  "command_table = [(Some ''ECHO'', ECHO), (Some ''SET'', SET), (Some ''GET'', GET),
     (Some ''CONFIG'', CONFIG), (None, NULL_CMD)]"

text \<open>\<^verbatim>\<open>item = command_table[i++]\<close> visits the first row twice.\<close>

function find_cmd_loop :: "fnmatch_fn \<Rightarrow> string option \<Rightarrow> string option \<times> RedisCommand \<Rightarrow> nat \<Rightarrow>
    RedisCommand outcome" where
  "find_cmd_loop fnmatch cmd item i =
     (case fst item of
        None \<Rightarrow> Ret NULL_CMD
      | Some name \<Rightarrow>
          (case does_the_strings_match fnmatch (Some name) cmd of
             MATCH \<Rightarrow> Ret (snd item)
           | MATCH_ERROR \<Rightarrow> Ret NULL_CMD
           | NO_MATCH \<Rightarrow>
               if i < length command_table
               then find_cmd_loop fnmatch cmd (command_table ! i) (i + 1) else UB))"
  by pat_completeness auto
termination
  by (relation "measure (\<lambda>(f, cmd, item, i). length command_table - i)") auto

declare find_cmd_loop.simps [simp del]

definition find_redis_cmd :: "fnmatch_fn \<Rightarrow> string option \<Rightarrow> RedisCommand outcome" where
  "find_redis_cmd fnmatch cmd = find_cmd_loop fnmatch cmd (command_table ! 0) 0"

text \<open>The maps every worker works on (\<^verbatim>\<open>CmdParserArgs\<close>).\<close>

record CmdParserArgs =
  arg_sm :: "data_map option"
  arg_config_dict :: "data_map option"

text \<open>The loop of \<^verbatim>\<open>parse_command\<close>: a cursor into the tree and the 8-bit counter \<^verbatim>\<open>first_array\<close>.\<close>

fun parse_loop :: "env \<Rightarrow> string \<Rightarrow> data_map \<Rightarrow> data_map \<Rightarrow> node list \<Rightarrow> 8 word \<Rightarrow> exec_result outcome" where
  "parse_loop e nl sm cfg_dict [] first_array = Ret (None, sm, [])"
| "parse_loop e nl sm cfg_dict (ArrayNode content n # rest) first_array =
     parse_loop e nl sm cfg_dict content (first_array + 1)"
| "parse_loop e nl sm cfg_dict (BulkStringNode content n # rest) first_array =
     (if first_array = 1 then
        obind (find_redis_cmd (env_fnmatch e) content) (\<lambda>cmd.
        case cmd of
          ECHO \<Rightarrow> obind (handle_echo_cmd nl rest) (\<lambda>r. Ret (r, sm, []))
        | SET \<Rightarrow> handle_set_cmd e rest sm
        | GET \<Rightarrow> handle_get_cmd e rest sm
        | CONFIG \<Rightarrow> obind (handle_conf_cmd (env_fnmatch e) rest cfg_dict) (\<lambda>r. Ret (r, sm, []))
        | NULL_CMD \<Rightarrow> Ret (None, sm, []))
      else Ret (None, sm, []))"
| "parse_loop e nl sm cfg_dict (BaseNode d # rest) first_array = UB"

text \<open>\<^verbatim>\<open>parse_command\<close>: the reply, the data map afterwards, and the pairs that were freed.\<close>

definition parse_command :: "env \<Rightarrow> string \<Rightarrow> node option \<Rightarrow> CmdParserArgs \<Rightarrow>
    (string option \<times> data_map option \<times> cleaned) outcome" where
  "parse_command e nl nodep args =
     (case (nodep, arg_sm args, arg_config_dict args) of
        (Some nd, Some sm, Some cfg_dict) \<Rightarrow>
          obind (parse_loop e nl sm cfg_dict [nd] 0) (\<lambda>(rtn, sm', freed). Ret (rtn, Some sm', freed))
      | _ \<Rightarrow> Ret (None, arg_sm args, []))"

section \<open>Finding the command\<close>

lemma command_literals:
  "literal_pattern ''ECHO''" "literal_pattern ''SET''" "literal_pattern ''GET''" "literal_pattern ''CONFIG''"
  "NUL \<notin> set ''ECHO''" "NUL \<notin> set ''SET''" "NUL \<notin> set ''GET''" "NUL \<notin> set ''CONFIG''"
  by (simp_all add: literal_pattern_def)

definition command_of :: "string \<Rightarrow> RedisCommand" where
  "command_of c =
     (if casefold c = ''ECHO'' then ECHO else if casefold c = ''SET'' then SET
      else if casefold c = ''GET'' then GET else if casefold c = ''CONFIG'' then CONFIG else NULL_CMD)"

lemma casefold_names:
  "casefold ''ECHO'' = ''ECHO''" "casefold ''SET'' = ''SET''" "casefold ''GET'' = ''GET''"
  "casefold ''CONFIG'' = ''CONFIG''"
  by (simp_all add: casefold_def to_upper_def)

lemma find_redis_cmd_command_of:
  assumes f: "fnmatch_casefold f"
  shows "find_redis_cmd f (Some c) = Ret (command_of (cstr c))"
proof -
  let ?c = "casefold (cstr c)"
  note m = does_the_strings_match_literal [OF f command_literals(1,5), of c]
    does_the_strings_match_literal [OF f command_literals(2,6), of c]
    does_the_strings_match_literal [OF f command_literals(3,7), of c]
    does_the_strings_match_literal [OF f command_literals(4,8), of c]
  note * = m casefold_names command_table_def eq_commute [of _ ?c]
  have r5: "find_cmd_loop f (Some c) (None, NULL_CMD) i = Ret NULL_CMD" for i
    by (subst find_cmd_loop.simps) simp
  have r4: "find_cmd_loop f (Some c) (Some ''CONFIG'', CONFIG) 4 =
      Ret (if ?c = ''CONFIG'' then CONFIG else NULL_CMD)"
    by (subst find_cmd_loop.simps) (simp add: * r5)
  have r3: "find_cmd_loop f (Some c) (Some ''GET'', GET) 3 =
      Ret (if ?c = ''GET'' then GET else if ?c = ''CONFIG'' then CONFIG else NULL_CMD)"
    using r4 by (subst find_cmd_loop.simps) (simp add: *)
  have r2: "find_cmd_loop f (Some c) (Some ''SET'', SET) 2 =
      Ret (if ?c = ''SET'' then SET else if ?c = ''GET'' then GET
           else if ?c = ''CONFIG'' then CONFIG else NULL_CMD)"
    using r3 by (subst find_cmd_loop.simps) (simp add: *)
  have r1: "find_cmd_loop f (Some c) (Some ''ECHO'', ECHO) 1 = Ret (command_of (cstr c))"
    using r2 by (subst find_cmd_loop.simps) (simp add: * command_of_def numeral_2_eq_2)
  then have "find_cmd_loop f (Some c) (Some ''ECHO'', ECHO) 0 = Ret (command_of (cstr c))"
    by (subst find_cmd_loop.simps) (simp add: * command_of_def)
  then show ?thesis by (simp add: find_redis_cmd_def command_table_def)
qed

section \<open>What a request does to the store\<close>

text \<open>The behaviour of a well-formed request: the reply (\<open>None\<close> for an error) and the new store.
  \<open>es\<close> are the entries of the configuration.\<close>

definition echo_reply :: "node list \<Rightarrow> string option" where
  "echo_reply args = (if args = [] then None else Some (resps args))"

definition config_reply :: "fnmatch_fn \<Rightarrow> conf_entry list \<Rightarrow> node list \<Rightarrow> string option" where
  "config_reply fnmatch es args =
     (if args \<noteq> [] \<and> is_bulk (hd args) \<and> casefold (cstr (node_text (hd args))) = ''GET'' \<and> tl args \<noteq> []
      then Some (conf_reply (conf_hits fnmatch (tl args) es [])) else None)"

definition serve :: "env \<Rightarrow> conf_entry list \<Rightarrow> node \<Rightarrow> db \<Rightarrow> string option \<times> db" where
  "serve e es req d =
     (case req of
        ArrayNode (BulkStringNode (Some c) n # args) m \<Rightarrow>
          (case command_of (cstr c) of
             ECHO \<Rightarrow> (echo_reply args, d)
           | SET \<Rightarrow> (case set_grammar args of None \<Rightarrow> (None, d) | Some rq \<Rightarrow> set_spec (env_now e) rq d)
           | GET \<Rightarrow> (case get_request args of
                       None \<Rightarrow> (None, d)
                     | Some k \<Rightarrow> map_prod Some id (get_spec (env_now e) k d))
           | CONFIG \<Rightarrow> (config_reply (env_fnmatch e) es args, d)
           | NULL_CMD \<Rightarrow> (None, d))
      | _ \<Rightarrow> (None, d))"

text \<open>The requests for which the behaviour above is guaranteed: an array that starts with a bulk
  string, whose ECHO arguments are echoable and whose CONFIG reply fits its counters (an \<^verbatim>\<open>int\<close> position).\<close>

definition servable :: "env \<Rightarrow> conf_entry list \<Rightarrow> node \<Rightarrow> bool" where
  "servable e es req \<longleftrightarrow>
     (case req of
        ArrayNode (BulkStringNode (Some c) n # args) m \<Rightarrow>
          (\<forall>nd\<in>set args. node_wf nd) \<and>
          (command_of (cstr c) = ECHO \<longrightarrow> echoable args \<and> int (length (resps args)) < INT_MAX) \<and>
          (command_of (cstr c) = CONFIG \<longrightarrow>
             (\<forall>en\<in>set es. entry_fits en) \<and>
             int (length (conf_reply (conf_hits (env_fnmatch e) (tl args) es []))) \<le> INT_MAX)
      | _ \<Rightarrow> False)"

definition config_ok :: "data_map \<Rightarrow> conf_entry list \<Rightarrow> bool" where
  "config_ok cfg es \<longleftrightarrow> sm_rep cfg es \<and> es \<noteq> [] \<and> length es < 5000000 \<and> (\<forall>en\<in>set es. conf_entry_ok en)"

lemma servableE:
  assumes "servable e es req"
  obtains c n args m where "req = ArrayNode (BulkStringNode (Some c) n # args) m"
proof (cases req)
  case (ArrayNode ns m)
  with assms that show ?thesis
    by (cases ns; cases "hd ns") (auto simp: servable_def split: option.splits)
qed (use assms in \<open>auto simp: servable_def\<close>)

lemma handle_conf_cmd_reply:
  assumes cfg: "config_ok cfg es" and f: "fnmatch_casefold f" and ns: "\<forall>nd\<in>set ns. node_wf nd"
    and fits: "\<forall>en\<in>set es. entry_fits en" "int (length (conf_reply (conf_hits f (tl ns) es []))) \<le> INT_MAX"
  shows "handle_conf_cmd f ns cfg = Ret (config_reply f es ns)"
proof (cases "ns \<noteq> [] \<and> is_bulk (hd ns)")
  case True
  then obtain nd args where nsd: "ns = nd # args" "is_bulk nd" by (cases ns) auto
  then have nd: "nd = BulkStringNode (Some (node_text nd)) (int (length (node_text nd)))"
    using ns bulk_wf by simp
  have kv: "keys cfg \<noteq> None" "vals cfg \<noteq> None" using cfg by (auto simp: config_ok_def sm_rep_def)
  have run: "handle_conf_cmd f ns cfg =
      (if casefold (cstr (node_text nd)) = ''GET'' then handle_conf_get f args cfg else Ret None)"
    unfolding nsd(1) by (subst nd) (simp add: handle_conf_cmd_option [OF f kv] casefold_names)
  have empty: "handle_conf_get f [] cfg = Ret None" by (simp add: handle_conf_get_def)
  have full: "handle_conf_get f args cfg = Ret (Some (conf_reply (conf_hits f args es [])))" if "args \<noteq> []"
    using cfg that ns fits nsd by (intro handle_conf_get_exact) (auto simp: config_ok_def)
  show ?thesis
    using run full empty nsd by (auto simp: config_reply_def)
next
  case False
  then show ?thesis
    using ns by (cases ns; cases "hd ns") (auto simp: handle_conf_cmd_def config_reply_def)
qed

lemma handle_echo_cmd_reply:
  assumes "echoable args" "int (length (resps args)) < INT_MAX" "NUL \<notin> set nl"
  shows "handle_echo_cmd nl args = Ret (echo_reply args)"
  using assms handle_echo_cmd_exact [of args nl]
  by (cases "args = []") (simp_all add: echo_reply_def handle_echo_cmd_def)

lemma parse_loop_serve:
  assumes rep: "db_rep sm d" and cfg: "config_ok cfg es" and f: "fnmatch_casefold (env_fnmatch e)"
    and nl: "NUL \<notin> set nl" and req: "servable e es req" and room: "room (env_alloc e) sm"
  shows "leads_to (parse_loop e nl sm cfg [req] 0) sm d (fst (serve e es req d)) (snd (serve e es req d))"
proof -
  from req obtain c n args m where r: "req = ArrayNode (BulkStringNode (Some c) n # args) m"
    by (rule servableE)
  have wf: "\<forall>nd\<in>set args. node_wf nd" using req by (simp add: servable_def r)
  note * = r serve_def find_redis_cmd_command_of [OF f]
  show ?thesis
  proof (cases "command_of (cstr c)")
    case NULL_CMD
    with leads_to_same [OF rep] show ?thesis by (simp add: *)
  next
    case ECHO
    with req leads_to_same [OF rep] handle_echo_cmd_reply [OF _ _ nl, of args] show ?thesis
      by (simp add: * servable_def)
  next
    case SET
    show ?thesis
    proof (cases "set_grammar args")
      case None
      with SET leads_to_same [OF rep] handle_set_cmd_invalid [OF wf None] show ?thesis by (simp add: *)
    next
      case (Some rq)
      with SET handle_set_cmd_db [OF rep wf Some room] show ?thesis by (simp add: *)
    qed
  next
    case GET
    show ?thesis
    proof (cases "get_request args")
      case None
      with GET leads_to_same [OF rep] handle_get_cmd_invalid [OF wf None] show ?thesis by (simp add: *)
    next
      case (Some k)
      with GET handle_get_cmd_db [OF rep wf Some] show ?thesis by (simp add: *)
    qed
  next
    case CONFIG
    with req leads_to_same [OF rep] handle_conf_cmd_reply [OF cfg f wf] show ?thesis
      by (simp add: * servable_def)
  qed
qed

end
