(* ===== verification/App.thy ===== *)
theory App
  imports Dispatch
begin

text \<open>
  The request loop of one worker, \<^verbatim>\<open>app_code\<close> in \<^verbatim>\<open>src/src/app.c\<close>: read a type byte, read the array,
  run the command and send the reply, until the peer closes, a read fails or the request is
  malformed. \<open>envs k\<close> is what the environment answers during the \<open>k\<close>-th command. \<open>serve_all\<close> is the
  behaviour of a sequence of requests on the abstract store, and \<open>app_serves\<close> the end-to-end
  refinement from bytes received to bytes sent.
\<close>

section \<open>Operations\<close>

definition PARSE_ERROR_MSG :: string where
  "PARSE_ERROR_MSG = ''An error occured while parsing the command.''"

text \<open>\<^verbatim>\<open>send_resp_to_clnt(msg, strlen(msg)+1, fd, 3, 500)\<close>: the text with its terminating NUL.\<close>

definition send_text :: "string \<Rightarrow> sock \<Rightarrow> (int \<times> sock) outcome" where
  "send_text msg s = send_resp_to_clnt (cstr msg @ [NUL]) 3 500 s"

lemma send_rx: "snd (send msg s) = s' \<Longrightarrow> rx s' = rx s"
  by (auto simp: send_def split: list.splits tx_event.splits)

lemma wp_send_retry: "wp (send_retry n e tm msg s) (\<lambda>(r, s'). rx s' = rx s)"
proof (induction n arbitrary: e s)
  case (Suc n)
  have "wp (case send msg s1 of (Inl e', s2) \<Rightarrow> send_retry n e' tm msg s2 | (Inr k, s2) \<Rightarrow> Ret (int k, s2))
      (\<lambda>(r, s'). rx s' = rx s)" if "rx s1 = rx s" for s1
  proof -
    obtain x s2 where x: "send msg s1 = (x, s2)" by fastforce
    with send_rx [of msg s1 s2] that show ?thesis by (cases x) (auto intro!: wp_mono [OF Suc.IH])
  qed
  then show ?case by (auto intro!: wp_mono [OF wp_msleep])
qed simp

lemma wp_send_text: "wp (send_text msg s) (\<lambda>(r, s'). rx s' = rx s)"
proof -
  obtain x s2 where x: "send (cstr msg @ [NUL]) s = (x, s2)" by fastforce
  with send_rx [of "cstr msg @ [NUL]" s s2] show ?thesis
    by (cases x) (auto simp: send_text_def send_resp_to_clnt_def intro!: wp_mono [OF wp_send_retry])
qed

text \<open>What each step of a turn leaves to be read.\<close>

lemma recv_byte_less:
  "recv_resp_fm_clnt (Suc 0) 3 0 s = Ret (RecvOk (b # bs), s1) \<Longrightarrow> length (rx s1) < length (rx s)"
  using wpD [OF wp_recv_resp] by (fastforce simp: took_def)

lemma lexer_le: "lexer s = Ret (r, s1) \<Longrightarrow> length (rx s1) \<le> length (rx s)"
  using wpD [OF wp_lexer] by (fastforce simp: lexed_def)

lemma send_text_rx: "send_text msg s = Ret (r, s1) \<Longrightarrow> rx s1 = rx s"
  using wpD [OF wp_send_text] by fastforce

text \<open>One iteration of the loop: it ends the loop, skips a byte, or handles a request.\<close>

datatype turn = Stop | Skip | Turn

definition app_iter :: "env \<Rightarrow> string \<Rightarrow> CmdParserArgs \<Rightarrow> sock \<Rightarrow> (turn \<times> sock \<times> CmdParserArgs) outcome" where
  "app_iter e nl args s =
     obind (recv_resp_fm_clnt (Suc 0) 3 0 s) (\<lambda>(r, s1).
     case r of
       RecvErr er \<Rightarrow> Ret (Stop, s1, args)
     | RecvOk [] \<Rightarrow> Ret (Stop, s1, args)
     | RecvOk (b # bs) \<Rightarrow>
         if b = CHR ''*'' then
           obind (lexer s1) (\<lambda>(arrayp, s2).
           case arrayp of
             None \<Rightarrow> obind (send_text PARSE_ERROR_MSG s2) (\<lambda>(rtn_v, s3). Ret (Stop, s3, args))
           | Some array \<Rightarrow>
               obind (print_array [array]) (\<lambda>_.
               obind (parse_command e nl (Some array) args) (\<lambda>(rtn_s, smp, freed).
               obind (send_text (case rtn_s of None \<Rightarrow> PARSE_ERROR_MSG | Some reply \<Rightarrow> reply) s2)
                 (\<lambda>(rtn_v, s3).
               if rtn_v = -1 then Ret (Turn, s3, args\<lparr>arg_sm := smp\<rparr>)
               else obind (delete_array [array]) (\<lambda>n. Ret (Turn, s3, args\<lparr>arg_sm := smp\<rparr>))))))
         else Ret (Skip, s1, args))"

text \<open>The part of an iteration that reads from the connection, and the test whether it would read past the
  bytes that have arrived: with one more byte at the end, it would take that byte. On a connection that
  the peer has not closed, \<^verbatim>\<open>recv\<close> then blocks.\<close>

definition read_phase :: "sock \<Rightarrow> sock outcome" where
  "read_phase s =
     obind (recv_resp_fm_clnt (Suc 0) 3 0 s) (\<lambda>(r, s1).
     case r of
       RecvErr er \<Rightarrow> Ret s1
     | RecvOk [] \<Rightarrow> Ret s1
     | RecvOk (b # bs) \<Rightarrow>
         if b = CHR ''*'' then obind (lexer s1) (\<lambda>(arrayp, s2). Ret s2) else Ret s1)"

definition awaits :: "sock \<Rightarrow> bool" where
  "awaits s \<longleftrightarrow> (\<exists>c. case read_phase (s\<lparr>rx := rx s @ [RxByte c]\<rparr>) of Ret s' \<Rightarrow> rx s' = [] | _ \<Rightarrow> False)"

text \<open>What an iteration leaves to be read is what its reading part leaves.\<close>

lemma app_iter_reads:
  assumes "app_iter e nl args s = Ret (t, s', args')"
  shows "\<exists>s1. read_phase s = Ret s1 \<and> rx s' = rx s1"
proof -
  from assms obtain x s1 where x: "recv_resp_fm_clnt (Suc 0) 3 0 s = Ret (x, s1)"
    by (cases "recv_resp_fm_clnt (Suc 0) 3 0 s") (auto simp: app_iter_def)
  show ?thesis
  proof (cases x)
    case (RecvOk bs)
    with x assms show ?thesis
      by (cases bs) (auto simp: app_iter_def read_phase_def obind_Ret_iff send_text_rx split: if_splits option.splits)
  qed (use x assms in \<open>auto simp: app_iter_def read_phase_def\<close>)
qed

lemma app_iter_less:
  assumes "app_iter e nl args s = Ret (t, s', args')" "t \<noteq> Stop"
  shows "length (rx s') < length (rx s)"
proof -
  from assms(1) obtain x s1 where x: "recv_resp_fm_clnt (Suc 0) 3 0 s = Ret (x, s1)"
    by (cases "recv_resp_fm_clnt (Suc 0) 3 0 s") (auto simp: app_iter_def)
  obtain b bs where "x = RecvOk (b # bs)"
  proof (cases x)
    case (RecvOk bs)
    with x assms that show ?thesis by (cases bs) (auto simp: app_iter_def)
  qed (use x assms in \<open>auto simp: app_iter_def\<close>)
  with x have r: "recv_resp_fm_clnt (Suc 0) 3 0 s = Ret (RecvOk (b # bs), s1)" by simp
  have "rx s' = rx s1 \<or> (\<exists>a s2. lexer s1 = Ret (a, s2) \<and> rx s' = rx s2)"
    using assms r by (auto simp: app_iter_def obind_Ret_iff send_text_rx split: if_splits option.splits)
  with recv_byte_less [OF r] lexer_le [of s1] show ?thesis by (fastforce dest: le_less_trans)
qed

function app_loop :: "(nat \<Rightarrow> env) \<Rightarrow> string \<Rightarrow> nat \<Rightarrow> CmdParserArgs \<Rightarrow> sock \<Rightarrow>
    (sock \<times> CmdParserArgs) outcome" where
  "app_loop envs nl k args s =
     obind (app_iter (envs k) nl args s) (\<lambda>(t, s', args').
       case t of
         Stop \<Rightarrow> Ret (s', args')
       | Skip \<Rightarrow> app_loop envs nl k args' s'
       | Turn \<Rightarrow> app_loop envs nl (k + 1) args' s')"
  by pat_completeness auto
termination
  by (relation "measure (\<lambda>(envs, nl, k, args, s). length (rx s))") (auto dest: app_iter_less)

declare app_loop.simps [simp del]

text \<open>\<^verbatim>\<open>app_code\<close> on the global maps.\<close>

definition app_code :: "(nat \<Rightarrow> env) \<Rightarrow> string \<Rightarrow> CmdParserArgs \<Rightarrow> sock \<Rightarrow>
    (sock \<times> CmdParserArgs) outcome" where
  "app_code envs nl globals s = app_loop envs nl 0 globals s"

section \<open>A sequence of requests\<close>

definition wire :: "string option \<Rightarrow> string" where
  "wire r = cstr (case r of None \<Rightarrow> PARSE_ERROR_MSG | Some t \<Rightarrow> t) @ [NUL]"

fun serve_all :: "(nat \<Rightarrow> env) \<Rightarrow> conf_entry list \<Rightarrow> nat \<Rightarrow> node list \<Rightarrow> db \<Rightarrow> string \<times> db" where
  "serve_all envs es k [] d = ([], d)"
| "serve_all envs es k (req # reqs) d =
     (let (r, d1) = serve (envs k) es req d; (rs, d2) = serve_all envs es (k + 1) reqs d1
      in (wire r @ rs, d2))"

lemma serve_card:
  assumes "finite (dom d)"
  shows "finite (dom (snd (serve e es req d))) \<and> card (dom (snd (serve e es req d))) \<le> Suc (card (dom d))"
proof -
  have ins: "card (insert k (dom d)) \<le> Suc (card (dom d))" for k
    using assms by (simp add: card_insert_if)
  have del: "card (dom d - {k}) \<le> Suc (card (dom d))" for k
    using card_Diff1_le [of "dom d" k] by linarith
  have st: "finite (dom (snd (set_spec now rq d))) \<and> card (dom (snd (set_spec now rq d))) \<le> Suc (card (dom d))" for now rq
    using assms ins by (auto simp: set_spec_def Let_def split: option.splits prod.splits)
  have gt: "finite (dom (snd (get_spec now k d))) \<and> card (dom (snd (get_spec now k d))) \<le> Suc (card (dom d))" for now k
    using assms del by (auto simp: get_spec_def split: option.splits)
  show ?thesis
    using st gt assms
    by (auto simp: serve_def split: node.splits list.splits option.splits RedisCommand.splits)
qed

lemma db_finite: "db_rep sm d \<Longrightarrow> finite (dom d)"
proof (elim db_repE)
  fix m assume "data_rep sm m" "d = (\<lambda>x. map_option entry_of (m x))"
  moreover from this(1) have "finite (dom m)" by (auto simp: sm_map_def entries_map_def finite_dom_map_of)
  moreover from calculation(2) have "dom d = dom m" by auto
  ultimately show ?thesis by simp
qed

lemma plain_walks:
  "plain nd \<Longrightarrow> print_node nd = Ret () \<and> (\<exists>n. delete_node nd = Ret n) \<and> node_wf nd"
proof (induction nd)
  case (ArrayNode ns sz)
  have "\<forall>nd\<in>set ms. print_node nd = Ret () \<and> (\<exists>n. delete_node nd = Ret n) \<Longrightarrow>
      print_array ms = Ret () \<and> (\<exists>n. delete_array ms = Ret n)" for ms
    by (induction ms) auto
  from this [of ns] ArrayNode show ?case by (auto simp: unat_of_nat)
qed (auto split: option.splits)

text \<open>One turn on a complete request.\<close>

lemma recv_one:
  "rx s = RxByte c # evs \<Longrightarrow> recv_resp_fm_clnt (Suc 0) n tm s = Ret (RecvOk [c], s\<lparr>rx := evs\<rparr>)"
  by (simp add: recv_resp_fm_clnt_def recv_def)

lemma lexer_resp:
  assumes "plain (ArrayNode ns m)" "rx s = rx_bytes (tl (resp (ArrayNode ns m))) @ evs"
  shows "lexer s = Ret (Some (ArrayNode ns m), s\<lparr>rx := evs\<rparr>)"
  using plain_reads [OF assms(1), of "Suc (length (rx s))"] assms(2)
  by (simp add: lexer_def reads_def del: lexer_fuel.simps resp.simps)

lemma send_text_ok:
  "tx s = [] \<Longrightarrow> send_text msg s = Ret (int (strlen msg + 1), s\<lparr>sent := sent s @ cstr msg @ [NUL]\<rparr>)"
  by (simp add: send_text_def send_resp_to_clnt_def send_def strlen_def)

lemma app_turn:
  assumes rep: "db_rep sm d" and cfg: "config_ok cfg es" and f: "fnmatch_casefold (env_fnmatch e)"
    and nl: "NUL \<notin> set nl" and req: "servable e es req" "plain req"
    and room: "room (env_alloc e) sm"
    and s: "rx s = rx_bytes (resp req) @ evs" "tx s = []"
  shows "\<exists>sm'. app_iter e nl \<lparr>arg_sm = Some sm, arg_config_dict = Some cfg\<rparr> s =
      Ret (Turn, s\<lparr>rx := evs, sent := sent s @ wire (fst (serve e es req d))\<rparr>,
        \<lparr>arg_sm = Some sm', arg_config_dict = Some cfg\<rparr>) \<and>
    db_rep sm' (snd (serve e es req d)) \<and>
    capacity sm' \<le> max (capacity sm) (2 * int (card (dom d)))"
proof -
  obtain ns m where r: "req = ArrayNode ns m" using req(1) by (auto elim: servableE)
  let ?s1 = "s\<lparr>rx := rx_bytes (tl (resp req)) @ evs\<rparr>" and ?s2 = "s\<lparr>rx := evs\<rparr>"
  have b: "recv_resp_fm_clnt (Suc 0) 3 0 s = Ret (RecvOk [CHR ''*''], ?s1)"
    using s(1) by (intro recv_one) (simp add: r)
  have l: "lexer ?s1 = Ret (Some req, ?s2)"
    using lexer_resp [of ns m ?s1 evs] req(2) by (simp add: r del: resp.simps)
  have w: "print_array [req] = Ret ()" "\<exists>n. delete_array [req] = Ret n"
    using plain_walks [OF req(2)] by auto
  from parse_loop_serve [OF rep cfg f nl req(1) room] obtain sm' freed where
    p: "parse_loop e nl sm cfg [req] 0 = Ret (fst (serve e es req d), sm', freed)"
      "db_rep sm' (snd (serve e es req d))" "capacity sm' \<le> max (capacity sm) (2 * int (card (dom d)))"
    by (auto simp: leads_to_def)
  have "parse_command e nl (Some req) \<lparr>arg_sm = Some sm, arg_config_dict = Some cfg\<rparr> =
      Ret (fst (serve e es req d), Some sm', freed)"
    using p(1) by (simp add: parse_command_def)
  with b l w s(2) have "app_iter e nl \<lparr>arg_sm = Some sm, arg_config_dict = Some cfg\<rparr> s =
      Ret (Turn, s\<lparr>rx := evs, sent := sent s @ wire (fst (serve e es req d))\<rparr>,
        \<lparr>arg_sm = Some sm', arg_config_dict = Some cfg\<rparr>)"
    by (auto simp: app_iter_def send_text_ok wire_def)
  with p(2,3) show ?thesis by blast
qed

text \<open>An iteration waits on an empty connection, and does not when a whole request has arrived.\<close>

lemma awaits_empty: "rx s = [] \<Longrightarrow> awaits s"
  unfolding awaits_def by (rule exI [of _ "CHR ''x''"]) (simp add: read_phase_def recv_one)

lemma read_phase_request:
  assumes "plain (ArrayNode ns m)" "rx s = rx_bytes (resp (ArrayNode ns m)) @ evs"
  shows "read_phase s = Ret (s\<lparr>rx := evs\<rparr>)"
proof -
  let ?s1 = "s\<lparr>rx := rx_bytes (tl (resp (ArrayNode ns m))) @ evs\<rparr>"
  have "recv_resp_fm_clnt (Suc 0) 3 0 s = Ret (RecvOk [CHR ''*''], ?s1)"
    using assms(2) by (intro recv_one) simp
  moreover have "lexer ?s1 = Ret (Some (ArrayNode ns m), s\<lparr>rx := evs\<rparr>)"
    using lexer_resp [OF assms(1), of ?s1 evs] by (simp del: resp.simps)
  ultimately show ?thesis by (simp add: read_phase_def)
qed

lemma request_arrived:
  assumes "plain (ArrayNode ns m)" "rx s = rx_bytes (resp (ArrayNode ns m)) @ evs"
  shows "\<not> awaits s"
proof
  assume "awaits s"
  then obtain c where c: "case read_phase (s\<lparr>rx := rx s @ [RxByte c]\<rparr>) of Ret s' \<Rightarrow> rx s' = [] | _ \<Rightarrow> False"
    by (auto simp: awaits_def)
  have "rx (s\<lparr>rx := rx s @ [RxByte c]\<rparr>) = rx_bytes (resp (ArrayNode ns m)) @ evs @ [RxByte c]"
    using assms(2) by (simp del: resp.simps)
  from read_phase_request [OF assms(1) this] c show False by simp
qed

lemma app_iter_end:
  "rx s = [] \<Longrightarrow> app_iter e nl args s = Ret (Stop, s\<lparr>rx := []\<rparr>, args)"
  by (simp add: app_iter_def recv_resp_fm_clnt_def recv_def)

text \<open>Any sequence of complete requests, whatever the connection delivers after them.\<close>

lemma app_loop_turns:
  assumes cfg: "config_ok cfg es" and f: "\<forall>k. fnmatch_casefold (env_fnmatch (envs k))"
    and nl: "NUL \<notin> set nl" and al: "\<forall>k. realloc_keys (env_alloc (envs k)) \<and> realloc_values (env_alloc (envs k))"
  shows "db_rep sm d \<Longrightarrow> \<forall>req\<in>set reqs. plain req \<Longrightarrow>
    \<forall>i<length reqs. servable (envs (k + i)) es (reqs ! i) \<Longrightarrow>
    2 * max (capacity sm) (2 * (int (card (dom d)) + int (length reqs))) \<le> INT_MAX \<Longrightarrow>
    rx s = rx_bytes (concat (map resp reqs)) @ evs \<Longrightarrow> tx s = [] \<Longrightarrow>
    \<exists>sm'. app_loop envs nl k \<lparr>arg_sm = Some sm, arg_config_dict = Some cfg\<rparr> s =
        app_loop envs nl (k + length reqs) \<lparr>arg_sm = Some sm', arg_config_dict = Some cfg\<rparr>
          (s\<lparr>rx := evs, sent := sent s @ fst (serve_all envs es k reqs d)\<rparr>) \<and>
      db_rep sm' (snd (serve_all envs es k reqs d))"
proof (induction reqs arbitrary: k sm d s)
  case Nil
  then have "s\<lparr>rx := evs, sent := sent s @ fst (serve_all envs es k [] d)\<rparr> = s" by simp
  with Nil show ?case by auto
next
  case (Cons req reqs)
  let ?r = "fst (serve (envs k) es req d)" and ?d = "snd (serve (envs k) es req d)"
  let ?s = "s\<lparr>rx := rx_bytes (concat (map resp reqs)) @ evs, sent := sent s @ wire ?r\<rparr>"
  have room: "room (env_alloc (envs k)) sm" using Cons.prems(4) al by (auto simp: room_def max_def split: if_splits)
  have sv: "servable (envs k) es req" using Cons.prems(3) by fastforce
  have fk: "fnmatch_casefold (env_fnmatch (envs k))" using f by simp
  from app_turn [where e = "envs k", OF Cons.prems(1) cfg fk nl sv _ room,
      of s "rx_bytes (concat (map resp reqs)) @ evs"] Cons.prems obtain sm' where
    it: "app_iter (envs k) nl \<lparr>arg_sm = Some sm, arg_config_dict = Some cfg\<rparr> s =
        Ret (Turn, ?s, \<lparr>arg_sm = Some sm', arg_config_dict = Some cfg\<rparr>)"
      and t: "db_rep sm' ?d" "capacity sm' \<le> max (capacity sm) (2 * int (card (dom d)))" by auto
  have card: "card (dom ?d) \<le> Suc (card (dom d))"
    using serve_card [OF db_finite [OF Cons.prems(1)]] by blast
  have tail: "\<forall>i<length reqs. servable (envs (k + 1 + i)) es (reqs ! i)"
    using Cons.prems(3) by (metis Suc_less_eq add_Suc_right add_Suc_shift length_Cons nth_Cons_Suc Suc_eq_plus1)
  have bound: "2 * max (capacity sm') (2 * (int (card (dom ?d)) + int (length reqs))) \<le> INT_MAX"
    using Cons.prems(4) t(2) card by (auto simp: max_def split: if_splits)
  from Cons.IH [OF t(1) _ tail bound, of ?s] Cons.prems(2,6) obtain sm'' where
    "app_loop envs nl (k + 1) \<lparr>arg_sm = Some sm', arg_config_dict = Some cfg\<rparr> ?s =
      app_loop envs nl (k + 1 + length reqs) \<lparr>arg_sm = Some sm'', arg_config_dict = Some cfg\<rparr>
        (?s\<lparr>rx := evs, sent := sent ?s @ fst (serve_all envs es (k + 1) reqs ?d)\<rparr>)"
    "db_rep sm'' (snd (serve_all envs es (k + 1) reqs ?d))" by auto
  with it show ?case by (subst app_loop.simps) (auto simp: split_beta Let_def)
qed

lemma app_loop_serves:
  assumes "config_ok cfg es" "\<forall>k. fnmatch_casefold (env_fnmatch (envs k))" "NUL \<notin> set nl"
    "\<forall>k. realloc_keys (env_alloc (envs k)) \<and> realloc_values (env_alloc (envs k))"
    "db_rep sm d" "\<forall>req\<in>set reqs. plain req" "\<forall>i<length reqs. servable (envs (k + i)) es (reqs ! i)"
    "2 * max (capacity sm) (2 * (int (card (dom d)) + int (length reqs))) \<le> INT_MAX"
    "rx s = rx_bytes (concat (map resp reqs))" "tx s = []"
  shows "\<exists>sm'. app_loop envs nl k \<lparr>arg_sm = Some sm, arg_config_dict = Some cfg\<rparr> s =
      Ret (s\<lparr>rx := [], sent := sent s @ fst (serve_all envs es k reqs d)\<rparr>,
           \<lparr>arg_sm = Some sm', arg_config_dict = Some cfg\<rparr>) \<and>
    db_rep sm' (snd (serve_all envs es k reqs d))"
proof -
  have "app_loop envs nl n args (s\<lparr>rx := [], sent := x\<rparr>) = Ret (s\<lparr>rx := [], sent := x\<rparr>, args)" for n args x
    by (subst app_loop.simps) (simp add: app_iter_end)
  with app_loop_turns [OF assms(1-8), of s "[]"] assms(9,10) show ?thesis by simp
qed

section \<open>Sample requests\<close>

definition request :: "string list \<Rightarrow> node" where
  "request ws = ArrayNode (map arg ws) (int (length ws))"

text \<open>Two requests on an empty map: the value set by the first is what the second gets.\<close>

lemma demo_serve_set:
  "serve (demo_env t) es (request [''SET'', ''k'', ''v'']) d = (Some RESP_OK, d(''k'' \<mapsto> new_entry t ''v'' 0 0))"
proof -
  have c: "command_of ''SET'' = SET" by code_simp
  show ?thesis
    by (simp add: request_def arg_def serve_def c set_grammar_def take_opt_def expiry_part_def set_spec_def demo_env_def cstr_def)
qed

lemma demo_serve_get:
  "serve (demo_env t) es (request [''get'', ''k'']) [''k'' \<mapsto> new_entry t' ''v'' 0 0] =
     (Some (bulk ''v''), [''k'' \<mapsto> new_entry t' ''v'' 0 0])"
proof -
  have c: "command_of ''get'' = GET" by code_simp
  show ?thesis
    by (simp add: request_def arg_def serve_def c get_request_def get_spec_def new_entry_def expired_def demo_env_def cstr_def)
qed

lemma demo_wire:
  "wire (Some RESP_OK) = ''+OK'' @ CRLF @ [NUL]" "wire (Some (bulk ''v'')) = ''$1'' @ CRLF @ ''v'' @ CRLF @ [NUL]"
proof -
  have d: "dec_nat (Suc 0) = ''1''" by code_simp
  show "wire (Some RESP_OK) = ''+OK'' @ CRLF @ [NUL]" "wire (Some (bulk ''v'')) = ''$1'' @ CRLF @ ''v'' @ CRLF @ [NUL]"
    by (simp_all add: wire_def bulk_def d RESP_OK_def cstr_def)
qed

lemma demo_serve:
  "serve_all (\<lambda>k. demo_env (Timespec (int k) 0)) demo_entries 0
     [request [''SET'', ''k'', ''v''], request [''get'', ''k'']] Map.empty =
   (''+OK'' @ CRLF @ [NUL] @ ''$1'' @ CRLF @ ''v'' @ CRLF @ [NUL],
    [''k'' \<mapsto> new_entry (Timespec 0 0) ''v'' 0 0])"
  using demo_wire by (simp add: demo_serve_set demo_serve_get)

lemma demo_servable:
  "\<forall>i<length [request [''SET'', ''k'', ''v''], request [''get'', ''k'']].
     servable (demo_env (Timespec (int i) 0)) demo_entries ([request [''SET'', ''k'', ''v''], request [''get'', ''k'']] ! i)"
proof -
  have c: "command_of ''SET'' = SET" "command_of ''get'' = GET" by code_simp+
  show ?thesis
    by (simp add: less_Suc_eq_le le_Suc_eq all_conj_distrib servable_def request_def arg_def PROTO_MAX_BULK_SIZE_def c cstr_def)
qed

end
