(* ===== verification/Server_Util.thy ===== *)
theory Server_Util
  imports Net_IO C_Float
begin

text \<open>
  The helpers of \<^verbatim>\<open>src/src/server.c\<close> the threads are built from: opening the listening socket, taking
  and releasing a mutex with retries, the time a request has waited and the test whether that is too
  long, and the receive timeout of a connection. What the system calls answer is an argument.
\<close>

section \<open>The listening socket\<close>

text \<open>One entry per address \<^verbatim>\<open>getaddrinfo\<close> lists: what \<^verbatim>\<open>socket\<close>, \<^verbatim>\<open>bind\<close> and \<^verbatim>\<open>listen\<close> return for it.
  \<open>None\<close> is \<^verbatim>\<open>exit\<close>.\<close>

fun addr_loop :: "int \<Rightarrow> (int \<times> int \<times> int) list \<Rightarrow> int" where
  "addr_loop f [] = f"
| "addr_loop f ((sfd, bind_result, listen_result) # rest) =
     (if sfd < 0 then addr_loop sfd rest
      else if bind_result = 0 \<and> listen_result = 0 then sfd
      else addr_loop sfd rest)"

definition get_server_sock :: "int \<Rightarrow> int \<Rightarrow> (int \<times> int \<times> int) list \<Rightarrow> int option" where
  "get_server_sock maxpending rtn_value addr_list =
     (if maxpending < 1 then None
      else if rtn_value \<noteq> 0 then Some (-1)
      else Some (addr_loop (-1) addr_list))"

definition listening :: "int \<times> int \<times> int \<Rightarrow> bool" where
  "listening a \<longleftrightarrow> 0 \<le> fst a \<and> snd a = (0, 0)"

lemma addr_loop_find:
  "addr_loop f as = (case List.find listening as of
      Some a \<Rightarrow> fst a | None \<Rightarrow> if as = [] then f else fst (last as))"
  by (induction f as rule: addr_loop.induct) (auto simp: listening_def split: option.splits)

section \<open>Mutexes\<close>

text \<open>\<open>lck i\<close> is what the \<open>i\<close>-th call of \<^verbatim>\<open>pthread_mutex_lock\<close> returns. \<open>Locked i\<close>: \<^verbatim>\<open>mutex_lock\<close>
  returns after call \<open>i\<close> succeeded; \<open>Exited\<close>: it ended the process.\<close>

datatype lock_result = Locked nat | Exited

fun lock_retry :: "nat \<Rightarrow> (nat \<Rightarrow> errno) \<Rightarrow> nat \<Rightarrow> int \<Rightarrow> sock \<Rightarrow> (lock_result \<times> sock) outcome" where
  "lock_retry 0 lck i retry_tm s = Ret (Exited, s)"
| "lock_retry (Suc n) lck i retry_tm s =
     (if category (categorize_mtx_lck_error (lck i)) = ERROR_FATAL then Ret (Exited, s)
      else obind (msleep retry_tm 3 s) (\<lambda>(r, s1).
        if r = -1 then Ret (Exited, s1)
        else if lck (Suc i) = 0 then Ret (Locked (Suc i), s1)
        else lock_retry n lck (Suc i) retry_tm s1))"

definition mutex_lock :: "(nat \<Rightarrow> errno) \<Rightarrow> nat \<Rightarrow> int \<Rightarrow> sock \<Rightarrow> (lock_result \<times> sock) outcome" where
  "mutex_lock lck n_retries retry_tm s =
     (if lck 0 = 0 then Ret (Locked 0, s) else lock_retry n_retries lck 0 retry_tm s)"

text \<open>\<^verbatim>\<open>mutex_unlock\<close> returns (\<open>True\<close>) or ends the process.\<close>

definition mutex_unlock :: "errno \<Rightarrow> bool" where
  "mutex_unlock rtn \<longleftrightarrow> rtn = 0"

lemma lock_retry_exact:
  assumes "slp s = []" "lck i \<noteq> 0"
  shows "lock_retry n lck i tm s =
    (if \<exists>k\<le>n. lck (i + k) = 0 \<and> (\<forall>j<k. lck (i + j) = EOWNERDEAD)
     then Ret (Locked (i + (LEAST k. lck (i + k) = 0)), s) else Ret (Exited, s))"
  using assms(2)
proof (induction n arbitrary: i)
  case 0
  then show ?case by simp
next
  case (Suc n)
  let ?P = "\<lambda>n i. \<exists>k\<le>n. lck (i + k) = 0 \<and> (\<forall>j<k. lck (i + j) = EOWNERDEAD)"
  let ?L = "\<lambda>i. i + (LEAST k. lck (i + k) = 0)"
  have P: "?P (Suc n) i \<longleftrightarrow> lck i = EOWNERDEAD \<and> ?P n (Suc i)"
  proof
    assume "?P (Suc n) i"
    then obtain k where k: "k \<le> Suc n" "lck (i + k) = 0" "\<forall>j<k. lck (i + j) = EOWNERDEAD" by blast
    with Suc.prems obtain k' where k': "k = Suc k'" by (cases k) auto
    have "\<forall>j<k'. lck (Suc i + j) = EOWNERDEAD" using k(3) k' by auto
    with k k' show "lck i = EOWNERDEAD \<and> ?P n (Suc i)" by auto
  next
    assume *: "lck i = EOWNERDEAD \<and> ?P n (Suc i)"
    then obtain k where k: "k \<le> n" "lck (Suc i + k) = 0" "\<forall>j<k. lck (Suc i + j) = EOWNERDEAD" by blast
    have "lck (i + j) = EOWNERDEAD" if "j < Suc k" for j
      using that * k(3) by (cases j) auto
    with k show "?P (Suc n) i" by (intro exI [of _ "Suc k"]) auto
  qed
  have L: "?L i = ?L (Suc i)" if "?P n (Suc i)"
  proof -
    from that obtain k where "lck (i + Suc k) = 0" by auto
    then have "(LEAST k. lck (i + k) = 0) = Suc (LEAST k. lck (i + Suc k) = 0)"
      using Suc.prems by (intro Least_Suc [where P = "\<lambda>k. lck (i + k) = 0" and n = "Suc k"]) auto
    then show ?thesis by simp
  qed
  show ?case
  proof (cases "lck i = EOWNERDEAD")
    case False
    then show ?thesis using P by (simp add: categorize_mtx_lck_error_def)
  next
    case True
    then have step: "lock_retry (Suc n) lck i tm s =
        (if lck (Suc i) = 0 then Ret (Locked (Suc i), s) else lock_retry n lck (Suc i) tm s)"
      using assms(1) by (simp add: categorize_mtx_lck_error_def msleep_def)
    show ?thesis
    proof (cases "lck (Suc i) = 0")
      case True2: True
      then have "?P n (Suc i)" by (intro exI [of _ 0]) simp
      moreover have "(LEAST k. lck (Suc i + k) = 0) = 0" using True2 by (simp add: Least_eq_0)
      ultimately show ?thesis using step P L True True2 by simp
    next
      case False
      show ?thesis using step P L True False Suc.IH [OF False] by auto
    qed
  qed
qed

section \<open>Waiting times\<close>

definition get_time_diff :: "timespec \<Rightarrow> timespec \<Rightarrow> timespec" where
  "get_time_diff a b = Timespec (tv_sec a - tv_sec b) (tv_nsec a - tv_nsec b)"

definition was_waiting_time_exceeded :: "timespec \<Rightarrow> rat \<Rightarrow> int \<Rightarrow> bool" where
  "was_waiting_time_exceeded diff dlt_sec max_queue_time =
     (let d = (if dlt_sec > fl 24 (of_int max_queue_time) then fl 24 (of_int max_queue_time) else dlt_sec)
      in ts_float diff > d)"

definition ts_ns :: "timespec \<Rightarrow> int" where
  "ts_ns t = tv_sec t * 10 ^ 9 + tv_nsec t"

lemma fl_uminus: "fl p (- x) = - fl p x"
  by (auto simp: fl_def)

text \<open>The smallest \<^verbatim>\<open>float\<close> above one.\<close>

definition one_up :: rat where "one_up = 1 + 1 / 2 ^ 23"

lemma fl_one_up:
  "fl 24 one_up = one_up" "fl 53 one_up = one_up" "fl 53 (1 / 8388608) = 1 / 8388608"
  "fl 53 (8388607 / 8388608) = 8388607 / 8388608"
proof -
  have p1: "pow2 1 = 2" using pow2_Suc [of 0] by simp
  have i: "ilog2 (8388609 / 8388608) = 0" by (rule ilog2_unique) (simp_all add: p1)
  have "fl_pos 24 (8388609 / 8388608) = 8388609 / 8388608"
    by (rule fl_pos_exact [where n = 8388609]) (simp add: i pow2_def)
  then show "fl 24 one_up = one_up" by (simp add: fl_def one_up_def)
  have "fl_pos 53 (8388609 / 8388608) = 8388609 / 8388608"
    by (rule fl_pos_exact [where n = "8388609 * 2 ^ 29"]) (simp add: i pow2_def)
  then show "fl 53 one_up = one_up" by (simp add: fl_def one_up_def)
  have i2: "ilog2 (1 / 8388608) = -23" by (rule ilog2_unique) (simp_all add: pow2_def)
  have "fl_pos 53 (1 / 8388608) = 1 / 8388608"
    by (rule fl_pos_exact [where n = "2 ^ 52"]) (simp add: i2 pow2_def)
  then show "fl 53 (1 / 8388608) = 1 / 8388608" by (simp add: fl_def)
  have i3: "ilog2 (8388607 / 8388608) = -1" by (rule ilog2_unique) (simp_all add: pow2_def)
  have "fl_pos 53 (8388607 / 8388608) = 8388607 / 8388608"
    by (rule fl_pos_exact [where n = "8388607 * 2 ^ 30"]) (simp add: i3 pow2_def)
  then show "fl 53 (8388607 / 8388608) = 8388607 / 8388608" by (simp add: fl_def)
qed

lemma int_div_le: "n \<le> k \<Longrightarrow> (of_int n / 10 ^ 9 :: rat) \<le> of_int k / 10 ^ 9"
  by (simp add: divide_right_mono)

lemma fl_int_nonpos: "x \<le> 0 \<Longrightarrow> 0 < p \<Longrightarrow> fl p x \<le> 0"
  using fl_mono [of x 0 p] by simp

text \<open>At most one second in exact arithmetic stays at most one second as a \<^verbatim>\<open>float\<close>.\<close>

lemma ts_float_le_one:
  assumes "\<bar>n\<bar> < 10 ^ 9" "ts_ns (Timespec x n) \<le> 10 ^ 9"
  shows "ts_float (Timespec x n) \<le> 1"
proof -
  have c: "x \<le> 0 \<or> x = 1 \<and> n \<le> 0" using assms by (auto simp: ts_ns_def)
  have "fl 53 (of_int x) + fl 53 (of_int n / 10 ^ 9) \<le> 1"
  proof (cases "x \<le> 0")
    case True
    have "fl 53 (of_int n / 10 ^ 9) \<le> fl 53 1"
      using assms(1) int_div_le [of n "10 ^ 9"] by (intro fl_mono) simp_all
    moreover have "fl 53 (of_int x) \<le> 0" using True by (intro fl_int_nonpos) simp_all
    ultimately show ?thesis by simp
  next
    case False
    with c have "x = 1" "n \<le> 0" by auto
    moreover from this have "fl 53 (of_int n / 10 ^ 9) \<le> 0" by (intro fl_int_nonpos) (simp_all add: divide_le_0_iff)
    ultimately show ?thesis by simp
  qed
  then have "fl 53 (fl 53 (of_int x) + fl 53 (of_int n / 10 ^ 9)) \<le> 1"
    using fl_mono [of _ 1 53] by simp
  then show ?thesis using fl_mono [of _ 1 24] by (simp add: ts_float_def)
qed

lemma ts_float_gt_one:
  assumes "\<bar>n\<bar> < 10 ^ 9" "10 ^ 9 + 120 \<le> ts_ns (Timespec x n)" "x < 2 ^ 53"
  shows "1 < ts_float (Timespec x n)"
proof -
  let ?q = "fl 53 (of_int n / 10 ^ 9)"
  have ge: "fl 53 a \<le> ?q" if "a \<le> of_int n / 10 ^ 9" for a using that by (intro fl_mono) simp_all
  have c: "x = 1 \<and> 120 \<le> n \<or> x = 2 \<and> - 999999880 \<le> n \<or> 3 \<le> x" using assms by (auto simp: ts_ns_def)
  have x: "fl 53 (of_int x) = of_int x" using c assms(3) by (intro fl_int_exact) auto
  have "one_up \<le> of_int x + ?q"
  proof -
    consider "x = 1" "120 \<le> n" | "x = 2" "- 999999880 \<le> n" | "3 \<le> x" using c by blast
    then show ?thesis
    proof cases
      case 1
      have "1 / 8388608 \<le> (of_int n / 10 ^ 9 :: rat)" using int_div_le [OF 1(2)] by simp
      from ge [OF this] 1 show ?thesis by (simp add: fl_one_up one_up_def)
    next
      case 2
      have "- (8388607 / 8388608) \<le> (of_int n / 10 ^ 9 :: rat)" using int_div_le [OF 2(2)] by simp
      from ge [OF this] 2 show ?thesis by (simp add: fl_uminus fl_one_up one_up_def del: minus_divide_left)
    next
      case 3
      have "- 1 \<le> (of_int n / 10 ^ 9 :: rat)" using int_div_le [of "- (10 ^ 9)" n] assms(1) by simp
      from ge [OF this] have "- 1 \<le> ?q" by (simp add: fl_uminus)
      moreover have "(3 :: rat) \<le> of_int x" using 3 by (metis of_int_le_iff of_int_numeral)
      ultimately show ?thesis by (simp add: one_up_def)
    qed
  qed
  then have "fl 53 one_up \<le> fl 53 (of_int x + ?q)" by (intro fl_mono) simp_all
  then have "one_up \<le> fl 53 (of_int x + ?q)" by (simp add: fl_one_up)
  then have "fl 24 one_up \<le> fl 24 (fl 53 (of_int x + ?q))" by (intro fl_mono) simp_all
  then have "one_up \<le> ts_float (Timespec x n)" by (simp add: ts_float_def x fl_one_up)
  then show ?thesis by (simp add: one_up_def)
qed

lemma diff_valid:
  assumes "ts_valid a" "ts_valid b"
  shows "\<bar>tv_nsec a - tv_nsec b\<bar> < 10 ^ 9" "tv_sec a - tv_sec b < 2 ^ 53"
    "ts_ns (get_time_diff a b) = ts_ns a - ts_ns b"
  using assms by (auto simp: ts_valid_def get_time_diff_def ts_ns_def algebra_simps)

lemma limit_is_one:
  assumes "1 \<le> mx" "mx < 2 ^ 31"
  shows "was_waiting_time_exceeded d 1 mx \<longleftrightarrow> 1 < ts_float d"
proof -
  have "fl 24 1 \<le> fl 24 (of_int mx)" using assms(1) by (intro fl_mono) simp_all
  then show ?thesis by (simp add: was_waiting_time_exceeded_def)
qed

section \<open>Receive timeouts\<close>

text \<open>The timeout \<^verbatim>\<open>set_recv_tmout\<close> sets, if any.\<close>

definition set_recv_tmout :: "int \<Rightarrow> int \<Rightarrow> (int \<times> int) option" where
  "set_recv_tmout sec usec = (if sec = 0 \<and> usec = 0 \<or> sec < 0 \<or> usec < 0 then None else Some (sec, usec))"

section \<open>Properties\<close>

text \<open>\<^verbatim>\<open>mutex_lock\<close> gives its caller control only after a \<^verbatim>\<open>pthread_mutex_lock\<close> that returned 0: it
  returns after the first successful call provided at most \<open>n\<close> calls failed before it, all of them with
  \<^verbatim>\<open>EOWNERDEAD\<close>, and ends the process in every other case.\<close>

lemma mutex_lock_exact:
  assumes "slp s = []"
  shows "mutex_lock lck n tm s =
    (if \<exists>k\<le>n. lck k = 0 \<and> (\<forall>j<k. lck j = EOWNERDEAD) then Ret (Locked (LEAST k. lck k = 0), s)
     else Ret (Exited, s))"
proof (cases "lck 0 = 0")
  case True
  then have "(LEAST k. lck k = 0) = 0" by (simp add: Least_eq_0)
  moreover have "\<exists>k\<le>n. lck k = 0 \<and> (\<forall>j<k. lck j = EOWNERDEAD)" using True by (intro exI [of _ 0]) simp
  ultimately show ?thesis using True by (simp add: mutex_lock_def)
next
  case False
  then show ?thesis using lock_retry_exact [of s lck 0, OF assms False] by (auto simp: mutex_lock_def)
qed

text \<open>\<^verbatim>\<open>get_server_sock\<close> returns the first socket that could be bound and listens. When there is none
  it returns what the last \<^verbatim>\<open>socket\<close> call gave, so a socket that was never bound is passed on as if it
  were listening.\<close>

lemma get_server_sock_exact:
  assumes "1 \<le> maxpending"
  shows "get_server_sock maxpending 0 as =
    Some (case List.find listening as of
            Some a \<Rightarrow> fst a | None \<Rightarrow> if as = [] then -1 else fst (last as))"
  using assms by (simp add: get_server_sock_def addr_loop_find)

text \<open>C32. The manager's limit is one second, whatever maximal queue time of at least one second is
  configured: a request that waited up to one second is never denied, one that waited longer (by at
  least the 120 ns below which \<^verbatim>\<open>float\<close> cannot tell the difference) always is.\<close>

theorem waiting_limit_is_one_second:
  assumes "ts_valid now" "ts_valid t" "1 \<le> max_queue_time" "max_queue_time < 2 ^ 31"
  shows "(ts_ns now - ts_ns t \<le> 10 ^ 9 \<longrightarrow>
            \<not> was_waiting_time_exceeded (get_time_diff now t) 1 max_queue_time) \<and>
         (10 ^ 9 + 120 \<le> ts_ns now - ts_ns t \<longrightarrow>
            was_waiting_time_exceeded (get_time_diff now t) 1 max_queue_time)"
proof -
  let ?d = "Timespec (tv_sec now - tv_sec t) (tv_nsec now - tv_nsec t)"
  have d: "ts_ns ?d = ts_ns now - ts_ns t"
    using diff_valid(3) [OF assms(1,2)] by (simp add: get_time_diff_def)
  note dv = diff_valid(1,2) [OF assms(1,2)]
  have "\<not> 1 < ts_float ?d" if "ts_ns now - ts_ns t \<le> 10 ^ 9"
    using ts_float_le_one [OF dv(1), of "tv_sec now - tv_sec t"] that d by simp
  moreover have "1 < ts_float ?d" if "10 ^ 9 + 120 \<le> ts_ns now - ts_ns t"
    using ts_float_gt_one [OF dv(1) _ dv(2)] that d by simp
  ultimately show ?thesis by (simp add: limit_is_one [OF assms(3,4)] get_time_diff_def)
qed

theorem waiting_limit_is_one_second_witness:
  "\<not> was_waiting_time_exceeded (get_time_diff (Timespec 6 0) (Timespec 5 0)) 1 500 \<and>
   was_waiting_time_exceeded (get_time_diff (Timespec 6 200) (Timespec 5 0)) 1 500"
  using waiting_limit_is_one_second [of "Timespec 6 0" "Timespec 5 0" 500]
    waiting_limit_is_one_second [of "Timespec 6 200" "Timespec 5 0" 500]
  by (simp add: ts_valid_def ts_ns_def)

end
