(* ===== verification/Queue.thy ===== *)
theory Queue
  imports Prelude
begin

text \<open>
  The linked queue of \<^verbatim>\<open>src/src/queue.c\<close> on a heap of list nodes. An address is an index into the
  heap; \<^verbatim>\<open>calloc\<close> takes the next one (or fails), \<^verbatim>\<open>free\<close> clears the cell, and reading a cleared cell
  is undefined behaviour. \<open>q_rep h q xs\<close> says that \<open>q\<close> is a doubly linked list with the data \<open>xs\<close>.
  The locale \<open>fifo_queue\<close> is what the server threads rely on; the linked queue interprets it.
\<close>

section \<open>Data\<close>

record 'a ListNode =
  prev :: "nat option"
  nxt :: "nat option"
  data :: "'a option"

type_synonym 'a heap = "'a ListNode option list"

record Queue =
  front :: "nat option"
  rear :: "nat option"
  destructor :: bool

definition node_at :: "'a heap \<Rightarrow> nat \<Rightarrow> 'a ListNode outcome" where
  "node_at h a = (if a < length h then (case h ! a of None \<Rightarrow> UB | Some n \<Rightarrow> Ret n) else UB)"

definition put_node :: "'a heap \<Rightarrow> nat \<Rightarrow> 'a ListNode \<Rightarrow> 'a heap" where
  "put_node h a n = h[a := Some n]"

definition free_node :: "'a heap \<Rightarrow> nat \<Rightarrow> 'a heap" where
  "free_node h a = h[a := None]"

section \<open>Operations\<close>

definition get_front :: "'a heap \<Rightarrow> Queue option \<Rightarrow> 'a option outcome" where
  "get_front h qp =
     (case qp of
        None \<Rightarrow> Ret None
      | Some q \<Rightarrow> (case front q of None \<Rightarrow> Ret None | Some a \<Rightarrow> obind (node_at h a) (\<lambda>n. Ret (data n))))"

definition get_rear :: "'a heap \<Rightarrow> Queue option \<Rightarrow> 'a option outcome" where
  "get_rear h qp =
     (case qp of
        None \<Rightarrow> Ret None
      | Some q \<Rightarrow> (case rear q of None \<Rightarrow> Ret None | Some a \<Rightarrow> obind (node_at h a) (\<lambda>n. Ret (data n))))"

text \<open>\<^verbatim>\<open>enqueue\<close>; \<open>ok\<close> tells whether its \<^verbatim>\<open>calloc\<close> succeeds.\<close>

definition enqueue :: "bool \<Rightarrow> 'a heap \<Rightarrow> Queue option \<Rightarrow> 'a option \<Rightarrow>
    ('a heap \<times> Queue option) outcome" where
  "enqueue ok h qp d =
     (case qp of
        None \<Rightarrow> Ret (h, None)
      | Some q \<Rightarrow>
          if \<not> ok then Ret (h, qp)
          else
            (let n = length h; node = \<lparr>prev = None, nxt = None, data = d\<rparr> in
             if front q = None \<and> rear q = None
             then Ret (h @ [Some node], Some (q\<lparr>front := Some n, rear := Some n\<rparr>))
             else
               (case rear q of
                  None \<Rightarrow> UB
                | Some r \<Rightarrow>
                    obind (node_at h r) (\<lambda>rn.
                    Ret (put_node h r (rn\<lparr>nxt := Some n\<rparr>) @ [Some (node\<lparr>prev := Some r\<rparr>)],
                         Some (q\<lparr>rear := Some n\<rparr>))))))"

definition dequeue :: "'a heap \<Rightarrow> Queue option \<Rightarrow> ('a option \<times> 'a heap \<times> Queue option) outcome" where
  "dequeue h qp =
     (case qp of
        None \<Rightarrow> Ret (None, h, None)
      | Some q \<Rightarrow>
          (case front q of
             None \<Rightarrow> Ret (None, h, qp)
           | Some f \<Rightarrow>
               obind (node_at h f) (\<lambda>fn.
               if rear q = Some f then
                 Ret (data fn, free_node h f, Some (q\<lparr>front := None, rear := None\<rparr>))
               else
                 (case nxt fn of
                    None \<Rightarrow> UB
                  | Some n \<Rightarrow>
                      (let h1 = put_node h f (fn\<lparr>nxt := None\<rparr>) in
                       obind (node_at h1 n) (\<lambda>nn.
                       Ret (data fn, free_node (put_node h1 n (nn\<lparr>prev := None\<rparr>)) f,
                            Some (q\<lparr>front := Some n\<rparr>))))))))"

definition init_queue :: "bool \<Rightarrow> bool \<Rightarrow> Queue option" where
  "init_queue ok func = (if ok then Some \<lparr>front = None, rear = None, destructor = func\<rparr> else None)"

text \<open>\<^verbatim>\<open>delete_queue\<close>: the data handed to the destructor, in order, and the heap left behind.\<close>

definition live :: "'a heap \<Rightarrow> nat" where
  "live h = length (filter (\<lambda>c. c \<noteq> None) h)"

lemma live_free: "node_at h a = Ret n \<Longrightarrow> live (free_node h a) < live h"
proof -
  assume "node_at h a = Ret n"
  then have a: "a < length h" "h ! a = Some n" by (auto simp: node_at_def split: if_splits option.splits)
  have "h = take a h @ h ! a # drop (Suc a) h" using a(1) by (simp add: Cons_nth_drop_Suc)
  then have "live h = length (filter (\<lambda>c. c \<noteq> None) (take a h @ h ! a # drop (Suc a) h))"
    by (simp add: live_def)
  then show ?thesis
    using a by (simp add: live_def free_node_def upd_conv_take_nth_drop)
qed

function delete_nodes :: "'a heap \<Rightarrow> bool \<Rightarrow> nat option \<Rightarrow> ('a list \<times> 'a heap) outcome" where
  "delete_nodes h destr node =
     (case node of
        None \<Rightarrow> Ret ([], h)
      | Some a \<Rightarrow>
          obind (node_at h a) (\<lambda>n.
          obind (delete_nodes (free_node h a) destr (nxt n)) (\<lambda>(ds, h').
          Ret ((case data n of None \<Rightarrow> [] | Some d \<Rightarrow> if destr then [d] else []) @ ds, h'))))"
  by pat_completeness auto
termination
  by (relation "measure (\<lambda>(h, destr, node). live h)") (auto dest: live_free)

declare delete_nodes.simps [simp del]

definition delete_queue :: "'a heap \<Rightarrow> Queue option \<Rightarrow> ('a list \<times> 'a heap) outcome" where
  "delete_queue h qp =
     (case qp of None \<Rightarrow> Ret ([], h) | Some q \<Rightarrow> delete_nodes h (destructor q) (front q))"

section \<open>Representation\<close>

text \<open>\<open>dll h p as xs e\<close>: the nodes at addresses \<open>as\<close> are linked in this order, carry \<open>xs\<close>, the first
  one points back to \<open>p\<close> and the last one on to \<open>e\<close>.\<close>

fun dll :: "'a heap \<Rightarrow> nat option \<Rightarrow> nat list \<Rightarrow> 'a option list \<Rightarrow> nat option \<Rightarrow> bool" where
  "dll h p [] xs e = (xs = [])"
| "dll h p (a # as) xs e =
     (\<exists>x ys. xs = x # ys \<and>
        node_at h a = Ret \<lparr>prev = p, nxt = (case as of [] \<Rightarrow> e | b # _ \<Rightarrow> Some b), data = x\<rparr> \<and>
        dll h (Some a) as ys e)"

definition q_rep :: "'a heap \<Rightarrow> Queue \<Rightarrow> 'a option list \<Rightarrow> bool" where
  "q_rep h q xs \<longleftrightarrow>
     (\<exists>as. distinct as \<and> dll h None as xs None \<and>
           front q = (if as = [] then None else Some (hd as)) \<and>
           rear q = (if as = [] then None else Some (last as)))"

lemma node_at_lt: "node_at h a = Ret n \<Longrightarrow> a < length h"
  by (auto simp: node_at_def split: if_splits)

lemma dll_lt: "dll h p as xs e \<Longrightarrow> a \<in> set as \<Longrightarrow> a < length h"
  by (induction as arbitrary: p xs) (auto dest: node_at_lt)

lemma dll_length: "dll h p as xs e \<Longrightarrow> length as = length xs"
  by (induction as arbitrary: p xs) auto

text \<open>A list does not notice heap changes elsewhere.\<close>

lemma dll_frame:
  "dll h p as xs e \<Longrightarrow> \<forall>a\<in>set as. node_at h' a = node_at h a \<Longrightarrow> dll h' p as xs e"
  by (induction as arbitrary: p xs) auto

lemma node_at_put [simp]: "a < length h \<Longrightarrow> node_at (put_node h a n) b = (if a = b then Ret n else node_at h b)"
  by (auto simp: node_at_def put_node_def)

lemma node_at_free: "a \<noteq> b \<Longrightarrow> node_at (free_node h a) b = node_at h b"
  by (simp add: node_at_def free_node_def)

lemma node_at_append: "a < length h \<Longrightarrow> node_at (h @ [c]) a = node_at h a"
  by (simp add: node_at_def nth_append)

lemma node_at_new [simp]: "node_at (h @ [Some n]) (length h) = Ret n"
  by (simp add: node_at_def)

lemma length_put [simp]: "length (put_node h a n) = length h"
  by (simp add: put_node_def)

lemma dll_snoc:
  "dll h p (as @ [r]) xs e \<longleftrightarrow>
    (\<exists>ys x. xs = ys @ [x] \<and> dll h p as ys (Some r) \<and>
       node_at h r = Ret \<lparr>prev = (if as = [] then p else Some (last as)), nxt = e, data = x\<rparr>)"
proof (induction as arbitrary: p xs)
  case (Cons a as)
  then show ?case by (cases as) (fastforce simp: Cons_eq_append_conv)+
qed auto

section \<open>The operations on represented queues\<close>

lemma q_rep_init: "q_rep h \<lparr>front = None, rear = None, destructor = d\<rparr> []"
  by (auto simp: q_rep_def intro!: exI [of _ "[]"])

lemma dll_hd:
  "dll h p as xs e \<Longrightarrow> as \<noteq> [] \<Longrightarrow> \<exists>n. node_at h (hd as) = Ret n \<and> data n = hd xs"
  by (cases as) auto

lemma get_front_rep:
  assumes "q_rep h q xs"
  shows "get_front h (Some q) = Ret (case xs of [] \<Rightarrow> None | x # _ \<Rightarrow> x)"
proof -
  from assms obtain as where as: "dll h None as xs None" "front q = (if as = [] then None else Some (hd as))"
    by (auto simp: q_rep_def)
  then show ?thesis
    using dll_length [OF as(1)] dll_hd [OF as(1)] by (cases xs) (auto simp: get_front_def)
qed

lemma get_rear_rep:
  assumes "q_rep h q xs"
  shows "get_rear h (Some q) = Ret (if xs = [] then None else last xs)"
proof -
  from assms obtain as where as: "dll h None as xs None" "rear q = (if as = [] then None else Some (last as))"
    by (auto simp: q_rep_def)
  show ?thesis
  proof (cases "as = []")
    case True
    with as show ?thesis by (simp add: get_rear_def)
  next
    case False
    with as(1) obtain ys x where "xs = ys @ [x]" "\<exists>n. node_at h (last as) = Ret n \<and> data n = x"
      using dll_snoc [of h None "butlast as" "last as" xs None] by auto
    with as False show ?thesis by (auto simp: get_rear_def)
  qed
qed

lemma enqueue_rep:
  assumes "q_rep h q xs"
  shows "\<exists>h' q'. enqueue True h (Some q) d = Ret (h', Some q') \<and> q_rep h' q' (xs @ [d]) \<and>
    destructor q' = destructor q"
proof -
  from assms obtain as where as: "distinct as" "dll h None as xs None"
    "front q = (if as = [] then None else Some (hd as))" "rear q = (if as = [] then None else Some (last as))"
    by (auto simp: q_rep_def)
  let ?n = "length h"
  show ?thesis
  proof (cases "as = []")
    case True
    let ?h = "h @ [Some \<lparr>prev = None, nxt = None, data = d\<rparr>]"
    have "q_rep ?h (q\<lparr>front := Some ?n, rear := Some ?n\<rparr>) [d]"
      unfolding q_rep_def by (intro exI [of _ "[?n]"]) simp
    with True as show ?thesis by (simp add: enqueue_def Let_def)
  next
    case False
    let ?bs = "butlast as" and ?r = "last as"
    have as': "as = ?bs @ [?r]" using False by simp
    from as(2) obtain ys x where xs: "xs = ys @ [x]" "dll h None ?bs ys (Some ?r)"
      "node_at h ?r = Ret \<lparr>prev = (if ?bs = [] then None else Some (last ?bs)), nxt = None, data = x\<rparr>"
      using dll_snoc [of h None ?bs ?r xs None] False by auto
    let ?rn = "\<lparr>prev = (if ?bs = [] then None else Some (last ?bs)), nxt = Some ?n, data = x\<rparr>"
    let ?h = "put_node h ?r ?rn @ [Some \<lparr>prev = Some ?r, nxt = None, data = d\<rparr>]"
    have lt: "\<forall>a\<in>set as. a < length h" using dll_lt [OF as(2)] by blast
    have "?r \<notin> set ?bs" using as(1) False by (cases as rule: rev_cases) simp_all
    then have r: "?r < length h" "?r \<notin> set ?bs" using lt False by auto
    have "\<forall>a\<in>set ?bs. node_at ?h a = node_at h a"
    proof
      fix a assume "a \<in> set ?bs"
      with lt r have "a < length h" "?r \<noteq> a" by (auto dest: in_set_butlastD)
      with r show "node_at ?h a = node_at h a" by (simp add: node_at_append)
    qed
    with xs(2) have "dll ?h None ?bs ys (Some ?r)" by (rule dll_frame)
    moreover have "node_at ?h ?r = Ret ?rn" using r by (simp add: node_at_append)
    moreover have "node_at ?h ?n = Ret \<lparr>prev = Some ?r, nxt = None, data = d\<rparr>"
      using node_at_new [of "put_node h ?r ?rn"] by simp
    ultimately have "dll ?h None ((?bs @ [?r]) @ [?n]) (xs @ [d]) None"
      unfolding dll_snoc xs(1) by simp
    then have d: "dll ?h None (as @ [?n]) (xs @ [d]) None" using False by simp
    have dist: "distinct (as @ [?n])" using as(1) lt by auto
    have "enqueue True h (Some q) d = Ret (?h, Some (q\<lparr>rear := Some ?n\<rparr>))"
      using as(3,4) False xs(3) by (simp add: enqueue_def Let_def)
    moreover have "q_rep ?h (q\<lparr>rear := Some ?n\<rparr>) (xs @ [d])"
      unfolding q_rep_def using d dist as(3) False by (intro exI [of _ "as @ [?n]"]) simp
    ultimately show ?thesis by auto
  qed
qed

lemma dequeue_empty: "q_rep h q [] \<Longrightarrow> dequeue h (Some q) = Ret (None, h, Some q)"
  by (auto simp: q_rep_def dequeue_def dest: dll_length)

lemma dequeue_rep:
  assumes "q_rep h q (x # xs)"
  shows "\<exists>h' q'. dequeue h (Some q) = Ret (x, h', Some q') \<and> q_rep h' q' xs \<and> destructor q' = destructor q"
proof -
  from assms obtain as where as: "distinct as" "dll h None as (x # xs) None"
    "front q = (if as = [] then None else Some (hd as))" "rear q = (if as = [] then None else Some (last as))"
    by (auto simp: q_rep_def)
  from as(2) obtain f bs where f: "as = f # bs" by (cases as) auto
  show ?thesis
  proof (cases bs)
    case Nil
    with as f show ?thesis
      by (auto simp: dequeue_def q_rep_def intro!: exI [of _ "[]"])
  next
    case (Cons n cs)
    with as(2) f have fn: "node_at h f = Ret \<lparr>prev = None, nxt = Some n, data = x\<rparr>"
      and bs: "dll h (Some f) (n # cs) xs None" by auto
    from bs obtain y ys where nn: "xs = y # ys"
      "node_at h n = Ret \<lparr>prev = Some f, nxt = (case cs of [] \<Rightarrow> None | b # _ \<Rightarrow> Some b), data = y\<rparr>"
      "dll h (Some n) cs ys None" by auto
    have ne: "f \<noteq> n" "f \<notin> set cs" "n \<notin> set cs" "last as \<noteq> f" using as(1) f Cons by auto
    have lt: "f < length h" "n < length h" using node_at_lt [OF fn] node_at_lt [OF nn(2)] by auto
    let ?nn = "\<lparr>prev = None, nxt = (case cs of [] \<Rightarrow> None | b # _ \<Rightarrow> Some b), data = y\<rparr>"
    let ?h = "free_node (put_node (put_node h f \<lparr>prev = None, nxt = None, data = x\<rparr>) n ?nn) f"
    have at: "node_at ?h a = (if a = n then Ret ?nn else node_at h a)" if "a \<noteq> f" for a
      using that lt by (simp add: node_at_free)
    have "dequeue h (Some q) = Ret (x, ?h, Some (q\<lparr>front := Some n\<rparr>))"
      using as(3,4) f Cons fn nn(2) ne lt by (simp add: dequeue_def Let_def)
    moreover have "dll ?h None (n # cs) xs None"
    proof -
      have "\<forall>a\<in>set cs. node_at ?h a = node_at h a"
      proof
        fix a assume "a \<in> set cs"
        with ne have "a \<noteq> f" "a \<noteq> n" by auto
        with at show "node_at ?h a = node_at h a" by simp
      qed
      from dll_frame [OF nn(3) this] nn(1) at ne show ?thesis by auto
    qed
    then have "q_rep ?h (q\<lparr>front := Some n\<rparr>) xs"
      unfolding q_rep_def using as(1,4) f Cons by (intro exI [of _ "n # cs"]) simp
    ultimately show ?thesis by auto
  qed
qed

lemma q_rep_fun: "q_rep h q xs \<Longrightarrow> q_rep h q ys \<Longrightarrow> xs = ys"
proof -
  have *: "dll h p as xs None \<Longrightarrow> dll h p bs ys None \<Longrightarrow>
      (as = [] \<longleftrightarrow> bs = []) \<Longrightarrow> (as \<noteq> [] \<Longrightarrow> hd as = hd bs) \<Longrightarrow> xs = ys" for p as bs xs ys
  proof (induction as arbitrary: p bs xs ys)
    case (Cons a as)
    then obtain bs' where bs: "bs = a # bs'" by (cases bs) auto
    from Cons.prems(1) obtain x xs' where x: "xs = x # xs'" "dll h (Some a) as xs' None"
      "node_at h a = Ret \<lparr>prev = p, nxt = (case as of [] \<Rightarrow> None | b # _ \<Rightarrow> Some b), data = x\<rparr>"
      by auto
    from Cons.prems(2) bs obtain y ys' where y: "ys = y # ys'" "dll h (Some a) bs' ys' None"
      "node_at h a = Ret \<lparr>prev = p, nxt = (case bs' of [] \<Rightarrow> None | b # _ \<Rightarrow> Some b), data = y\<rparr>"
      by auto
    from x(3) y(3) have e: "x = y"
      "(case as of [] \<Rightarrow> None | b # _ \<Rightarrow> Some b) = (case bs' of [] \<Rightarrow> None | b # _ \<Rightarrow> Some b)" by simp_all
    have "(as = []) = (bs' = [])" "as \<noteq> [] \<Longrightarrow> hd as = hd bs'"
      using e(2) by (cases as; cases bs'; simp)+
    from Cons.IH [OF x(2) y(2) this] show ?case using x(1) y(1) e(1) by simp
  qed auto
  assume "q_rep h q xs" "q_rep h q ys"
  then obtain as bs where d: "dll h None as xs None" "dll h None bs ys None"
    and f: "front q = (if as = [] then None else Some (hd as))" "front q = (if bs = [] then None else Some (hd bs))"
    unfolding q_rep_def by blast
  have "(as = []) = (bs = [])" "as \<noteq> [] \<Longrightarrow> hd as = hd bs"
    using f by (cases as; cases bs; simp)+
  with d show ?thesis by (intro *) blast+
qed

text \<open>\<^verbatim>\<open>delete_queue\<close> visits every node once, in order.\<close>

lemma delete_nodes_rep:
  "dll h p as xs None \<Longrightarrow> distinct as \<Longrightarrow>
    \<exists>h'. delete_nodes h destr (case as of [] \<Rightarrow> None | a # _ \<Rightarrow> Some a) =
      Ret (if destr then List.map_filter id xs else [], h') \<and> (\<forall>a\<in>set as. node_at h' a = UB) \<and>
      (\<forall>a. node_at h a = UB \<longrightarrow> node_at h' a = UB)"
proof (induction as arbitrary: h p xs)
  case Nil
  then show ?case by (subst delete_nodes.simps) (simp add: map_filter_simps)
next
  case (Cons a as)
  then obtain x ys where a: "xs = x # ys" "dll h (Some a) as ys None"
    "node_at h a = Ret \<lparr>prev = p, nxt = (case as of [] \<Rightarrow> None | b # _ \<Rightarrow> Some b), data = x\<rparr>" by auto
  have "a \<notin> set as" using Cons.prems(2) by simp
  then have "\<forall>b\<in>set as. node_at (free_node h a) b = node_at h b" by (metis node_at_free)
  from Cons.IH [OF dll_frame [OF a(2) this]] Cons.prems(2) obtain h' where
    h': "delete_nodes (free_node h a) destr (case as of [] \<Rightarrow> None | b # _ \<Rightarrow> Some b) =
        Ret (if destr then List.map_filter id ys else [], h')"
      "\<forall>b\<in>set as. node_at h' b = UB" "\<forall>b. node_at (free_node h a) b = UB \<longrightarrow> node_at h' b = UB" by auto
  have fa: "node_at (free_node h a) a = UB" by (simp add: node_at_def free_node_def)
  have "node_at (free_node h a) b = UB" if "node_at h b = UB" for b
    using that fa by (cases "a = b") (simp_all add: node_at_free)
  with fa show ?case
    using h' a by (subst delete_nodes.simps) (auto simp: map_filter_simps split: option.splits)
qed

section \<open>The queue as an interface\<close>

text \<open>A heap with one queue in it, and the operations the server calls through the queue's function
  pointers.\<close>

type_synonym 'a qhandle = "'a heap \<times> Queue option"

definition q_new :: "'a qhandle" where
  "q_new = ([], init_queue True False)"

definition q_enq :: "bool \<Rightarrow> 'a qhandle \<Rightarrow> 'a \<Rightarrow> 'a qhandle outcome" where
  "q_enq ok q x = enqueue ok (fst q) (snd q) (Some x)"

definition q_deq :: "'a qhandle \<Rightarrow> ('a option \<times> 'a qhandle) outcome" where
  "q_deq q = dequeue (fst q) (snd q)"

definition q_front :: "'a qhandle \<Rightarrow> 'a option outcome" where
  "q_front q = get_front (fst q) (snd q)"

definition qh_rep :: "'a qhandle \<Rightarrow> 'a list \<Rightarrow> bool" where
  "qh_rep q xs \<longleftrightarrow> (\<exists>s. snd q = Some s \<and> q_rep (fst q) s (map Some xs))"

text \<open>Sequences of operations, and the same sequences on a list.\<close>

datatype 'a qop = Enq bool 'a | Deq

fun run_ops :: "(bool \<Rightarrow> 'q \<Rightarrow> 'a \<Rightarrow> 'q outcome) \<Rightarrow> ('q \<Rightarrow> ('a option \<times> 'q) outcome) \<Rightarrow> 'q \<Rightarrow> 'a qop list \<Rightarrow>
    ('a option list \<times> 'q) outcome" where
  "run_ops enq deq q [] = Ret ([], q)"
| "run_ops enq deq q (Enq ok x # ops) = obind (enq ok q x) (\<lambda>q'. run_ops enq deq q' ops)"
| "run_ops enq deq q (Deq # ops) =
     obind (deq q) (\<lambda>(r, q'). obind (run_ops enq deq q' ops) (\<lambda>(rs, q''). Ret (r # rs, q'')))"

fun list_ops :: "'a list \<Rightarrow> 'a qop list \<Rightarrow> 'a option list \<times> 'a list" where
  "list_ops xs [] = ([], xs)"
| "list_ops xs (Enq ok x # ops) = list_ops (if ok then xs @ [x] else xs) ops"
| "list_ops [] (Deq # ops) = (let (rs, ys) = list_ops [] ops in (None # rs, ys))"
| "list_ops (x # xs) (Deq # ops) = (let (rs, ys) = list_ops xs ops in (Some x # rs, ys))"

locale fifo_queue =
  fixes rep :: "'q \<Rightarrow> 'a list \<Rightarrow> bool"
    and enq :: "bool \<Rightarrow> 'q \<Rightarrow> 'a \<Rightarrow> 'q outcome"
    and deq :: "'q \<Rightarrow> ('a option \<times> 'q) outcome"
    and fr :: "'q \<Rightarrow> 'a option outcome"
  assumes enq_law: "rep q xs \<Longrightarrow> \<exists>q'. enq True q x = Ret q' \<and> rep q' (xs @ [x])"
    and enq_oom: "rep q xs \<Longrightarrow> enq False q x = Ret q"
    and deq_nil: "rep q [] \<Longrightarrow> deq q = Ret (None, q)"
    and deq_cons: "rep q (x # xs) \<Longrightarrow> \<exists>q'. deq q = Ret (Some x, q') \<and> rep q' xs"
    and fr_law: "rep q xs \<Longrightarrow> fr q = Ret (case xs of [] \<Rightarrow> None | x # _ \<Rightarrow> Some x)"
    and rep_unique: "rep q xs \<Longrightarrow> rep q ys \<Longrightarrow> xs = ys"
begin

lemma enq_any: "rep q xs \<Longrightarrow> \<exists>q'. enq ok q x = Ret q' \<and> rep q' (if ok then xs @ [x] else xs)"
  using enq_law [of q xs x] enq_oom [of q xs x] by (cases ok) auto

lemma deq_any:
  "rep q xs \<Longrightarrow> \<exists>q'. deq q = Ret (case xs of [] \<Rightarrow> None | x # _ \<Rightarrow> Some x, q') \<and> rep q' (tl xs)"
  using deq_nil [of q] deq_cons [of q] by (cases xs) fastforce+

lemma run_refines:
  "rep q xs \<Longrightarrow> \<exists>q'. run_ops enq deq q ops = Ret (fst (list_ops xs ops), q') \<and> rep q' (snd (list_ops xs ops))"
proof (induction xs ops arbitrary: q rule: list_ops.induct)
  case (2 xs ok x ops)
  from enq_any [OF "2.prems", of ok x] "2.IH" show ?case by fastforce
next
  case (3 ops)
  from deq_nil [OF "3.prems"] "3.IH" [OF "3.prems"] show ?case by (auto split: prod.splits)
next
  case (4 x xs ops)
  from deq_cons [OF "4.prems"] obtain q' where q': "deq q = Ret (Some x, q')" "rep q' xs" by blast
  from "4.IH" [OF q'(2)] q'(1) show ?case by (auto split: prod.splits)
qed simp

end

text \<open>The linked queue meets the interface.\<close>

interpretation lq: fifo_queue qh_rep q_enq q_deq q_front
proof
  fix q :: "'a qhandle" and xs ys x
  show "q_enq False q x = Ret q" if "qh_rep q xs"
    using that by (cases q) (auto simp: qh_rep_def q_enq_def enqueue_def)
  show "\<exists>q'. q_enq True q x = Ret q' \<and> qh_rep q' (xs @ [x])" if "qh_rep q xs"
    using that enqueue_rep [of "fst q" _ "map Some xs" "Some x"] by (fastforce simp: qh_rep_def q_enq_def)
  show "q_deq q = Ret (None, q)" if "qh_rep q []"
    using that by (cases q) (auto simp: qh_rep_def q_deq_def dequeue_empty)
  show "\<exists>q'. q_deq q = Ret (Some x, q') \<and> qh_rep q' xs" if "qh_rep q (x # xs)"
    using that dequeue_rep [of "fst q" _ "Some x" "map Some xs"] by (fastforce simp: qh_rep_def q_deq_def)
  show "q_front q = Ret (case xs of [] \<Rightarrow> None | x # _ \<Rightarrow> Some x)" if "qh_rep q xs"
    using that by (auto simp: qh_rep_def q_front_def get_front_rep split: list.splits)
  show "xs = ys" if "qh_rep q xs" "qh_rep q ys"
  proof -
    from that obtain s where "q_rep (fst q) s (map Some xs)" "q_rep (fst q) s (map Some ys)"
      by (auto simp: qh_rep_def)
    then have "map Some xs = map Some ys" by (rule q_rep_fun)
    then show ?thesis by (rule map_injective) simp
  qed
qed

lemma qh_rep_new: "qh_rep q_new []"
  using q_rep_init by (simp add: qh_rep_def q_new_def init_queue_def)

text \<open>Sequences on a list are first in, first out.\<close>

fun enqueued :: "'a qop list \<Rightarrow> 'a list" where
  "enqueued [] = []"
| "enqueued (Enq ok x # ops) = (if ok then [x] else []) @ enqueued ops"
| "enqueued (Deq # ops) = enqueued ops"

lemma list_ops_fifo:
  "List.map_filter id (fst (list_ops xs ops)) @ snd (list_ops xs ops) = xs @ enqueued ops"
  by (induction xs ops rule: list_ops.induct) (auto simp: map_filter_simps split: prod.splits)

section \<open>Properties\<close>

text \<open>C13. The linked queue is a FIFO queue: every sequence of \<^verbatim>\<open>enqueue\<close> and \<^verbatim>\<open>dequeue\<close> calls on a new
  queue, allocation failures included, runs without touching a freed node, and what was dequeued so
  far followed by what is still queued is exactly what was enqueued, in order.\<close>

theorem queue_fifo:
  "\<exists>rs q' ys. run_ops q_enq q_deq q_new ops = Ret (rs, q') \<and> qh_rep q' ys \<and>
    rs = fst (list_ops [] ops) \<and> List.map_filter id rs @ ys = enqueued ops"
  using lq.run_refines [OF qh_rep_new, of ops] list_ops_fifo [of "[]" ops] by fastforce

text \<open>C34. \<^verbatim>\<open>delete_queue\<close> passes every stored element to the destructor once, in queue order, and leaves
  no node allocated.\<close>

theorem delete_queue_visits_all:
  assumes "q_rep h q xs"
  shows "\<exists>as h'. dll h None as xs None \<and>
    delete_queue h (Some q) = Ret (if destructor q then List.map_filter id xs else [], h') \<and>
    (\<forall>a\<in>set as. node_at h' a = UB)"
proof -
  from assms obtain as where as: "distinct as" "dll h None as xs None"
    "front q = (if as = [] then None else Some (hd as))"
    by (auto simp: q_rep_def)
  have "front q = (case as of [] \<Rightarrow> None | a # _ \<Rightarrow> Some a)" using as(3) by (cases as) auto
  with delete_nodes_rep [OF as(2,1), of "destructor q"] as(2) show ?thesis
    by (auto simp: delete_queue_def)
qed

theorem delete_queue_visits_all_witness:
  "\<exists>h'. delete_queue [Some \<lparr>prev = None, nxt = Some 1, data = Some CHR ''a''\<rparr>,
       Some \<lparr>prev = Some 0, nxt = None, data = Some CHR ''b''\<rparr>]
      (Some \<lparr>front = Some 0, rear = Some 1, destructor = True\<rparr>) = Ret (''ab'', h')"
proof -
  let ?h = "[Some \<lparr>prev = None, nxt = Some 1, data = Some CHR ''a''\<rparr>,
    Some \<lparr>prev = Some 0, nxt = None, data = Some CHR ''b''\<rparr>]"
  have "q_rep ?h \<lparr>front = Some 0, rear = Some 1, destructor = True\<rparr> [Some CHR ''a'', Some CHR ''b'']"
    unfolding q_rep_def by (intro exI [of _ "[0, 1]"]) (simp add: node_at_def)
  from delete_queue_visits_all [OF this] show ?thesis by (auto simp: map_filter_simps)
qed

end
