(* ===== verification/Server.thy ===== *)
theory Server
  imports Server_Util Queue
begin

text \<open>
  The threads of \<^verbatim>\<open>src/src/server.c\<close>. The main thread accepts clients and puts their requests into
  the request queue; the workers take requests out and serve them; the queue manager wakes up every
  second and moves requests that waited too long to a second queue, which the denier empties. Two
  mutexes protect the queues and two counting semaphores wake the workers and the denier.

  Every thread is a program counter with its local variables and one step function; a step is one
  statement of the C code that touches shared state. A step function returns \<open>None\<close> when the thread
  is blocked. The step functions take the operations of the queue as arguments, as the C code calls
  them through the queue's function pointers. The allocation of a queue node may fail in every step.
\<close>

section \<open>Data\<close>

record Request =
  fd :: int
  ts :: timespec

datatype thread = Main_Thread | Queue_Mgr | Excd_Mgr | App_Worker nat

text \<open>Program counters with the live local variables.\<close>

datatype main_pc =
    M_accept
  | M_lock Request
  | M_enqueue Request
  | M_unlock
  | M_post

datatype mgr_pc =
    G_sleep
  | G_lock
  | G_clock
  | G_front timespec
  | G_check timespec "Request option"
  | G_dequeue timespec Request
  | G_lock_excd timespec Request
  | G_enqueue timespec Request
  | G_unlock_excd timespec
  | G_post timespec
  | G_unlock

datatype excd_pc =
    D_wait
  | D_lock
  | D_dequeue
  | D_unlock "Request option"
  | D_send "Request option"
  | D_close Request

datatype worker_pc =
    W_wait
  | W_lock
  | W_dequeue
  | W_unlock "Request option"
  | W_timeout "Request option"
  | W_func Request
  | W_close Request

text \<open>What the threads did, newest first. No step reads it.\<close>

datatype event =
    Queued Request
  | Lost Request
  | Taken Request
  | Excd_Lost Request
  | Sent Request string
  | Timeout_Set Request "int \<times> int"
  | Served Request
  | Closed Request

record shared =
  req_q_mtx :: "thread option"
  excd_tm_mtx :: "thread option"
  req_q_sem :: nat
  excd_tm_sem :: nat
  clock :: timespec
  main_th :: main_pc
  mgr_th :: mgr_pc
  excd_th :: excd_pc
  workers :: "worker_pc list"
  open_fds :: "int set"
  events :: "event list"

record 'q server =
  req_q :: 'q
  excd_tm_q :: 'q
  sh :: shared

definition init_request :: "timespec \<Rightarrow> int \<Rightarrow> Request" where
  "init_request now f = \<lparr>fd = f, ts = now\<rparr>"

definition TIMEOUT_MSG :: string where
  "TIMEOUT_MSG = ''Timeout Error: the connection couldn'' @ [CHR 0x27] @ ''t be established''"

section \<open>Steps of the threads\<close>

text \<open>The loop of \<^verbatim>\<open>start_server\<close>, from the return of \<^verbatim>\<open>accept\<close> on.\<close>

definition main_step :: "(bool \<Rightarrow> 'q \<Rightarrow> Request \<Rightarrow> 'q outcome) \<Rightarrow> bool \<Rightarrow> 'q server \<Rightarrow> 'q server outcome option" where
  "main_step enq ok s =
     (let p = sh s in
      case main_th p of
        M_accept \<Rightarrow> None
      | M_lock rq \<Rightarrow>
          if req_q_mtx p = None
          then Some (Ret (s\<lparr>sh := p\<lparr>req_q_mtx := Some Main_Thread, main_th := M_enqueue rq\<rparr>\<rparr>))
          else None
      | M_enqueue rq \<Rightarrow>
          Some (obind (enq ok (req_q s) rq) (\<lambda>q.
            Ret (s\<lparr>req_q := q,
                   sh := p\<lparr>main_th := M_unlock,
                           events := (if ok then Queued rq else Lost rq) # events p\<rparr>\<rparr>)))
      | M_unlock \<Rightarrow> Some (Ret (s\<lparr>sh := p\<lparr>req_q_mtx := None, main_th := M_post\<rparr>\<rparr>))
      | M_post \<Rightarrow> Some (Ret (s\<lparr>sh := p\<lparr>req_q_sem := req_q_sem p + 1, main_th := M_accept\<rparr>\<rparr>)))"

definition accept_client :: "int \<Rightarrow> 'q server \<Rightarrow> 'q server outcome option" where
  "accept_client f s =
     (let p = sh s in
      if main_th p = M_accept \<and> f \<notin> open_fds p
      then Some (Ret (s\<lparr>sh := p\<lparr>main_th := M_lock (init_request (clock p) f),
                               open_fds := insert f (open_fds p)\<rparr>\<rparr>))
      else None)"

definition th_req_queue_mgr :: "(bool \<Rightarrow> 'q \<Rightarrow> Request \<Rightarrow> 'q outcome) \<Rightarrow>
    ('q \<Rightarrow> (Request option \<times> 'q) outcome) \<Rightarrow> ('q \<Rightarrow> Request option outcome) \<Rightarrow> int \<Rightarrow> bool \<Rightarrow>
    'q server \<Rightarrow> 'q server outcome option" where
  "th_req_queue_mgr enq deq fr max_queue_time ok s =
     (let p = sh s in
      case mgr_th p of
        G_sleep \<Rightarrow> Some (Ret (s\<lparr>sh := p\<lparr>mgr_th := G_lock\<rparr>\<rparr>))
      | G_lock \<Rightarrow>
          if req_q_mtx p = None
          then Some (Ret (s\<lparr>sh := p\<lparr>req_q_mtx := Some Queue_Mgr, mgr_th := G_clock\<rparr>\<rparr>))
          else None
      | G_clock \<Rightarrow> Some (Ret (s\<lparr>sh := p\<lparr>mgr_th := G_front (clock p)\<rparr>\<rparr>))
      | G_front curr_tm \<Rightarrow>
          Some (obind (fr (req_q s)) (\<lambda>request. Ret (s\<lparr>sh := p\<lparr>mgr_th := G_check curr_tm request\<rparr>\<rparr>)))
      | G_check curr_tm None \<Rightarrow> Some (Ret (s\<lparr>sh := p\<lparr>mgr_th := G_unlock\<rparr>\<rparr>))
      | G_check curr_tm (Some request) \<Rightarrow>
          Some (Ret (s\<lparr>sh := p\<lparr>mgr_th :=
            (if was_waiting_time_exceeded (get_time_diff curr_tm (ts request)) 1 max_queue_time
             then G_dequeue curr_tm request else G_unlock)\<rparr>\<rparr>))
      | G_dequeue curr_tm request \<Rightarrow>
          Some (obind (deq (req_q s)) (\<lambda>(_, q).
            Ret (s\<lparr>req_q := q, sh := p\<lparr>mgr_th := G_lock_excd curr_tm request,
                                       events := Taken request # events p\<rparr>\<rparr>)))
      | G_lock_excd curr_tm request \<Rightarrow>
          if excd_tm_mtx p = None
          then Some (Ret (s\<lparr>sh := p\<lparr>excd_tm_mtx := Some Queue_Mgr, mgr_th := G_enqueue curr_tm request\<rparr>\<rparr>))
          else None
      | G_enqueue curr_tm request \<Rightarrow>
          Some (obind (enq ok (excd_tm_q s) request) (\<lambda>q.
            Ret (s\<lparr>excd_tm_q := q,
                   sh := p\<lparr>mgr_th := G_unlock_excd curr_tm,
                           events := (if ok then events p else Excd_Lost request # events p)\<rparr>\<rparr>)))
      | G_unlock_excd curr_tm \<Rightarrow> Some (Ret (s\<lparr>sh := p\<lparr>excd_tm_mtx := None, mgr_th := G_post curr_tm\<rparr>\<rparr>))
      | G_post curr_tm \<Rightarrow>
          Some (Ret (s\<lparr>sh := p\<lparr>excd_tm_sem := excd_tm_sem p + 1, mgr_th := G_front curr_tm\<rparr>\<rparr>))
      | G_unlock \<Rightarrow> Some (Ret (s\<lparr>sh := p\<lparr>req_q_mtx := None, mgr_th := G_sleep\<rparr>\<rparr>)))"

definition th_excd_tm_q_mgr :: "('q \<Rightarrow> (Request option \<times> 'q) outcome) \<Rightarrow>
    'q server \<Rightarrow> 'q server outcome option" where
  "th_excd_tm_q_mgr deq s =
     (let p = sh s in
      case excd_th p of
        D_wait \<Rightarrow>
          if 0 < excd_tm_sem p
          then Some (Ret (s\<lparr>sh := p\<lparr>excd_tm_sem := excd_tm_sem p - 1, excd_th := D_lock\<rparr>\<rparr>))
          else None
      | D_lock \<Rightarrow>
          if excd_tm_mtx p = None
          then Some (Ret (s\<lparr>sh := p\<lparr>excd_tm_mtx := Some Excd_Mgr, excd_th := D_dequeue\<rparr>\<rparr>))
          else None
      | D_dequeue \<Rightarrow>
          Some (obind (deq (excd_tm_q s)) (\<lambda>(rq, q).
            Ret (s\<lparr>excd_tm_q := q, sh := p\<lparr>excd_th := D_unlock rq\<rparr>\<rparr>)))
      | D_unlock rq \<Rightarrow> Some (Ret (s\<lparr>sh := p\<lparr>excd_tm_mtx := None, excd_th := D_send rq\<rparr>\<rparr>))
      | D_send None \<Rightarrow> Some (Ret (s\<lparr>sh := p\<lparr>excd_th := D_wait\<rparr>\<rparr>))
      | D_send (Some rq) \<Rightarrow>
          Some (Ret (s\<lparr>sh := p\<lparr>excd_th := D_close rq,
                               events := Sent rq (TIMEOUT_MSG @ [NUL]) # events p\<rparr>\<rparr>))
      | D_close rq \<Rightarrow>
          Some (Ret (s\<lparr>sh := p\<lparr>excd_th := D_wait, open_fds := open_fds p - {fd rq},
                               events := Closed rq # events p\<rparr>\<rparr>)))"

text \<open>In \<open>W_func\<close> the worker is inside the call \<^verbatim>\<open>args->func(..)\<close>. The server does not see what the call
  does; it may take any time and need not come back, as \<^verbatim>\<open>app_code\<close> does not while its client is connected
  and silent. \<open>ret\<close> tells whether the call returns now; while it does not, the worker is stuck in it.\<close>

definition app_worker :: "('q \<Rightarrow> (Request option \<times> 'q) outcome) \<Rightarrow> int \<Rightarrow> bool \<Rightarrow> nat \<Rightarrow>
    'q server \<Rightarrow> 'q server outcome option" where
  "app_worker deq recv_timeout ret i s =
     (let p = sh s; go = (\<lambda>pc. (workers p)[i := pc]) in
      if length (workers p) \<le> i then None
      else
      (case workers p ! i of
        W_wait \<Rightarrow>
          if 0 < req_q_sem p
          then Some (Ret (s\<lparr>sh := p\<lparr>req_q_sem := req_q_sem p - 1, workers := go W_lock\<rparr>\<rparr>))
          else None
      | W_lock \<Rightarrow>
          if req_q_mtx p = None
          then Some (Ret (s\<lparr>sh := p\<lparr>req_q_mtx := Some (App_Worker i), workers := go W_dequeue\<rparr>\<rparr>))
          else None
      | W_dequeue \<Rightarrow>
          Some (obind (deq (req_q s)) (\<lambda>(rq, q).
            Ret (s\<lparr>req_q := q,
                   sh := p\<lparr>workers := go (W_unlock rq),
                           events := (case rq of None \<Rightarrow> events p | Some r \<Rightarrow> Taken r # events p)\<rparr>\<rparr>)))
      | W_unlock rq \<Rightarrow> Some (Ret (s\<lparr>sh := p\<lparr>req_q_mtx := None, workers := go (W_timeout rq)\<rparr>\<rparr>))
      | W_timeout None \<Rightarrow> Some (Ret (s\<lparr>sh := p\<lparr>workers := go W_wait\<rparr>\<rparr>))
      | W_timeout (Some rq) \<Rightarrow>
          Some (Ret (s\<lparr>sh := p\<lparr>workers := go (W_func rq),
            events := (case set_recv_tmout recv_timeout 0 of
                         None \<Rightarrow> events p | Some tv \<Rightarrow> Timeout_Set rq tv # events p)\<rparr>\<rparr>))
      | W_func rq \<Rightarrow>
          if ret
          then Some (Ret (s\<lparr>sh := p\<lparr>workers := go (W_close rq), events := Served rq # events p\<rparr>\<rparr>))
          else None
      | W_close rq \<Rightarrow>
          Some (Ret (s\<lparr>sh := p\<lparr>workers := go W_wait, open_fds := open_fds p - {fd rq},
                               events := Closed rq # events p\<rparr>\<rparr>))))"

section \<open>The whole server\<close>

text \<open>One action of the scheduler or of the environment: a client connects, time passes, or a thread
  takes a step. The flag of the main thread and of the manager tells whether a \<^verbatim>\<open>calloc\<close> in the step
  succeeds, that of a worker whether the call it is in returns.\<close>

datatype action =
    Client int
  | Tick timespec
  | Run_Main bool
  | Run_Mgr bool
  | Run_Excd
  | Run_Worker nat bool

definition tick :: "timespec \<Rightarrow> 'q server \<Rightarrow> 'q server outcome option" where
  "tick t s = (if clock (sh s) \<le> t \<and> ts_valid t then Some (Ret (s\<lparr>sh := (sh s)\<lparr>clock := t\<rparr>\<rparr>)) else None)"

fun exec :: "(bool \<Rightarrow> 'q \<Rightarrow> Request \<Rightarrow> 'q outcome) \<Rightarrow> ('q \<Rightarrow> (Request option \<times> 'q) outcome) \<Rightarrow>
    ('q \<Rightarrow> Request option outcome) \<Rightarrow> int \<Rightarrow> int \<Rightarrow> action \<Rightarrow> 'q server \<Rightarrow> 'q server outcome option" where
  "exec enq deq fr mx rt (Client f) s = accept_client f s"
| "exec enq deq fr mx rt (Tick t) s = tick t s"
| "exec enq deq fr mx rt (Run_Main ok) s = main_step enq ok s"
| "exec enq deq fr mx rt (Run_Mgr ok) s = th_req_queue_mgr enq deq fr mx ok s"
| "exec enq deq fr mx rt Run_Excd s = th_excd_tm_q_mgr deq s"
| "exec enq deq fr mx rt (Run_Worker i ret) s = app_worker deq rt ret i s"

text \<open>\<^verbatim>\<open>create_workers_pool\<close>: \<open>crt k\<close> is the result of the \<open>k\<close>-th \<^verbatim>\<open>pthread_create\<close>; \<open>None\<close> is
  \<^verbatim>\<open>exit\<close>.\<close>

definition create_thread :: "errno \<Rightarrow> unit option" where
  "create_thread err = (if err = 0 then Some () else None)"

function pool_loop :: "(nat \<Rightarrow> errno) \<Rightarrow> nat \<Rightarrow> nat \<Rightarrow> worker_pc list \<Rightarrow> worker_pc list option" where
  "pool_loop crt nr_thds_created max_app_workers ws =
     (if nr_thds_created < max_app_workers
      then (case create_thread (crt nr_thds_created) of
              None \<Rightarrow> None
            | Some _ \<Rightarrow> pool_loop crt (nr_thds_created + 1) max_app_workers (ws @ [W_wait]))
      else Some ws)"
  by pat_completeness auto
termination by (relation "measure (\<lambda>(crt, n, mx, ws). mx - n)") auto

declare pool_loop.simps [simp del]

definition create_workers_pool :: "(nat \<Rightarrow> errno) \<Rightarrow> nat \<Rightarrow> worker_pc list option" where
  "create_workers_pool crt max_app_workers = pool_loop crt 0 max_app_workers []"

text \<open>What the system calls of the start-up answer.\<close>

record boot =
  pthread_create_rtn :: "nat \<Rightarrow> errno"
  getaddrinfo_rtn :: int
  addresses :: "(int \<times> int \<times> int) list"

text \<open>The state in which \<^verbatim>\<open>start_server\<close> reaches its accept loop, with empty queues \<open>q1\<close>, \<open>q2\<close>;
  \<open>None\<close> when it does not get there.\<close>

definition start_server :: "boot \<Rightarrow> int \<Rightarrow> nat \<Rightarrow> timespec \<Rightarrow> 'q \<Rightarrow> 'q \<Rightarrow> 'q server option" where
  "start_server b maxpending max_app_workers now q1 q2 =
     (let crt = pthread_create_rtn b in
      case create_thread (crt 0) of
        None \<Rightarrow> None
      | Some _ \<Rightarrow>
         (case create_thread (crt 1) of
            None \<Rightarrow> None
          | Some _ \<Rightarrow>
             (case create_workers_pool (\<lambda>k. crt (k + 2)) max_app_workers of
                None \<Rightarrow> None
              | Some ws \<Rightarrow>
                 (case get_server_sock maxpending (getaddrinfo_rtn b) (addresses b) of
                    None \<Rightarrow> None
                  | Some server_fd \<Rightarrow>
                      if server_fd = -1 then None
                      else
                        Some \<lparr>req_q = q1, excd_tm_q = q2,
                              sh = \<lparr>req_q_mtx = None, excd_tm_mtx = None, req_q_sem = 0, excd_tm_sem = 0,
                                    clock = now, main_th = M_accept, mgr_th = G_sleep, excd_th = D_wait,
                                    workers = ws, open_fds = {}, events = []\<rparr>\<rparr>))))"

inductive reachable :: "(bool \<Rightarrow> 'q \<Rightarrow> Request \<Rightarrow> 'q outcome) \<Rightarrow> ('q \<Rightarrow> (Request option \<times> 'q) outcome) \<Rightarrow>
    ('q \<Rightarrow> Request option outcome) \<Rightarrow> int \<Rightarrow> int \<Rightarrow> 'q server \<Rightarrow> 'q server \<Rightarrow> bool"
  for enq deq fr mx rt s0 where
  start: "reachable enq deq fr mx rt s0 s0"
| step: "reachable enq deq fr mx rt s0 s \<Longrightarrow> exec enq deq fr mx rt a s = Some (Ret s') \<Longrightarrow>
    reachable enq deq fr mx rt s0 s'"

inductive_cases reachable_cases: "reachable enq deq fr mx rt s0 s"

end
