(* ===== verification/Server_Sim.thy ===== *)
theory Server_Sim
  imports Server
begin

text \<open>
  The server over any queue that meets the interface \<open>fifo_queue\<close> is simulated, step by step and in
  both directions, by the server over plain lists; so what is proved about the list server holds for
  the linked queue of \<^verbatim>\<open>src/src/queue.c\<close>.
\<close>

section \<open>Lists as queues\<close>

definition l_enq :: "bool \<Rightarrow> 'a list \<Rightarrow> 'a \<Rightarrow> 'a list outcome" where
  "l_enq ok xs x = Ret (if ok then xs @ [x] else xs)"

definition l_deq :: "'a list \<Rightarrow> ('a option \<times> 'a list) outcome" where
  "l_deq xs = Ret (case xs of [] \<Rightarrow> (None, []) | x # ys \<Rightarrow> (Some x, ys))"

definition l_front :: "'a list \<Rightarrow> 'a option outcome" where
  "l_front xs = Ret (case xs of [] \<Rightarrow> None | x # _ \<Rightarrow> Some x)"

interpretation ll: fifo_queue "(=)" l_enq l_deq l_front
  by unfold_locales (auto simp: l_enq_def l_deq_def l_front_def split: list.splits)

type_synonym lserver = "Request list server"

abbreviation lexec :: "int \<Rightarrow> int \<Rightarrow> action \<Rightarrow> lserver \<Rightarrow> lserver outcome option" where
  "lexec \<equiv> exec l_enq l_deq l_front"

section \<open>Simulation\<close>

definition sim :: "('q \<Rightarrow> Request list \<Rightarrow> bool) \<Rightarrow> 'q server \<Rightarrow> lserver \<Rightarrow> bool" where
  "sim rep s t \<longleftrightarrow> rep (req_q s) (req_q t) \<and> rep (excd_tm_q s) (excd_tm_q t) \<and> sh s = sh t"

fun osim :: "('q \<Rightarrow> Request list \<Rightarrow> bool) \<Rightarrow> 'q server outcome option \<Rightarrow> lserver outcome option \<Rightarrow> bool" where
  "osim rep x None \<longleftrightarrow> x = None"
| "osim rep x (Some (Ret t)) \<longleftrightarrow> (\<exists>s. x = Some (Ret s) \<and> sim rep s t)"
| "osim rep x (Some _) \<longleftrightarrow> False"

locale server_queues = fifo_queue rep enq deq fr
  for rep :: "'q \<Rightarrow> Request list \<Rightarrow> bool"
    and enq :: "bool \<Rightarrow> 'q \<Rightarrow> Request \<Rightarrow> 'q outcome"
    and deq :: "'q \<Rightarrow> (Request option \<times> 'q) outcome"
    and fr :: "'q \<Rightarrow> Request option outcome"
begin

lemma simD:
  assumes "sim rep s t"
  shows "sh s = sh t" "\<exists>q'. enq ok (req_q s) x = Ret q' \<and> rep q' (if ok then req_q t @ [x] else req_q t)"
    "\<exists>q'. enq ok (excd_tm_q s) x = Ret q' \<and> rep q' (if ok then excd_tm_q t @ [x] else excd_tm_q t)"
    "\<exists>q'. deq (req_q s) = Ret (case req_q t of [] \<Rightarrow> None | x # _ \<Rightarrow> Some x, q') \<and> rep q' (tl (req_q t))"
    "\<exists>q'. deq (excd_tm_q s) = Ret (case excd_tm_q t of [] \<Rightarrow> None | x # _ \<Rightarrow> Some x, q') \<and>
       rep q' (tl (excd_tm_q t))"
    "fr (req_q s) = Ret (case req_q t of [] \<Rightarrow> None | x # _ \<Rightarrow> Some x)"
  using assms enq_any deq_any fr_law by (simp_all add: sim_def)

lemma sim_sh: "sim rep s t \<Longrightarrow> sim rep (s\<lparr>sh := p\<rparr>) (t\<lparr>sh := p\<rparr>)"
  by (simp add: sim_def)

lemma osim_enq_req:
  assumes "sim rep s t" "\<And>q ys. rep q ys \<Longrightarrow> sim rep (f q) (g ys)"
  shows "osim rep (Some (obind (enq ok (req_q s) x) (\<lambda>q. Ret (f q))))
    (Some (obind (l_enq ok (req_q t) x) (\<lambda>q. Ret (g q))))"
  using simD(2) [OF assms(1), of ok x] assms(2) by (auto simp: l_enq_def split: if_splits)

lemma osim_enq_excd:
  assumes "sim rep s t" "\<And>q ys. rep q ys \<Longrightarrow> sim rep (f q) (g ys)"
  shows "osim rep (Some (obind (enq ok (excd_tm_q s) x) (\<lambda>q. Ret (f q))))
    (Some (obind (l_enq ok (excd_tm_q t) x) (\<lambda>q. Ret (g q))))"
  using simD(3) [OF assms(1), of ok x] assms(2) by (auto simp: l_enq_def split: if_splits)

lemma osim_deq_req:
  assumes "sim rep s t" "\<And>r q ys. rep q ys \<Longrightarrow> sim rep (f r q) (g r ys)"
  shows "osim rep (Some (obind (deq (req_q s)) (\<lambda>(r, q). Ret (f r q))))
    (Some (obind (l_deq (req_q t)) (\<lambda>(r, q). Ret (g r q))))"
  using simD(4) [OF assms(1)] assms(2) by (cases "req_q t") (auto simp: l_deq_def)

lemma osim_deq_excd:
  assumes "sim rep s t" "\<And>r q ys. rep q ys \<Longrightarrow> sim rep (f r q) (g r ys)"
  shows "osim rep (Some (obind (deq (excd_tm_q s)) (\<lambda>(r, q). Ret (f r q))))
    (Some (obind (l_deq (excd_tm_q t)) (\<lambda>(r, q). Ret (g r q))))"
  using simD(5) [OF assms(1)] assms(2) by (cases "excd_tm_q t") (auto simp: l_deq_def)

lemma osim_fr:
  assumes "sim rep s t" "\<And>r. sim rep (f r) (g r)"
  shows "osim rep (Some (obind (fr (req_q s)) (\<lambda>r. Ret (f r)))) (Some (obind (l_front (req_q t)) (\<lambda>r. Ret (g r))))"
  using simD(6) [OF assms(1)] assms(2) by (simp add: l_front_def)

lemmas osim_intros = osim_enq_req osim_enq_excd osim_deq_req osim_deq_excd osim_fr

lemma sim_main: "sim rep s t \<Longrightarrow> osim rep (main_step enq ok s) (main_step l_enq ok t)"
  by (cases "main_th (sh t)")
    (simp_all add: main_step_def Let_def simD(1) sim_sh,
     auto intro!: osim_intros simp: sim_def)

lemma sim_mgr:
  "sim rep s t \<Longrightarrow> osim rep (th_req_queue_mgr enq deq fr mx ok s) (th_req_queue_mgr l_enq l_deq l_front mx ok t)"
  by (cases "mgr_th (sh t)")
    (simp_all add: th_req_queue_mgr_def Let_def simD(1) sim_sh split: option.split,
     auto intro!: osim_intros simp: sim_def)

lemma sim_excd: "sim rep s t \<Longrightarrow> osim rep (th_excd_tm_q_mgr deq s) (th_excd_tm_q_mgr l_deq t)"
  by (cases "excd_th (sh t)")
    (simp_all add: th_excd_tm_q_mgr_def Let_def simD(1) sim_sh split: option.split,
     auto intro!: osim_intros simp: sim_def)

lemma sim_worker: "sim rep s t \<Longrightarrow> osim rep (app_worker deq rt ret i s) (app_worker l_deq rt ret i t)"
  by (cases "workers (sh t) ! i")
    (simp_all add: app_worker_def Let_def simD(1) sim_sh split: option.split,
     auto intro!: osim_intros simp: sim_def)

lemma exec_sim: "sim rep s t \<Longrightarrow> osim rep (exec enq deq fr mx rt a s) (lexec mx rt a t)"
  by (cases a)
    (auto simp: sim_main sim_mgr sim_excd sim_worker accept_client_def tick_def simD(1) sim_sh Let_def)

lemma osim_cases:
  "osim rep x y \<Longrightarrow> (y = None \<Longrightarrow> x = None \<Longrightarrow> P) \<Longrightarrow>
    (\<And>s t. x = Some (Ret s) \<Longrightarrow> y = Some (Ret t) \<Longrightarrow> sim rep s t \<Longrightarrow> P) \<Longrightarrow> P"
  by (cases "(rep, x, y)" rule: osim.cases) auto

lemma exec_forward:
  "sim rep s t \<Longrightarrow> exec enq deq fr mx rt a s = Some (Ret s') \<Longrightarrow>
    \<exists>t'. lexec mx rt a t = Some (Ret t') \<and> sim rep s' t'"
  by (erule osim_cases [OF exec_sim, of s t mx rt a]) auto

lemma exec_defined:
  "sim rep s t \<Longrightarrow> exec enq deq fr mx rt a s = None \<or> (\<exists>s'. exec enq deq fr mx rt a s = Some (Ret s'))"
  by (erule osim_cases [OF exec_sim, of s t mx rt a]) auto

lemma exec_blocked: "sim rep s t \<Longrightarrow> exec enq deq fr mx rt a s = None \<longleftrightarrow> lexec mx rt a t = None"
  by (erule osim_cases [OF exec_sim, of s t mx rt a]) auto

lemma reachable_sim:
  "reachable enq deq fr mx rt s0 s \<Longrightarrow> sim rep s0 t0 \<Longrightarrow>
    \<exists>t. reachable l_enq l_deq l_front mx rt t0 t \<and> sim rep s t"
proof (induction rule: reachable.induct)
  case start
  then show ?case using reachable.start by blast
next
  case (step s a s')
  then obtain t where t: "reachable l_enq l_deq l_front mx rt t0 t" "sim rep s t" by blast
  from exec_forward [OF t(2) step.hyps(2)] obtain t' where
    "lexec mx rt a t = Some (Ret t')" "sim rep s' t'" by blast
  with reachable.step [OF t(1)] show ?case by blast
qed

end

interpretation ls: server_queues qh_rep q_enq q_deq q_front ..

end
