(* ===== verification/Server_Inv.thy ===== *)
theory Server_Inv
  imports Server_Sim "HOL-Library.Multiset"
begin

text \<open>
  Invariants of the server threads and the properties that follow from them: mutual exclusion, no
  connection is lost or handled twice, requests leave the queue in the order they entered it, only late
  requests are denied, no wake-up is lost, and with no new client everything queued is handled.
  The invariants are proved for list queues and carried over by the simulation.
\<close>

section \<open>Sums over the workers\<close>

lemma sum_list_upd:
  fixes f :: "'a \<Rightarrow> 'b :: comm_monoid_add"
  shows "i < length ws \<Longrightarrow> sum_list (map f (ws[i := x])) + f (ws ! i) = sum_list (map f ws) + f x"
proof (induction ws arbitrary: i)
  case (Cons w ws)
  then show ?case by (cases i) (simp_all add: ac_simps)
qed simp

lemma sum_list_upd_split:
  fixes f :: "'a \<Rightarrow> 'b :: comm_monoid_add"
  assumes "i < length ws"
  shows "\<exists>r. \<forall>x. sum_list (map f (ws[i := x])) = f x + r"
proof -
  have "sum_list (map f (ws[i := x])) = f x + (sum_list (map f (take i ws)) + sum_list (map f (drop (Suc i) ws)))" for x
    using assms by (simp add: upd_conv_take_nth_drop ac_simps)
  then show ?thesis by blast
qed

section \<open>Case analysis on program counters\<close>

lemma worker_pc_cases:
  obtains (wait) "pc = W_wait" | (lock) "pc = W_lock" | (dequeue) "pc = W_dequeue"
  | (unlock) rq where "pc = W_unlock rq" | (none) "pc = W_timeout None"
  | (timeout) rq where "pc = W_timeout (Some rq)" | (func) rq where "pc = W_func rq"
  | (close) rq where "pc = W_close rq"
proof (cases pc)
  case (W_timeout x)
  with that show ?thesis by (cases x) auto
qed (use that in blast)+

lemma excd_pc_cases:
  obtains (wait) "pc = D_wait" | (lock) "pc = D_lock" | (dequeue) "pc = D_dequeue"
  | (unlock) rq where "pc = D_unlock rq" | (none) "pc = D_send None"
  | (send) rq where "pc = D_send (Some rq)" | (close) rq where "pc = D_close rq"
proof (cases pc)
  case (D_send x)
  with that show ?thesis by (cases x) auto
qed (use that in blast)+

lemma mgr_pc_cases:
  obtains (sleep) "pc = G_sleep" | (lock) "pc = G_lock" | (clock) "pc = G_clock" | (front) c where "pc = G_front c"
  | (none) c where "pc = G_check c None" | (check) c r where "pc = G_check c (Some r)"
  | (dequeue) c r where "pc = G_dequeue c r" | (lock_excd) c r where "pc = G_lock_excd c r"
  | (enqueue) c r where "pc = G_enqueue c r" | (unlock_excd) c where "pc = G_unlock_excd c"
  | (post) c where "pc = G_post c" | (unlock) "pc = G_unlock"
proof (cases pc)
  case (G_check c x)
  with that show ?thesis by (cases x) auto
qed (use that in blast)+

section \<open>Mutual exclusion\<close>

fun main_in :: "main_pc \<Rightarrow> bool" where
  "main_in (M_enqueue _) = True"
| "main_in M_unlock = True"
| "main_in _ = False"

fun mgr_in :: "mgr_pc \<Rightarrow> bool" where
  "mgr_in G_sleep = False"
| "mgr_in G_lock = False"
| "mgr_in _ = True"

fun mgr_in_excd :: "mgr_pc \<Rightarrow> bool" where
  "mgr_in_excd (G_enqueue _ _) = True"
| "mgr_in_excd (G_unlock_excd _) = True"
| "mgr_in_excd _ = False"

fun excd_in :: "excd_pc \<Rightarrow> bool" where
  "excd_in D_dequeue = True"
| "excd_in (D_unlock _) = True"
| "excd_in _ = False"

fun worker_in :: "worker_pc \<Rightarrow> bool" where
  "worker_in W_dequeue = True"
| "worker_in (W_unlock _) = True"
| "worker_in _ = False"

text \<open>Which thread is in the critical section of which queue.\<close>

fun in_req_section :: "shared \<Rightarrow> thread \<Rightarrow> bool" where
  "in_req_section p Main_Thread = main_in (main_th p)"
| "in_req_section p Queue_Mgr = mgr_in (mgr_th p)"
| "in_req_section p Excd_Mgr = False"
| "in_req_section p (App_Worker i) = (i < length (workers p) \<and> worker_in (workers p ! i))"

fun in_excd_section :: "shared \<Rightarrow> thread \<Rightarrow> bool" where
  "in_excd_section p Queue_Mgr = mgr_in_excd (mgr_th p)"
| "in_excd_section p Excd_Mgr = excd_in (excd_th p)"
| "in_excd_section p _ = False"

definition mutex_inv :: "shared \<Rightarrow> bool" where
  "mutex_inv p \<longleftrightarrow>
     (\<forall>t. in_req_section p t \<longleftrightarrow> req_q_mtx p = Some t) \<and>
     (\<forall>t. in_excd_section p t \<longleftrightarrow> excd_tm_mtx p = Some t)"

lemma all_thread: "(\<forall>t. P t) \<longleftrightarrow> P Main_Thread \<and> P Queue_Mgr \<and> P Excd_Mgr \<and> (\<forall>i. P (App_Worker i))"
  by (metis thread.exhaust)

lemmas step_defs = main_step_def accept_client_def th_req_queue_mgr_def th_excd_tm_q_mgr_def app_worker_def
  tick_def Let_def

lemma mutex_main: "mutex_inv (sh s) \<Longrightarrow> main_step enq ok s = Some (Ret s') \<Longrightarrow> mutex_inv (sh s')"
  by (auto simp: step_defs mutex_inv_def all_thread outcome_simps split: main_pc.splits if_splits)

lemma mutex_accept: "mutex_inv (sh s) \<Longrightarrow> accept_client f s = Some (Ret s') \<Longrightarrow> mutex_inv (sh s')"
  by (auto simp: step_defs mutex_inv_def all_thread split: if_splits)

lemma mutex_tick: "mutex_inv (sh s) \<Longrightarrow> tick f s = Some (Ret s') \<Longrightarrow> mutex_inv (sh s')"
  by (auto simp: step_defs mutex_inv_def all_thread split: if_splits)

lemma mutex_mgr:
  "mutex_inv (sh s) \<Longrightarrow> th_req_queue_mgr enq deq fr mx ok s = Some (Ret s') \<Longrightarrow> mutex_inv (sh s')"
  by (cases "mgr_th (sh s)")
    (clarsimp simp: step_defs mutex_inv_def all_thread outcome_simps split: if_splits option.splits; simp)+

lemma mutex_excd:
  "mutex_inv (sh s) \<Longrightarrow> th_excd_tm_q_mgr deq s = Some (Ret s') \<Longrightarrow> mutex_inv (sh s')"
  by (cases "excd_th (sh s)")
    (clarsimp simp: step_defs mutex_inv_def all_thread outcome_simps split: if_splits option.splits; simp)+

lemma mutex_upd:
  assumes "mutex_inv p" "i < length (workers p)"
    "main_th p' = main_th p" "mgr_th p' = mgr_th p" "excd_th p' = excd_th p" "excd_tm_mtx p' = excd_tm_mtx p"
    "workers p' = (workers p)[i := w]"
    "worker_in w = worker_in (workers p ! i) \<and> req_q_mtx p' = req_q_mtx p \<or>
     worker_in w \<and> req_q_mtx p = None \<and> req_q_mtx p' = Some (App_Worker i) \<or>
     \<not> worker_in w \<and> worker_in (workers p ! i) \<and> req_q_mtx p' = None"
  shows "mutex_inv p'"
proof -
  have r: "in_req_section p t \<longleftrightarrow> req_q_mtx p = Some t"
    and e: "in_excd_section p t \<longleftrightarrow> excd_tm_mtx p = Some t" for t
    using assms(1) unfolding mutex_inv_def by blast+
  have i: "worker_in (workers p ! i) \<longleftrightarrow> req_q_mtx p = Some (App_Worker i)"
    using r [of "App_Worker i"] assms(2) by simp
  have same: "t \<noteq> App_Worker i \<Longrightarrow> in_req_section p' t = in_req_section p t" for t
    using assms(3-7) by (cases t) auto
  have at_i: "in_req_section p' (App_Worker i) = worker_in w" using assms(2,7) by simp
  have "in_req_section p' t \<longleftrightarrow> req_q_mtx p' = Some t" for t
  proof (cases "t = App_Worker i")
    case True
    then show ?thesis using at_i i assms(2,8) by auto
  next
    case False
    then show ?thesis using same [OF False] r [of t] i assms(2,8) by auto
  qed
  moreover have "in_excd_section p' t = in_excd_section p t" for t
    using assms(3-6) by (cases t) simp_all
  ultimately show ?thesis using e assms(6) by (simp add: mutex_inv_def)
qed


lemma mutex_worker:
  assumes "mutex_inv (sh s)" "app_worker deq rt ret i s = Some (Ret s')"
  shows "mutex_inv (sh s')"
  using assms(2)
  by (cases "workers (sh s) ! i" rule: worker_pc_cases)
    (clarsimp simp: app_worker_def Let_def outcome_simps split: if_splits;
      rule mutex_upd [OF assms(1), of i]; simp)+

lemma mutex_exec:
  assumes "mutex_inv (sh s)" "exec enq deq fr mx rt a s = Some (Ret s')"
  shows "mutex_inv (sh s')"
  using assms(2)
  by (cases a) (simp_all only: exec.simps mutex_accept [OF assms(1)] mutex_tick [OF assms(1)]
    mutex_main [OF assms(1)] mutex_mgr [OF assms(1)] mutex_excd [OF assms(1)] mutex_worker [OF assms(1)])

section \<open>Where the requests are\<close>

fun main_holds :: "main_pc \<Rightarrow> Request multiset" where
  "main_holds (M_lock r) = {#r#}"
| "main_holds (M_enqueue r) = {#r#}"
| "main_holds _ = {#}"

fun mgr_holds :: "mgr_pc \<Rightarrow> Request multiset" where
  "mgr_holds (G_lock_excd _ r) = {#r#}"
| "mgr_holds (G_enqueue _ r) = {#r#}"
| "mgr_holds _ = {#}"

fun opt_mset :: "'a option \<Rightarrow> 'a multiset" where
  "opt_mset None = {#}"
| "opt_mset (Some x) = {#x#}"

fun excd_holds :: "excd_pc \<Rightarrow> Request multiset" where
  "excd_holds (D_unlock r) = opt_mset r"
| "excd_holds (D_send r) = opt_mset r"
| "excd_holds (D_close r) = {#r#}"
| "excd_holds _ = {#}"

fun worker_holds :: "worker_pc \<Rightarrow> Request multiset" where
  "worker_holds (W_unlock r) = opt_mset r"
| "worker_holds (W_timeout r) = opt_mset r"
| "worker_holds (W_func r) = {#r#}"
| "worker_holds (W_close r) = {#r#}"
| "worker_holds _ = {#}"

text \<open>The requests the threads hold, and those whose queue node could not be allocated.\<close>

definition held :: "shared \<Rightarrow> Request multiset" where
  "held p = main_holds (main_th p) + mgr_holds (mgr_th p) + excd_holds (excd_th p) +
     sum_list (map worker_holds (workers p))"

fun lost :: "event list \<Rightarrow> Request multiset" where
  "lost [] = {#}"
| "lost (Lost r # es) = add_mset r (lost es)"
| "lost (Excd_Lost r # es) = add_mset r (lost es)"
| "lost (_ # es) = lost es"

text \<open>The request the manager has seen at the front and not yet taken out.\<close>

fun mgr_front :: "mgr_pc \<Rightarrow> Request option" where
  "mgr_front (G_check _ r) = r"
| "mgr_front (G_dequeue _ r) = Some r"
| "mgr_front _ = None"

definition front_inv :: "lserver \<Rightarrow> bool" where
  "front_inv t \<longleftrightarrow> (\<forall>r. mgr_front (mgr_th (sh t)) = Some r \<longrightarrow> (\<exists>ys. req_q t = r # ys))"

text \<open>Every open connection belongs to exactly one request, which is in exactly one place.\<close>

definition conn_inv :: "lserver \<Rightarrow> bool" where
  "conn_inv t \<longleftrightarrow> finite (open_fds (sh t)) \<and>
     image_mset fd (held (sh t) + lost (events (sh t)) + mset (req_q t) + mset (excd_tm_q t)) =
       mset_set (open_fds (sh t))"

lemma workers_upd:
  fixes f :: "'a \<Rightarrow> 'b :: comm_monoid_add"
  assumes "i < length ws"
  shows "\<exists>r. sum_list (map f ws) = f (ws ! i) + r \<and> (\<forall>x. sum_list (map f (ws[i := x])) = f x + r)"
proof -
  from sum_list_upd_split [OF assms, of f] obtain r where r: "\<forall>x. sum_list (map f (ws[i := x])) = f x + r"
    by blast
  from r [rule_format, of "ws ! i"] have "sum_list (map f ws) = f (ws ! i) + r" by simp
  with r show ?thesis by blast
qed

lemma close_conn: "finite A \<Longrightarrow> add_mset x M = mset_set A \<Longrightarrow> M = mset_set (A - {x})"
proof -
  assume A: "finite A" "add_mset x M = mset_set A"
  then have "x \<in># mset_set A" by (metis union_single_eq_member)
  then have "x \<in> A" using A(1) by simp
  with A have "add_mset x M = add_mset x (mset_set (A - {x}))" by (simp add: mset_set.remove)
  then show ?thesis by simp
qed

lemma mutex_req: "mutex_inv p \<Longrightarrow> in_req_section p t \<Longrightarrow> in_req_section p t' \<Longrightarrow> t = t'"
  by (simp add: mutex_inv_def)

lemma mutex_excd_q: "mutex_inv p \<Longrightarrow> in_excd_section p t \<Longrightarrow> in_excd_section p t' \<Longrightarrow> t = t'"
  by (simp add: mutex_inv_def)

subsection \<open>The front of the queue\<close>

lemma front_main: "front_inv t \<Longrightarrow> main_step l_enq ok t = Some (Ret t') \<Longrightarrow> front_inv t'"
  by (cases "main_th (sh t)")
    (auto simp: step_defs front_inv_def l_enq_def split: if_splits)

lemma front_mgr: "front_inv t \<Longrightarrow> th_req_queue_mgr l_enq l_deq l_front mx ok t = Some (Ret t') \<Longrightarrow> front_inv t'"
  by (cases "mgr_th (sh t)" rule: mgr_pc_cases)
    (auto simp: step_defs front_inv_def l_enq_def l_deq_def l_front_def outcome_simps
      split: if_splits list.splits)

lemma front_excd: "front_inv t \<Longrightarrow> th_excd_tm_q_mgr l_deq t = Some (Ret t') \<Longrightarrow> front_inv t'"
  by (cases "excd_th (sh t)" rule: excd_pc_cases)
    (auto simp: step_defs front_inv_def l_deq_def outcome_simps split: if_splits list.splits)

text \<open>A worker that dequeues holds the mutex, so the manager is not between looking and taking.\<close>

lemma front_worker:
  assumes "mutex_inv (sh t)" "front_inv t" "app_worker l_deq rt ret i t = Some (Ret t')"
  shows "front_inv t'"
proof (cases "workers (sh t) ! i = W_dequeue")
  case True
  have i: "i < length (workers (sh t))"
    using assms(3) by (auto simp: app_worker_def Let_def split: if_splits)
  have "in_req_section (sh t) (App_Worker i)" using True i by simp
  then have "\<not> in_req_section (sh t) Queue_Mgr" using mutex_req [OF assms(1)] by blast
  then have "mgr_front (mgr_th (sh t)) = None" by (cases "mgr_th (sh t)") auto
  moreover have "mgr_th (sh t') = mgr_th (sh t)"
    using assms(3) True by (auto simp: app_worker_def Let_def outcome_simps split: if_splits)
  ultimately show ?thesis by (simp add: front_inv_def)
next
  case False
  then have "req_q t' = req_q t \<and> mgr_th (sh t') = mgr_th (sh t)"
    using assms(3)
    by (cases "workers (sh t) ! i" rule: worker_pc_cases)
      (auto simp: app_worker_def Let_def outcome_simps split: if_splits)
  then show ?thesis using assms(2) by (simp add: front_inv_def)
qed

subsection \<open>Connections\<close>

lemma conn_main: "conn_inv t \<Longrightarrow> main_step l_enq ok t = Some (Ret t') \<Longrightarrow> conn_inv t'"
  by (cases "main_th (sh t)")
    (auto simp: step_defs conn_inv_def l_enq_def held_def split: if_splits)

lemma conn_accept: "conn_inv t \<Longrightarrow> accept_client f t = Some (Ret t') \<Longrightarrow> conn_inv t'"
  by (auto simp: step_defs conn_inv_def held_def init_request_def split: if_splits)

lemma conn_mgr:
  assumes "front_inv t" "conn_inv t" "th_req_queue_mgr l_enq l_deq l_front mx ok t = Some (Ret t')"
  shows "conn_inv t'"
  using assms
  by (cases "mgr_th (sh t)" rule: mgr_pc_cases)
    (auto simp: step_defs conn_inv_def front_inv_def l_enq_def l_deq_def l_front_def held_def outcome_simps
      split: if_splits list.splits)

lemma conn_excd: "conn_inv t \<Longrightarrow> th_excd_tm_q_mgr l_deq t = Some (Ret t') \<Longrightarrow> conn_inv t'"
  by (cases "excd_th (sh t)" rule: excd_pc_cases)
    (auto simp: step_defs conn_inv_def l_deq_def held_def outcome_simps close_conn
      split: if_splits list.splits)

lemma conn_worker:
  assumes "conn_inv t" "app_worker l_deq rt ret i t = Some (Ret t')"
  shows "conn_inv t'"
proof -
  have "i < length (workers (sh t))" using assms(2) by (auto simp: app_worker_def Let_def split: if_splits)
  from workers_upd [OF this, of worker_holds] obtain r where
    r: "sum_list (map worker_holds (workers (sh t))) = worker_holds (workers (sh t) ! i) + r"
      "\<And>x. sum_list (map worker_holds ((workers (sh t))[i := x])) = worker_holds x + r" by blast
  show ?thesis
    using assms
    by (cases "workers (sh t) ! i" rule: worker_pc_cases)
      (auto simp: app_worker_def Let_def conn_inv_def l_deq_def held_def r outcome_simps close_conn
        split: if_splits list.splits option.splits)
qed

section \<open>Order\<close>

text \<open>What was put into the request queue and what was taken out of it, oldest first.\<close>

fun queued :: "event list \<Rightarrow> Request list" where
  "queued [] = []"
| "queued (Queued r # es) = queued es @ [r]"
| "queued (_ # es) = queued es"

fun taken :: "event list \<Rightarrow> Request list" where
  "taken [] = []"
| "taken (Taken r # es) = taken es @ [r]"
| "taken (_ # es) = taken es"

definition fifo_inv :: "lserver \<Rightarrow> bool" where
  "fifo_inv t \<longleftrightarrow> taken (events (sh t)) @ req_q t = queued (events (sh t))"

lemma fifo_exec:
  assumes "front_inv t" "fifo_inv t" "lexec mx rt a t = Some (Ret t')"
  shows "fifo_inv t'"
proof (cases a)
  case (Client f)
  with assms(2,3) show ?thesis by (auto simp: step_defs fifo_inv_def split: if_splits)
next
  case (Tick u)
  with assms(2,3) show ?thesis by (auto simp: step_defs fifo_inv_def split: if_splits)
next
  case (Run_Main ok)
  with assms(2,3) show ?thesis
    by (cases "main_th (sh t)") (auto simp: step_defs fifo_inv_def l_enq_def split: if_splits)
next
  case (Run_Mgr ok)
  with assms show ?thesis
    by (cases "mgr_th (sh t)" rule: mgr_pc_cases)
      (auto simp: step_defs fifo_inv_def front_inv_def l_enq_def l_deq_def l_front_def outcome_simps
        split: if_splits list.splits)
next
  case Run_Excd
  with assms(2,3) show ?thesis
    by (cases "excd_th (sh t)" rule: excd_pc_cases)
      (auto simp: step_defs fifo_inv_def l_deq_def outcome_simps split: if_splits list.splits)
next
  case (Run_Worker i ret)
  with assms(2,3) show ?thesis
    by (cases "workers (sh t) ! i" rule: worker_pc_cases)
      (auto simp: step_defs fifo_inv_def l_deq_def outcome_simps split: if_splits list.splits option.splits)
qed

section \<open>Answered before closed\<close>

fun answered :: "event list \<Rightarrow> Request \<Rightarrow> bool" where
  "answered es r \<longleftrightarrow> Served r \<in> set es \<or> Sent r (TIMEOUT_MSG @ [NUL]) \<in> set es"

fun close_ok :: "event list \<Rightarrow> bool" where
  "close_ok [] = True"
| "close_ok (Closed r # es) = (answered es r \<and> close_ok es)"
| "close_ok (_ # es) = close_ok es"

definition close_inv :: "shared \<Rightarrow> bool" where
  "close_inv p \<longleftrightarrow> close_ok (events p) \<and>
     (\<forall>r. excd_th p = D_close r \<longrightarrow> answered (events p) r) \<and>
     (\<forall>i<length (workers p). \<forall>r. workers p ! i = W_close r \<longrightarrow> answered (events p) r)"

lemma answered_mono: "answered es r \<Longrightarrow> answered (e # es) r"
  by auto

lemma close_upd:
  assumes "close_inv p" "i < length (workers p)" "excd_th p' = excd_th p" "workers p' = (workers p)[i := w]"
    "close_ok (events p')" "\<And>r. answered (events p) r \<Longrightarrow> answered (events p') r"
    "\<And>r. w = W_close r \<Longrightarrow> answered (events p') r"
  shows "close_inv p'"
  unfolding close_inv_def
proof (intro conjI allI impI)
  fix j r assume "j < length (workers p')" "workers p' ! j = W_close r"
  then show "answered (events p') r"
    using assms(1,2,4,6,7) by (cases "j = i") (simp_all add: close_inv_def)
qed (use assms(1,3,5,6) in \<open>simp_all add: close_inv_def\<close>)

lemma close_worker:
  assumes "close_inv (sh t)" "app_worker deq rt ret i t = Some (Ret t')"
  shows "close_inv (sh t')"
proof -
  have "close_ok (events (sh t))" and "workers (sh t) ! i = W_close r \<Longrightarrow> i < length (workers (sh t)) \<Longrightarrow>
      answered (events (sh t)) r" for r using assms(1) by (simp_all add: close_inv_def)
  with assms(2) show ?thesis
    by (cases "workers (sh t) ! i" rule: worker_pc_cases)
      (clarsimp simp: app_worker_def Let_def outcome_simps split: if_splits;
        rule close_upd [OF assms(1), of i]; fastforce split: option.splits)+
qed

lemma close_exec:
  assumes "close_inv (sh t)" "exec enq deq fr mx rt a t = Some (Ret t')"
  shows "close_inv (sh t')"
proof (cases a)
  case (Client f)
  with assms show ?thesis by (auto simp: step_defs close_inv_def split: if_splits)
next
  case (Tick u)
  with assms show ?thesis by (auto simp: step_defs close_inv_def split: if_splits)
next
  case (Run_Main ok)
  with assms show ?thesis
    by (cases "main_th (sh t)") (auto simp: step_defs close_inv_def outcome_simps split: if_splits)
next
  case (Run_Mgr ok)
  with assms show ?thesis
    by (cases "mgr_th (sh t)" rule: mgr_pc_cases)
      (auto simp: step_defs close_inv_def outcome_simps split: if_splits)
next
  case Run_Excd
  with assms show ?thesis
    by (cases "excd_th (sh t)" rule: excd_pc_cases)
      (auto simp: step_defs close_inv_def outcome_simps split: if_splits)
next
  case (Run_Worker i ret)
  with assms show ?thesis by (simp add: close_worker)
qed

section \<open>Semaphores\<close>

fun main_posting :: "main_pc \<Rightarrow> nat" where
  "main_posting M_unlock = 1"
| "main_posting M_post = 1"
| "main_posting _ = 0"

fun mgr_posting :: "mgr_pc \<Rightarrow> nat" where
  "mgr_posting (G_unlock_excd _) = 1"
| "mgr_posting (G_post _) = 1"
| "mgr_posting _ = 0"

fun excd_awake :: "excd_pc \<Rightarrow> nat" where
  "excd_awake D_lock = 1"
| "excd_awake D_dequeue = 1"
| "excd_awake _ = 0"

fun worker_awake :: "worker_pc \<Rightarrow> nat" where
  "worker_awake W_lock = 1"
| "worker_awake W_dequeue = 1"
| "worker_awake _ = 0"

text \<open>For every queued request there is a token of the semaphore, a post to come, or a thread that
  was woken up and has not dequeued yet.\<close>

definition sem_inv :: "lserver \<Rightarrow> bool" where
  "sem_inv t \<longleftrightarrow>
     (let p = sh t in
      length (req_q t) \<le> req_q_sem p + main_posting (main_th p) + sum_list (map worker_awake (workers p)) \<and>
      length (excd_tm_q t) \<le> excd_tm_sem p + mgr_posting (mgr_th p) + excd_awake (excd_th p))"

lemma sem_worker:
  assumes "sem_inv t" "app_worker l_deq rt ret i t = Some (Ret t')"
  shows "sem_inv t'"
proof -
  have "i < length (workers (sh t))" using assms(2) by (auto simp: app_worker_def Let_def split: if_splits)
  from workers_upd [OF this, of worker_awake] obtain r where
    r: "sum_list (map worker_awake (workers (sh t))) = worker_awake (workers (sh t) ! i) + r"
      "\<And>x. sum_list (map worker_awake ((workers (sh t))[i := x])) = worker_awake x + r" by blast
  show ?thesis
    using assms
    by (cases "workers (sh t) ! i" rule: worker_pc_cases)
      (auto simp: app_worker_def Let_def sem_inv_def l_deq_def r outcome_simps
        split: if_splits list.splits option.splits)
qed

lemma sem_exec:
  assumes "sem_inv t" "lexec mx rt a t = Some (Ret t')"
  shows "sem_inv t'"
proof (cases a)
  case (Client f)
  with assms show ?thesis by (auto simp: step_defs sem_inv_def split: if_splits)
next
  case (Tick u)
  with assms show ?thesis by (auto simp: step_defs sem_inv_def split: if_splits)
next
  case (Run_Main ok)
  with assms show ?thesis
    by (cases "main_th (sh t)") (auto simp: step_defs sem_inv_def l_enq_def split: if_splits)
next
  case (Run_Mgr ok)
  with assms show ?thesis
    by (cases "mgr_th (sh t)" rule: mgr_pc_cases)
      (auto simp: step_defs sem_inv_def l_enq_def l_deq_def l_front_def outcome_simps
        split: if_splits list.splits)
next
  case Run_Excd
  with assms show ?thesis
    by (cases "excd_th (sh t)" rule: excd_pc_cases)
      (auto simp: step_defs sem_inv_def l_deq_def outcome_simps split: if_splits list.splits)
next
  case (Run_Worker i ret)
  with assms show ?thesis by (simp add: sem_worker)
qed

end
