(* ===== verification/Server_Live.thy ===== *)
theory Server_Live
  imports Server_Inv
begin

text \<open>
  Lateness of denied requests, and what happens when no new client connects: every step of a running
  thread lowers a weight, and when no thread can run nothing is left to handle. The properties of the
  server follow for the linked queue of \<^verbatim>\<open>src/src/queue.c\<close>.
\<close>

section \<open>Lateness\<close>

lemma ts_ns_mono: "ts_valid a \<Longrightarrow> ts_valid b \<Longrightarrow> a \<le> b \<Longrightarrow> ts_ns a \<le> ts_ns b"
  by (auto simp: ts_valid_def ts_ns_def less_eq_timespec_def)

definition overdue :: "timespec \<Rightarrow> Request \<Rightarrow> bool" where
  "overdue now r \<longleftrightarrow> 10 ^ 9 < ts_ns now - ts_ns (ts r)"

text \<open>The requests on their way to being denied, and the manager's reading of the clock.\<close>

fun mgr_late :: "mgr_pc \<Rightarrow> Request multiset" where
  "mgr_late (G_dequeue _ r) = {#r#}"
| "mgr_late pc = mgr_holds pc"

fun mgr_time :: "mgr_pc \<Rightarrow> timespec option" where
  "mgr_time (G_front c) = Some c"
| "mgr_time (G_check c _) = Some c"
| "mgr_time (G_dequeue c _) = Some c"
| "mgr_time (G_lock_excd c _) = Some c"
| "mgr_time (G_enqueue c _) = Some c"
| "mgr_time (G_unlock_excd c) = Some c"
| "mgr_time (G_post c) = Some c"
| "mgr_time _ = None"

definition late :: "lserver \<Rightarrow> Request multiset" where
  "late t = mgr_late (mgr_th (sh t)) + mset (excd_tm_q t) + excd_holds (excd_th (sh t))"

definition late_inv :: "lserver \<Rightarrow> bool" where
  "late_inv t \<longleftrightarrow> ts_valid (clock (sh t)) \<and>
     (\<forall>c. mgr_time (mgr_th (sh t)) = Some c \<longrightarrow> ts_valid c \<and> c \<le> clock (sh t)) \<and>
     (\<forall>r\<in>#main_holds (main_th (sh t)) + mset (req_q t). ts_valid (ts r)) \<and>
     (\<forall>r\<in>#late t. overdue (clock (sh t)) r)"

lemma overdue_mono: "overdue c r \<Longrightarrow> ts_valid c \<Longrightarrow> ts_valid d \<Longrightarrow> c \<le> d \<Longrightarrow> overdue d r"
  using ts_ns_mono [of c d] by (auto simp: overdue_def)

lemma exceeded_overdue:
  assumes "was_waiting_time_exceeded (get_time_diff c (ts r)) 1 mx" "1 \<le> mx" "mx < 2 ^ 31"
    "ts_valid c" "ts_valid (ts r)"
  shows "overdue c r"
proof (rule ccontr)
  assume "\<not> overdue c r"
  then have "ts_float (get_time_diff c (ts r)) \<le> 1"
    using ts_float_le_one [OF diff_valid(1) [OF assms(4,5)]] diff_valid(3) [OF assms(4,5)]
    by (simp add: overdue_def get_time_diff_def)
  with assms(1-3) show False by (simp add: limit_is_one)
qed

lemma late_client: "late_inv t \<Longrightarrow> accept_client f t = Some (Ret t') \<Longrightarrow> late_inv t'"
  by (auto simp: step_defs late_inv_def late_def init_request_def split: if_splits)

lemma late_tick: "late_inv t \<Longrightarrow> tick u t = Some (Ret t') \<Longrightarrow> late_inv t'"
  using overdue_mono [of "clock (sh t)" _ u]
  by (auto simp: step_defs late_inv_def late_def split: if_splits)

lemma late_main: "late_inv t \<Longrightarrow> main_step l_enq ok t = Some (Ret t') \<Longrightarrow> late_inv t'"
  by (cases "main_th (sh t)") (auto simp: step_defs late_inv_def late_def l_enq_def split: if_splits)

lemma late_mgr:
  assumes "front_inv t" "late_inv t" "th_req_queue_mgr l_enq l_deq l_front mx ok t = Some (Ret t')"
    "1 \<le> mx" "mx < 2 ^ 31"
  shows "late_inv t'"
proof (cases "mgr_th (sh t)" rule: mgr_pc_cases)
  case (check c r)
  from assms(1,2) check have c: "ts_valid c" "c \<le> clock (sh t)" "ts_valid (clock (sh t))"
    and r: "ts_valid (ts r)" by (auto simp: late_inv_def front_inv_def)
  have "overdue (clock (sh t)) r" if "was_waiting_time_exceeded (get_time_diff c (ts r)) 1 mx"
    using overdue_mono [OF exceeded_overdue [OF that assms(4,5) c(1) r] c(1,3,2)] .
  with assms(2,3) check show ?thesis
    by (auto simp: step_defs late_inv_def late_def split: if_splits)
next
  case (dequeue c r)
  with assms(1) obtain ys where "req_q t = r # ys" by (auto simp: front_inv_def)
  with assms(2,3) dequeue show ?thesis
    by (auto simp: step_defs late_inv_def late_def l_deq_def)
qed (use assms(2,3) in \<open>auto simp: step_defs late_inv_def late_def l_enq_def l_front_def outcome_simps
    split: if_splits list.splits\<close>)

lemma late_excd: "late_inv t \<Longrightarrow> th_excd_tm_q_mgr l_deq t = Some (Ret t') \<Longrightarrow> late_inv t'"
  by (cases "excd_th (sh t)" rule: excd_pc_cases)
    (auto simp: step_defs late_inv_def late_def l_deq_def outcome_simps split: if_splits list.splits)

lemma late_worker: "late_inv t \<Longrightarrow> app_worker l_deq rt ret i t = Some (Ret t') \<Longrightarrow> late_inv t'"
  by (cases "workers (sh t) ! i" rule: worker_pc_cases)
    (auto simp: step_defs late_inv_def late_def l_deq_def outcome_simps split: if_splits list.splits)

lemma late_exec:
  assumes "late_inv t" "front_inv t" "lexec mx rt a t = Some (Ret t')" "1 \<le> mx" "mx < 2 ^ 31"
  shows "late_inv t'"
  using assms(3)
  by (cases a) (simp_all only: exec.simps late_client [OF assms(1)] late_tick [OF assms(1)]
    late_main [OF assms(1)] late_mgr [OF assms(2,1) _ assms(4,5)] late_excd [OF assms(1)] late_worker [OF assms(1)])

section \<open>Running dry\<close>

text \<open>The steps of a thread that is running, that is, without new clients, the passing of time and the
  manager's waking up from its sleep. \<open>R\<close> tells for which requests the call \<^verbatim>\<open>args->func(..)\<close> returns; a
  worker in another call is not running.\<close>

fun running :: "(Request \<Rightarrow> bool) \<Rightarrow> 'q server \<Rightarrow> action \<Rightarrow> bool" where
  "running R s (Client _) = False"
| "running R s (Tick _) = False"
| "running R s (Run_Mgr _) = (mgr_th (sh s) \<noteq> G_sleep)"
| "running R s (Run_Worker i _) = (\<forall>rq. workers (sh s) ! i = W_func rq \<longrightarrow> R rq)"
| "running R s _ = True"

fun main_weight :: "main_pc \<Rightarrow> nat" where
  "main_weight M_accept = 0"
| "main_weight (M_lock _) = 24"
| "main_weight (M_enqueue _) = 23"
| "main_weight M_unlock = 9"
| "main_weight M_post = 8"

fun mgr_weight :: "mgr_pc \<Rightarrow> nat" where
  "mgr_weight G_sleep = 0"
| "mgr_weight G_unlock = 1"
| "mgr_weight (G_dequeue _ _) = 1"
| "mgr_weight (G_check _ _) = 2"
| "mgr_weight (G_front _) = 3"
| "mgr_weight G_clock = 4"
| "mgr_weight G_lock = 5"
| "mgr_weight (G_post _) = 10"
| "mgr_weight (G_unlock_excd _) = 11"
| "mgr_weight (G_enqueue _ _) = 12"
| "mgr_weight (G_lock_excd _ _) = 13"

fun excd_weight :: "excd_pc \<Rightarrow> nat" where
  "excd_weight D_wait = 0"
| "excd_weight D_lock = 5"
| "excd_weight D_dequeue = 4"
| "excd_weight (D_unlock _) = 3"
| "excd_weight (D_send _) = 2"
| "excd_weight (D_close _) = 1"

fun worker_weight :: "worker_pc \<Rightarrow> nat" where
  "worker_weight W_wait = 0"
| "worker_weight W_lock = 6"
| "worker_weight W_dequeue = 5"
| "worker_weight (W_unlock _) = 4"
| "worker_weight (W_timeout _) = 3"
| "worker_weight (W_func _) = 2"
| "worker_weight (W_close _) = 1"

definition weight :: "lserver \<Rightarrow> nat" where
  "weight t = main_weight (main_th (sh t)) + mgr_weight (mgr_th (sh t)) + excd_weight (excd_th (sh t)) +
     sum_list (map worker_weight (workers (sh t))) +
     7 * req_q_sem (sh t) + 6 * excd_tm_sem (sh t) + 13 * length (req_q t)"

lemma weight_worker:
  assumes "app_worker l_deq rt ret i t = Some (Ret t')"
  shows "weight t' < weight t"
proof -
  have "i < length (workers (sh t))" using assms by (auto simp: app_worker_def Let_def split: if_splits)
  from workers_upd [OF this, of worker_weight] obtain r where
    r: "sum_list (map worker_weight (workers (sh t))) = worker_weight (workers (sh t) ! i) + r"
      "\<And>x. sum_list (map worker_weight ((workers (sh t))[i := x])) = worker_weight x + r" by blast
  show ?thesis
    using assms
    by (cases "workers (sh t) ! i" rule: worker_pc_cases)
      (auto simp: app_worker_def Let_def weight_def l_deq_def r outcome_simps
        split: if_splits list.splits option.splits)
qed

lemma weight_exec:
  assumes "front_inv t" "running R t a" "lexec mx rt a t = Some (Ret t')"
  shows "weight t' < weight t"
proof (cases a)
  case (Run_Main ok)
  with assms(3) show ?thesis
    by (cases "main_th (sh t)") (auto simp: step_defs weight_def l_enq_def split: if_splits)
next
  case (Run_Mgr ok)
  with assms show ?thesis
    by (cases "mgr_th (sh t)" rule: mgr_pc_cases)
      (auto simp: step_defs weight_def front_inv_def l_enq_def l_deq_def l_front_def outcome_simps
        split: if_splits list.splits)
next
  case Run_Excd
  with assms(3) show ?thesis
    by (cases "excd_th (sh t)" rule: excd_pc_cases)
      (auto simp: step_defs weight_def l_deq_def outcome_simps split: if_splits list.splits)
next
  case (Run_Worker i ret)
  with assms(3) show ?thesis by (simp add: weight_worker)
qed (use assms in simp_all)

text \<open>A mutex keeps a thread waiting only while its owner can run.\<close>

lemma excd_owner_runs:
  assumes "mutex_inv (sh t)" "\<forall>a. running R t a \<longrightarrow> lexec mx rt a t = None"
  shows "excd_tm_mtx (sh t) = None"
proof (rule ccontr)
  assume "excd_tm_mtx (sh t) \<noteq> None"
  then obtain h where "excd_tm_mtx (sh t) = Some h" by auto
  with assms(1) have h: "in_excd_section (sh t) h" by (simp add: mutex_inv_def)
  then consider "mgr_in_excd (mgr_th (sh t))" | "excd_in (excd_th (sh t))" by (cases h) auto
  then show False
  proof cases
    case 1
    then have "running R t (Run_Mgr True)" "lexec mx rt (Run_Mgr True) t \<noteq> None"
      by (cases "mgr_th (sh t)"; simp add: step_defs)+
    with assms(2) [rule_format, of "Run_Mgr True"] show False by simp
  next
    case 2
    then have "lexec mx rt Run_Excd t \<noteq> None" by (cases "excd_th (sh t)") (simp_all add: step_defs)
    with assms(2) [rule_format, of Run_Excd] show False by simp
  qed
qed

lemma req_owner_runs:
  assumes "mutex_inv (sh t)" "\<forall>a. running R t a \<longrightarrow> lexec mx rt a t = None"
  shows "req_q_mtx (sh t) = None"
proof (rule ccontr)
  assume "req_q_mtx (sh t) \<noteq> None"
  then obtain h where "req_q_mtx (sh t) = Some h" by auto
  with assms(1) have h: "in_req_section (sh t) h" by (simp add: mutex_inv_def)
  show False
  proof (cases h)
    case Main_Thread
    with h have "lexec mx rt (Run_Main True) t \<noteq> None" by (cases "main_th (sh t)") (simp_all add: step_defs)
    with assms(2) [rule_format, of "Run_Main True"] show False by simp
  next
    case Queue_Mgr
    with h have "running R t (Run_Mgr True)" "lexec mx rt (Run_Mgr True) t \<noteq> None"
      using excd_owner_runs [OF assms]
      by (cases "mgr_th (sh t)" rule: mgr_pc_cases; simp add: step_defs)+
    with assms(2) [rule_format, of "Run_Mgr True"] show False by simp
  next
    case (App_Worker i)
    with h have "running R t (Run_Worker i True)" "lexec mx rt (Run_Worker i True) t \<noteq> None"
      by (cases "workers (sh t) ! i"; simp add: step_defs)+
    with assms(2) [rule_format, of "Run_Worker i True"] show False by simp
  qed (use h in simp)
qed

lemma sum_list_zero:
  fixes f :: "'a \<Rightarrow> 'b :: comm_monoid_add"
  shows "(\<And>x. x \<in> set ws \<Longrightarrow> f x = 0) \<Longrightarrow> sum_list (map f ws) = 0"
  by (induction ws) simp_all

text \<open>A server in which no thread can run: what is left is in calls that do not return, or waits for a worker
  while all workers are in such calls.\<close>

definition in_call :: "(Request \<Rightarrow> bool) \<Rightarrow> worker_pc \<Rightarrow> bool" where
  "in_call R w \<longleftrightarrow> (\<exists>rq. w = W_func rq \<and> \<not> R rq)"

definition idle :: "(Request \<Rightarrow> bool) \<Rightarrow> shared \<Rightarrow> Request list \<Rightarrow> bool" where
  "idle R p xs \<longleftrightarrow> (\<forall>w\<in>set (workers p). w = W_wait \<or> in_call R w) \<and>
     held p = sum_list (map worker_holds (workers p)) \<and>
     (xs \<noteq> [] \<longrightarrow> (\<forall>w\<in>set (workers p). in_call R w))"

lemma stuck_idle:
  assumes "mutex_inv (sh t)" "sem_inv t" and stuck: "\<forall>a. running R t a \<longrightarrow> lexec mx rt a t = None"
  shows "idle R (sh t) (req_q t) \<and> (excd_tm_q t) = []"
proof -
  note free = req_owner_runs [OF assms(1) stuck] excd_owner_runs [OF assms(1) stuck]
  note stuck = stuck [rule_format]
  have m: "main_th (sh t) = M_accept"
    using stuck [of "Run_Main True"] free by (cases "main_th (sh t)") (simp_all add: step_defs)
  have g: "mgr_th (sh t) = G_sleep"
    using stuck [of "Run_Mgr True"] free
    by (cases "mgr_th (sh t)" rule: mgr_pc_cases) (simp_all add: step_defs)
  have d: "excd_th (sh t) = D_wait \<and> excd_tm_sem (sh t) = 0"
    using stuck [of Run_Excd] free
    by (cases "excd_th (sh t)" rule: excd_pc_cases) (simp_all add: step_defs split: if_splits)
  have "workers (sh t) ! i = W_wait \<and> req_q_sem (sh t) = 0 \<or> in_call R (workers (sh t) ! i)"
    if "i < length (workers (sh t))" for i
    using stuck [of "Run_Worker i True"] free that
    by (cases "workers (sh t) ! i" rule: worker_pc_cases) (auto simp: step_defs in_call_def split: if_splits)
  then have w: "w = W_wait \<and> req_q_sem (sh t) = 0 \<or> in_call R w" if "w \<in> set (workers (sh t))" for w
    using that by (metis in_set_conv_nth)
  then have "sum_list (map worker_awake (workers (sh t))) = 0"
    by (intro sum_list_zero) (fastforce simp: in_call_def)
  with assms(2) m g d w show ?thesis by (fastforce simp: sem_inv_def held_def idle_def Let_def)
qed

text \<open>Runs of running threads.\<close>

inductive runs :: "(Request \<Rightarrow> bool) \<Rightarrow> (bool \<Rightarrow> 'q \<Rightarrow> Request \<Rightarrow> 'q outcome) \<Rightarrow> ('q \<Rightarrow> (Request option \<times> 'q) outcome) \<Rightarrow>
    ('q \<Rightarrow> Request option outcome) \<Rightarrow> int \<Rightarrow> int \<Rightarrow> nat \<Rightarrow> 'q server \<Rightarrow> 'q server \<Rightarrow> bool"
  for R enq deq fr mx rt where
  stay: "runs R enq deq fr mx rt 0 s s"
| more: "runs R enq deq fr mx rt k s s1 \<Longrightarrow> running R s1 a \<Longrightarrow> exec enq deq fr mx rt a s1 = Some (Ret s2) \<Longrightarrow>
    runs R enq deq fr mx rt (Suc k) s s2"

lemma runs_reachable:
  "runs R enq deq fr mx rt k s s' \<Longrightarrow> reachable enq deq fr mx rt s0 s \<Longrightarrow> reachable enq deq fr mx rt s0 s'"
  by (induction rule: runs.induct) (auto intro: reachable.step)

section \<open>All invariants\<close>

definition server_inv :: "lserver \<Rightarrow> bool" where
  "server_inv t \<longleftrightarrow> mutex_inv (sh t) \<and> front_inv t \<and> conn_inv t \<and> fifo_inv t \<and> sem_inv t \<and> close_inv (sh t)"

lemma front_exec:
  assumes "mutex_inv (sh t)" "front_inv t" "lexec mx rt a t = Some (Ret t')"
  shows "front_inv t'"
proof (cases a)
  case (Client f)
  with assms show ?thesis by (auto simp: step_defs front_inv_def split: if_splits)
next
  case (Tick u)
  with assms show ?thesis by (auto simp: step_defs front_inv_def split: if_splits)
qed (use assms in \<open>auto intro: front_main front_mgr front_excd front_worker\<close>)

lemma conn_exec:
  assumes "front_inv t" "conn_inv t" "lexec mx rt a t = Some (Ret t')"
  shows "conn_inv t'"
proof (cases a)
  case (Tick u)
  with assms show ?thesis by (auto simp: step_defs conn_inv_def held_def split: if_splits)
qed (use assms in \<open>auto intro: conn_accept conn_main conn_mgr conn_excd conn_worker\<close>)

lemma server_inv_exec: "server_inv t \<Longrightarrow> lexec mx rt a t = Some (Ret t') \<Longrightarrow> server_inv t'"
  unfolding server_inv_def
  by (intro conjI; elim conjE;
      rule mutex_exec front_exec conn_exec fifo_exec sem_exec close_exec; assumption)

lemma pool_loop_exact:
  "i \<le> n \<Longrightarrow> pool_loop crt i n ws =
    (if \<forall>k. i \<le> k \<and> k < n \<longrightarrow> crt k = 0 then Some (ws @ replicate (n - i) W_wait) else None)"
proof (induction "n - i" arbitrary: i ws)
  case 0
  then show ?case by (subst pool_loop.simps) auto
next
  case (Suc d)
  then have i: "i < n" "d = n - (i + 1)" "i + 1 \<le> n" by auto
  have r: "ws @ W_wait # replicate (n - (i + 1)) W_wait = ws @ replicate (n - i) W_wait"
    using i(1) by (metis Suc_diff_Suc Suc_eq_plus1 replicate_Suc)
  have step: "pool_loop crt i n ws = (if crt i = 0 then pool_loop crt (i + 1) n (ws @ [W_wait]) else None)"
    using i(1) by (subst pool_loop.simps) (simp add: create_thread_def)
  show ?case
  proof (cases "crt i = 0")
    case True
    then have "(\<forall>k. i \<le> k \<and> k < n \<longrightarrow> crt k = 0) \<longleftrightarrow> (\<forall>k. i + 1 \<le> k \<and> k < n \<longrightarrow> crt k = 0)"
    proof (intro iffI allI impI)
      fix k assume "\<forall>k. i + 1 \<le> k \<and> k < n \<longrightarrow> crt k = 0" "i \<le> k \<and> k < n"
      with True show "crt k = 0" by (cases "k = i") auto
    qed auto
    with True step Suc.hyps(1) [OF i(2,3), of "ws @ [W_wait]"] r show ?thesis by simp
  next
    case False
    then have "\<not> (\<forall>k. i \<le> k \<and> k < n \<longrightarrow> crt k = 0)" using i(1) by blast
    with False step show ?thesis by simp
  qed
qed

lemma sum_list_empty [simp]: "sum_list (replicate n {#}) = {#}"
  by (induction n) simp_all

lemma start_server_Some:
  assumes "start_server b pend n now q1 q2 = Some s0"
  shows "s0 = \<lparr>req_q = q1, excd_tm_q = q2,
      sh = \<lparr>req_q_mtx = None, excd_tm_mtx = None, req_q_sem = 0, excd_tm_sem = 0, clock = now,
            main_th = M_accept, mgr_th = G_sleep, excd_th = D_wait, workers = replicate n W_wait,
            open_fds = {}, events = []\<rparr>\<rparr>"
  using assms pool_loop_exact [of 0 n "\<lambda>k. pthread_create_rtn b (k + 2)" "[]"]
  by (auto simp: start_server_def create_workers_pool_def Let_def split: option.splits if_splits)

lemma server_inv_start:
  assumes "start_server b pend n now [] [] = Some t0"
  shows "server_inv t0" "ts_valid now \<Longrightarrow> late_inv t0"
  using start_server_Some [OF assms]
  by (auto simp: server_inv_def mutex_inv_def all_thread front_inv_def conn_inv_def held_def fifo_inv_def
      sem_inv_def close_inv_def late_inv_def late_def sum_list_zero)

lemma reachable_inv:
  assumes "reachable l_enq l_deq l_front mx rt t0 t" "start_server b pend n now [] [] = Some t0"
  shows "server_inv t"
  using assms by (induction rule: reachable.induct) (auto intro: server_inv_start server_inv_exec)

lemma reachable_late:
  assumes "reachable l_enq l_deq l_front mx rt t0 t" "start_server b pend n now [] [] = Some t0"
    "ts_valid now" "1 \<le> mx" "mx < 2 ^ 31"
  shows "late_inv t"
  using assms
proof (induction rule: reachable.induct)
  case (step t a t')
  with reachable_inv [OF step.hyps(1)] show ?case
    by (auto simp: server_inv_def intro: late_exec)
qed (auto intro: server_inv_start)

lemma exec_workers: "exec enq deq fr mx rt a s = Some (Ret s') \<Longrightarrow> length (workers (sh s')) = length (workers (sh s))"
proof (cases a)
  case (Run_Main ok)
  then show "exec enq deq fr mx rt a s = Some (Ret s') \<Longrightarrow> ?thesis"
    by (cases "main_th (sh s)") (auto simp: step_defs outcome_simps split: if_splits)
next
  case (Run_Mgr ok)
  then show "exec enq deq fr mx rt a s = Some (Ret s') \<Longrightarrow> ?thesis"
    by (cases "mgr_th (sh s)" rule: mgr_pc_cases) (auto simp: step_defs outcome_simps split: if_splits)
next
  case Run_Excd
  then show "exec enq deq fr mx rt a s = Some (Ret s') \<Longrightarrow> ?thesis"
    by (cases "excd_th (sh s)" rule: excd_pc_cases) (auto simp: step_defs outcome_simps split: if_splits)
next
  case (Run_Worker i ret)
  then show "exec enq deq fr mx rt a s = Some (Ret s') \<Longrightarrow> ?thesis"
    by (cases "workers (sh s) ! i" rule: worker_pc_cases) (auto simp: step_defs outcome_simps split: if_splits)
qed (auto simp: step_defs split: if_splits)

lemma reachable_workers:
  assumes "reachable enq deq fr mx rt s0 s" "start_server b pend n now q1 q2 = Some s0"
  shows "length (workers (sh s)) = n"
  using assms by (induction rule: reachable.induct) (auto simp: exec_workers dest: start_server_Some)

lemma runs_weight:
  "runs R l_enq l_deq l_front mx rt k t t' \<Longrightarrow> server_inv t \<Longrightarrow> server_inv t' \<and> weight t' + k \<le> weight t"
proof (induction rule: runs.induct)
  case (more k t t1 a t2)
  then have "server_inv t1" "weight t1 + k \<le> weight t" by auto
  moreover from this more.hyps weight_exec [of t1 R a mx rt t2] have "weight t2 < weight t1"
    by (simp add: server_inv_def)
  ultimately show ?case using server_inv_exec more.hyps(3) by fastforce
qed simp

end
