(* ===== verification/Server_Props.thy ===== *)
theory Server_Props
  imports Server_Live
begin

text \<open>
  The properties of the server threads for the linked queue of \<^verbatim>\<open>src/src/queue.c\<close>: the states the
  server can reach from \<^verbatim>\<open>start_server\<close> on, a demonstration run, and what holds in all of them.
\<close>

section \<open>The server with the linked queue\<close>

type_synonym qserver = "Request qhandle server"

abbreviation qexec :: "int \<Rightarrow> int \<Rightarrow> action \<Rightarrow> qserver \<Rightarrow> qserver outcome option" where
  "qexec \<equiv> exec q_enq q_deq q_front"

text \<open>The states \<^verbatim>\<open>start_server\<close> can get into, given what its system calls answer, the backlog, the number
  of workers, the time it starts, the maximal queue time and the receive timeout.\<close>

definition server_state :: "boot \<Rightarrow> int \<Rightarrow> nat \<Rightarrow> timespec \<Rightarrow> int \<Rightarrow> int \<Rightarrow> qserver \<Rightarrow> bool" where
  "server_state b pend n now mx rt s \<longleftrightarrow>
     (\<exists>s0. start_server b pend n now q_new q_new = Some s0 \<and> reachable q_enq q_deq q_front mx rt s0 s)"

lemma server_state_sim:
  assumes "server_state b pend n now mx rt s"
  shows "\<exists>t0 t. start_server b pend n now [] [] = Some t0 \<and> reachable l_enq l_deq l_front mx rt t0 t \<and> sim qh_rep s t"
proof -
  from assms obtain s0 where s0: "start_server b pend n now q_new q_new = Some s0"
    "reachable q_enq q_deq q_front mx rt s0 s" by (auto simp: server_state_def)
  let ?t0 = "\<lparr>req_q = [], excd_tm_q = [], sh = sh s0\<rparr>"
  have "start_server b pend n now [] [] = Some ?t0" "sim qh_rep s0 ?t0"
    using s0(1) qh_rep_new by (auto simp: start_server_def sim_def Let_def split: option.splits if_splits)
  with ls.reachable_sim [OF s0(2)] show ?thesis by blast
qed

lemma server_state_inv:
  assumes "server_state b pend n now mx rt s"
  obtains t where "sim qh_rep s t" "server_inv t" "length (workers (sh t)) = n"
    "ts_valid now \<Longrightarrow> 1 \<le> mx \<Longrightarrow> mx < 2 ^ 31 \<Longrightarrow> late_inv t"
proof -
  from server_state_sim [OF assms] obtain t0 t where
    t: "start_server b pend n now [] [] = Some t0" "reachable l_enq l_deq l_front mx rt t0 t" "sim qh_rep s t" by blast
  show ?thesis
    using that [OF t(3) reachable_inv [OF t(2,1)] reachable_workers [OF t(2,1)] reachable_late [OF t(2,1)]] .
qed

text \<open>A schedule of actions.\<close>

fun schedule :: "int \<Rightarrow> int \<Rightarrow> action list \<Rightarrow> qserver \<Rightarrow> qserver option" where
  "schedule mx rt [] s = Some s"
| "schedule mx rt (a # as) s = (case qexec mx rt a s of Some (Ret s') \<Rightarrow> schedule mx rt as s' | _ \<Rightarrow> None)"

lemma schedule_reachable:
  "schedule mx rt as s = Some s' \<Longrightarrow> reachable q_enq q_deq q_front mx rt s0 s \<Longrightarrow>
    reachable q_enq q_deq q_front mx rt s0 s'"
  by (induction as arbitrary: s)
    (auto intro: reachable.step split: option.splits outcome.splits)

lemma schedule_state:
  "(case start_server b pend n now q_new q_new of None \<Rightarrow> None | Some s0 \<Rightarrow> schedule mx rt as s0) = Some s \<Longrightarrow>
    server_state b pend n now mx rt s"
  by (auto simp: server_state_def split: option.splits intro: schedule_reachable reachable.start)

text \<open>Two clients connect; the first waits too long and is about to be denied, the second is being
  served.\<close>

definition demo_run :: "action list" where
  "demo_run = [Client 7, Run_Main True, Run_Main True, Run_Main True, Run_Main True, Tick (Timespec 9 0)] @
     replicate 13 (Run_Mgr True) @ [Client 8, Run_Main True, Run_Main True, Run_Main True, Run_Main True,
     Run_Excd, Run_Excd, Run_Excd, Run_Excd, Run_Worker 0 True, Run_Worker 0 True, Run_Worker 0 True, Run_Worker 0 True]"

definition demo_boot :: boot where
  "demo_boot = \<lparr>pthread_create_rtn = (\<lambda>_. 0), getaddrinfo_rtn = 0, addresses = [(3, 0, 0)]\<rparr>"

definition demo_result :: "qserver option" where
  "demo_result = (case start_server demo_boot 10 2 (Timespec 5 0) q_new q_new of
     None \<Rightarrow> None | Some s0 \<Rightarrow> schedule 500 0 demo_run s0)"

definition demo_state :: qserver where
  "demo_state = the demo_result"

abbreviation demo_rq :: "int \<Rightarrow> int \<Rightarrow> Request" where
  "demo_rq f t \<equiv> \<lparr>fd = f, ts = Timespec t 0\<rparr>"

lemma demo_eval:
  "map_option (\<lambda>s. (excd_th (sh s), clock (sh s), queued (events (sh s)), taken (events (sh s)), open_fds (sh s),
      qexec 500 0 Run_Excd s = None)) demo_result =
    Some (D_send (Some (demo_rq 7 5)), Timespec 9 0, [demo_rq 7 5, demo_rq 8 9], [demo_rq 7 5, demo_rq 8 9], {7, 8},
      False)"
  by code_simp

lemma demo_result_state: "demo_result = Some demo_state"
proof -
  from demo_eval obtain z where z: "demo_result = Some z" by auto
  show ?thesis unfolding demo_state_def z option.sel ..
qed

lemma demo_facts:
  "excd_th (sh demo_state) = D_send (Some (demo_rq 7 5))" "clock (sh demo_state) = Timespec 9 0"
  "queued (events (sh demo_state)) = [demo_rq 7 5, demo_rq 8 9]"
  "taken (events (sh demo_state)) = [demo_rq 7 5, demo_rq 8 9]"
  "open_fds (sh demo_state) = {7, 8}"
  "qexec 500 0 Run_Excd demo_state \<noteq> None"
  using demo_eval by (simp_all only: demo_result_state) auto

lemma demo_server_state: "server_state demo_boot 10 2 (Timespec 5 0) 500 0 demo_state"
  using schedule_state demo_result_state unfolding demo_result_def by blast

section \<open>Properties\<close>

text \<open>C14. At every moment at most one thread is between locking and unlocking the mutex of the request
  queue, and at most one between locking and unlocking that of the second queue.\<close>

theorem server_mutual_exclusion:
  assumes "server_state b pend n now mx rt s"
  shows "(in_req_section (sh s) h \<and> in_req_section (sh s) h' \<longrightarrow> h = h') \<and>
    (in_excd_section (sh s) h \<and> in_excd_section (sh s) h' \<longrightarrow> h = h')"
proof -
  from server_state_inv [OF assms] obtain t where "sim qh_rep s t" "server_inv t" by metis
  then have "mutex_inv (sh s)" by (simp add: sim_def server_inv_def)
  then show ?thesis using mutex_req mutex_excd_q by blast
qed

theorem server_mutual_exclusion_witness:
  "\<not> (in_req_section (sh demo_state) Main_Thread \<and> in_req_section (sh demo_state) Queue_Mgr)"
  using server_mutual_exclusion [OF demo_server_state, of Main_Thread Queue_Mgr] by simp

text \<open>C6. No connection is lost, duplicated or used after it was closed: at every moment the open
  connections are, one for one, the requests that are in one of the two queues or in the hands of one
  thread, plus those whose queue node could not be allocated.\<close>

theorem server_connections:
  assumes "server_state b pend n now mx rt s"
  shows "\<exists>xs ys. qh_rep (req_q s) xs \<and> qh_rep (excd_tm_q s) ys \<and> finite (open_fds (sh s)) \<and>
    image_mset fd (held (sh s) + lost (events (sh s)) + mset xs + mset ys) = mset_set (open_fds (sh s))"
proof -
  from server_state_inv [OF assms] obtain t where "sim qh_rep s t" "server_inv t" by metis
  then show ?thesis by (auto simp: sim_def server_inv_def conn_inv_def)
qed

theorem server_connections_witness:
  "\<exists>xs ys. qh_rep (req_q demo_state) xs \<and> qh_rep (excd_tm_q demo_state) ys \<and>
    image_mset fd (held (sh demo_state) + lost (events (sh demo_state)) + mset xs + mset ys) = mset_set {7, 8}"
  using server_connections [OF demo_server_state] unfolding demo_facts by blast

text \<open>C10. Requests leave the request queue, to a worker or to the manager, in the order in which they
  entered it, and none that entered is skipped.\<close>

theorem server_fifo:
  assumes "server_state b pend n now mx rt s"
  shows "\<exists>xs. qh_rep (req_q s) xs \<and> taken (events (sh s)) @ xs = queued (events (sh s))"
proof -
  from server_state_inv [OF assms] obtain t where "sim qh_rep s t" "server_inv t" by metis
  then show ?thesis by (auto simp: sim_def server_inv_def fifo_inv_def)
qed

theorem server_fifo_witness: "qh_rep (req_q demo_state) []"
  using server_fifo [OF demo_server_state] unfolding demo_facts by auto

text \<open>C11. A request is only denied after it waited for more than a second: this holds for every request
  in the second queue and for the one the timeout message is about to be sent for.\<close>

theorem server_denies_only_late:
  assumes "server_state b pend n now mx rt s" "ts_valid now" "1 \<le> mx" "mx < 2 ^ 31"
  shows "\<exists>ys. qh_rep (excd_tm_q s) ys \<and> (\<forall>r\<in>set ys. overdue (clock (sh s)) r) \<and>
    (\<forall>r. excd_th (sh s) = D_send (Some r) \<longrightarrow> overdue (clock (sh s)) r)"
proof -
  from server_state_inv [OF assms(1)] assms(2-4) obtain t where "sim qh_rep s t" "late_inv t" by metis
  then show ?thesis by (auto simp: sim_def late_inv_def late_def)
qed

theorem server_denies_only_late_witness: "overdue (Timespec 9 0) (demo_rq 7 5)"
  using server_denies_only_late [OF demo_server_state] demo_facts(1,2) by (auto simp: ts_valid_def)

text \<open>A connection is closed only after its request was served or the timeout message was sent.\<close>

lemma server_answers_before_closing:
  assumes "server_state b pend n now mx rt s"
  shows "close_ok (events (sh s))"
proof -
  from server_state_inv [OF assms] obtain t where "sim qh_rep s t" "server_inv t" by metis
  then show ?thesis by (simp add: sim_def server_inv_def close_inv_def)
qed

lemma qexec_defined:
  assumes "server_state b pend n now mx rt s"
  shows "qexec mx rt a s = None \<or> (\<exists>s'. qexec mx rt a s = Some (Ret s') \<and> server_state b pend n now mx rt s')"
proof -
  from server_state_inv [OF assms] obtain t where "sim qh_rep s t" by metis
  from ls.exec_defined [OF this, of mx rt a] assms show ?thesis
    by (auto simp: server_state_def intro: reachable.step)
qed

text \<open>C12. No step of any thread has undefined behaviour: in every state the server can reach, every
  action is either blocked or completes, so the queues are never read through freed or missing
  nodes.\<close>

theorem server_steps_defined:
  assumes "server_state b pend n now mx rt s"
  shows "qexec mx rt a s = None \<or> (\<exists>s'. qexec mx rt a s = Some (Ret s') \<and> server_state b pend n now mx rt s')"
  by (rule qexec_defined [OF assms])

theorem server_steps_defined_witness: "\<exists>s'. qexec 500 0 Run_Excd demo_state = Some (Ret s')"
  using server_steps_defined [OF demo_server_state, of Run_Excd] demo_facts(6) by auto

lemma runs_sim:
  "runs R q_enq q_deq q_front mx rt k s s' \<Longrightarrow> sim qh_rep s t \<Longrightarrow>
    \<exists>t'. runs R l_enq l_deq l_front mx rt k t t' \<and> sim qh_rep s' t'"
proof (induction rule: runs.induct)
  case (stay s)
  then show ?case using runs.stay by blast
next
  case (more k s s1 a s2)
  then obtain t1 where t1: "runs R l_enq l_deq l_front mx rt k t t1" "sim qh_rep s1 t1" by blast
  from ls.exec_forward [OF t1(2) more.hyps(3)] obtain t2 where
    t2: "lexec mx rt a t1 = Some (Ret t2)" "sim qh_rep s2 t2" by blast
  have "running R t1 a" using more.hyps(2) t1(2) by (cases a) (simp_all add: sim_def)
  from runs.more [OF t1(1) this t2(1)] t2(2) show ?case by blast
qed

lemma stuck_server:
  assumes "server_state b pend n now mx rt s" and stuck: "\<forall>a. running R s a \<longrightarrow> qexec mx rt a s = None"
  shows "\<exists>xs. qh_rep (req_q s) xs \<and> qh_rep (excd_tm_q s) [] \<and> idle R (sh s) xs \<and>
    image_mset fd (held (sh s) + lost (events (sh s)) + mset xs) = mset_set (open_fds (sh s))"
proof -
  from server_state_inv [OF assms(1)] obtain t where t: "sim qh_rep s t" "server_inv t" by metis
  have "lexec mx rt a t = None" if "running R t a" for a
  proof -
    have "running R s a" using that t(1) by (cases a) (simp_all add: sim_def)
    with stuck ls.exec_blocked [OF t(1)] show ?thesis by blast
  qed
  then have idle: "idle R (sh t) (req_q t) \<and> excd_tm_q t = []"
    using stuck_idle [of t R mx rt] t(2) by (simp add: server_inv_def)
  with t show ?thesis
    by (intro exI [of _ "req_q t"]) (auto simp: server_inv_def conn_inv_def sim_def)
qed

text \<open>When all calls return, nothing is left.\<close>

lemma idle_all: "0 < length (workers p) \<Longrightarrow> \<forall>rq. R rq \<Longrightarrow> idle R p xs \<Longrightarrow> xs = [] \<and> held p = {#}"
proof -
  assume "0 < length (workers p)" "\<forall>rq. R rq" "idle R p xs"
  then have "\<forall>w\<in>set (workers p). w = W_wait" "xs = []" "held p = sum_list (map worker_holds (workers p))"
    by (auto simp: idle_def in_call_def)
  moreover from this(1) have "sum_list (map worker_holds (workers p)) = {#}" by (intro sum_list_zero) auto
  ultimately show ?thesis by simp
qed

lemma server_state_workers: "server_state b pend n now mx rt s \<Longrightarrow> length (workers (sh s)) = n"
  using reachable_workers by (auto simp: server_state_def)

text \<open>C7. When no further client connects, the server runs dry, up to calls of \<^verbatim>\<open>args->func\<close> that do not
  return (\<open>R\<close> is any set of requests whose calls return): from every reachable state the threads that are
  not in a call outside \<open>R\<close> can take only boundedly many steps, and when none of them can take one, the
  queue of the denier is empty, every request a thread holds is in a call that does not return, the
  request queue is empty or all workers are in such calls, and no other connection is open but those
  lost to a failed allocation. If all calls return, nothing is held or queued. No wake-up is lost and the
  threads cannot deadlock.\<close>

theorem server_runs_dry:
  assumes "server_state b pend n now mx rt s" "0 < n"
  shows "\<exists>N. \<forall>R k s'. runs R q_enq q_deq q_front mx rt k s s' \<longrightarrow>
    k \<le> N \<and>
    ((\<forall>a. running R s' a \<longrightarrow> qexec mx rt a s' = None) \<longrightarrow>
      (\<exists>xs. qh_rep (req_q s') xs \<and> qh_rep (excd_tm_q s') [] \<and>
        (\<forall>w\<in>set (workers (sh s')). w = W_wait \<or> in_call R w) \<and>
        held (sh s') = sum_list (map worker_holds (workers (sh s'))) \<and>
        (xs \<noteq> [] \<longrightarrow> (\<forall>w\<in>set (workers (sh s')). in_call R w)) \<and>
        ((\<forall>rq. R rq) \<longrightarrow> xs = [] \<and> held (sh s') = {#}) \<and>
        image_mset fd (held (sh s') + lost (events (sh s')) + mset xs) = mset_set (open_fds (sh s'))))"
proof -
  from server_state_inv [OF assms(1)] obtain t where t: "sim qh_rep s t" "server_inv t" by metis
  show ?thesis
  proof (intro exI [of _ "weight t"] allI impI conjI)
    fix R k s' assume r: "runs R q_enq q_deq q_front mx rt k s s'"
    from runs_sim [OF r t(1)] obtain t' where "runs R l_enq l_deq l_front mx rt k t t'" by blast
    from runs_weight [OF this t(2)] show "k \<le> weight t" by auto
    have s': "server_state b pend n now mx rt s'"
      using assms(1) runs_reachable [OF r] by (auto simp: server_state_def)
    assume "\<forall>a. running R s' a \<longrightarrow> qexec mx rt a s' = None"
    from stuck_server [OF s' this] obtain xs where
      xs: "qh_rep (req_q s') xs" "qh_rep (excd_tm_q s') []" "idle R (sh s') xs"
        "image_mset fd (held (sh s') + lost (events (sh s')) + mset xs) = mset_set (open_fds (sh s'))" by blast
    have "(\<forall>rq. R rq) \<longrightarrow> xs = [] \<and> held (sh s') = {#}"
      using idle_all [OF _ _ xs(3)] server_state_workers [OF s'] assms(2) by simp
    then show "\<exists>xs. qh_rep (req_q s') xs \<and> qh_rep (excd_tm_q s') [] \<and>
        (\<forall>w\<in>set (workers (sh s')). w = W_wait \<or> in_call R w) \<and>
        held (sh s') = sum_list (map worker_holds (workers (sh s'))) \<and>
        (xs \<noteq> [] \<longrightarrow> (\<forall>w\<in>set (workers (sh s')). in_call R w)) \<and>
        ((\<forall>rq. R rq) \<longrightarrow> xs = [] \<and> held (sh s') = {#}) \<and>
        image_mset fd (held (sh s') + lost (events (sh s')) + mset xs) = mset_set (open_fds (sh s'))"
      using xs unfolding idle_def by (intro exI [of _ xs]) (elim conjE, intro conjI; assumption)
  qed
qed

text \<open>At a concrete state, with all calls returning: nothing but lost connections remains.\<close>

theorem server_runs_dry_witness:
  "\<exists>N. \<forall>k s'. runs (\<lambda>_. True) q_enq q_deq q_front 500 0 k demo_state s' \<longrightarrow> k \<le> N \<and>
    ((\<forall>a. running (\<lambda>_. True) s' a \<longrightarrow> qexec 500 0 a s' = None) \<longrightarrow>
      image_mset fd (lost (events (sh s'))) = mset_set (open_fds (sh s')))"
  using server_runs_dry [OF demo_server_state zero_less_numeral]
  apply (elim exE)
  subgoal premises dry for N
  proof (intro exI [of _ N] allI impI conjI)
    fix k s' assume r: "runs (\<lambda>_. True) q_enq q_deq q_front 500 0 k demo_state s'"
    note d = dry [rule_format, OF r]
    show "k \<le> N" by (rule conjunct1 [OF d])
    assume "\<forall>a. running (\<lambda>_. True) s' a \<longrightarrow> qexec 500 0 a s' = None"
    from mp [OF conjunct2 [OF d] this]
    show "image_mset fd (lost (events (sh s'))) = mset_set (open_fds (sh s'))"
      by (elim exE conjE) simp
  qed
  done

text \<open>\<^verbatim>\<open>create_workers_pool\<close> starts exactly the requested number of workers, all waiting, or ends
  the process when one thread cannot be created.\<close>

lemma create_workers_pool_exact:
  "create_workers_pool crt n = (if \<forall>k\<in>{..<n}. crt k = 0 then Some (replicate n W_wait) else None)"
  using pool_loop_exact [of 0 n crt "[]"] by (auto simp: create_workers_pool_def)

lemma create_workers_pool_exact_witness: "create_workers_pool (\<lambda>_. 0) 2 = Some [W_wait, W_wait]"
  using create_workers_pool_exact [of "\<lambda>_. 0" 2] by (simp add: numeral_2_eq_2)

end
