(* ===== verification/Startup.thy ===== *)
theory Startup
  imports App Server_Props
begin

text \<open>
  Starting the program: \<^verbatim>\<open>cli_parser\<close> and \<^verbatim>\<open>setup\<close> of \<^verbatim>\<open>src/src/util.c\<close> and \<^verbatim>\<open>main\<close> of \<^verbatim>\<open>src/src/app.c\<close>.
  What \<^verbatim>\<open>getopt_long\<close> returns call after call (the option letter and \<^verbatim>\<open>optarg\<close>) is an argument, as are
  the clock readings of the two key nodes. \<open>None\<close> in a result is \<^verbatim>\<open>exit\<close>.
\<close>

section \<open>Operations\<close>

definition DEFAULT_REDIS_RDBFILE :: string where "DEFAULT_REDIS_RDBFILE = ''rdbfile.rdb''"
definition DEFAULT_REDIS_DIR :: string where "DEFAULT_REDIS_DIR = ''/tmp/redis-data''"

text \<open>\<^verbatim>\<open>strcpy\<close> into a buffer of \<open>n\<close> bytes.\<close>

definition strcpy_into :: "nat \<Rightarrow> string \<Rightarrow> string outcome" where
  "strcpy_into n s = (if strlen s + 1 \<le> n then Ret (cstr s) else UB)"

fun cli_loop :: "(char \<times> string option) list \<Rightarrow> string option \<Rightarrow> string option \<Rightarrow>
    (string option \<times> string option) option" where
  "cli_loop [] dir dbfilename = Some (dir, dbfilename)"
| "cli_loop ((opt, optarg) # rest) dir dbfilename =
     (case optarg of
        None \<Rightarrow> None
      | Some given_val \<Rightarrow>
          if opt = CHR ''c'' then cli_loop rest dir (Some given_val)
          else if opt = CHR ''d'' then cli_loop rest (Some given_val) dbfilename
          else None)"

definition cli_default :: "string option \<Rightarrow> string \<Rightarrow> string outcome" where
  "cli_default given dflt =
     (case given of Some given_val \<Rightarrow> Ret given_val | None \<Rightarrow> strcpy_into (strlen dflt) dflt)"

definition cli_parser :: "(char \<times> string option) list \<Rightarrow> string \<Rightarrow> string \<Rightarrow> (string \<times> string) option outcome" where
  "cli_parser opts default_redis_dir default_redis_rdbfile =
     (case cli_loop opts None None of
        None \<Rightarrow> Ret None
      | Some (dir, dbfilename) \<Rightarrow>
          obind (cli_default dir default_redis_dir) (\<lambda>d.
          obind (cli_default dbfilename default_redis_rdbfile) (\<lambda>f. Ret (Some (d, f)))))"

text \<open>One round of the loop of \<^verbatim>\<open>setup\<close>. The sizes are the lengths themselves: the conversion of
  \<^verbatim>\<open>strlen\<close>'s \<^verbatim>\<open>size_t\<close> to the \<^verbatim>\<open>int\<close> parameters does not change them, as the key is one of two
  literals and the value a command-line argument or a default, which are all shorter than \<open>2 ^ 31\<close> bytes
  (Linux refuses an argument of more than 128 KiB).\<close>

definition setup_entry :: "alloc \<Rightarrow> timespec \<Rightarrow> string \<Rightarrow> string \<Rightarrow> data_map \<Rightarrow> data_map option outcome" where
  "setup_entry al now key_text value_text config_dict =
     obind (strcpy_into (strlen key_text + 1) key_text) (\<lambda>key.
     obind (create_key_node now (Some key) 0 0 (int (strlen key_text))) (\<lambda>kn.
     obind (create_value_node_string (Some value_text) BULK_STR (int (strlen value_text))) (\<lambda>vn.
     obind (sm_set al (Some config_dict) (create_key_val_pair kn vn) (Some compare)) (\<lambda>(r, smp, kvp).
     Ret (if r = SUCESS_SET then smp else None)))))"

definition setup_maps :: "alloc \<Rightarrow> timespec \<Rightarrow> timespec \<Rightarrow> (char \<times> string option) list \<Rightarrow>
    (data_map \<times> data_map) option outcome" where
  "setup_maps al now0 now1 opts =
     obind (cli_parser opts DEFAULT_REDIS_DIR DEFAULT_REDIS_RDBFILE) (\<lambda>values.
     case values of
       None \<Rightarrow> Ret None
     | Some (dir, dbfilename) \<Rightarrow>
         obind (setup_entry al now0 ''dir'' dir create_simple_map) (\<lambda>c1.
         case c1 of
           None \<Rightarrow> Ret None
         | Some cfg1 \<Rightarrow>
             obind (setup_entry al now1 ''dbfilename'' dbfilename cfg1) (\<lambda>c2.
             case c2 of None \<Rightarrow> Ret None | Some cfg2 \<Rightarrow> Ret (Some (create_simple_map, cfg2)))))"

text \<open>\<^verbatim>\<open>main\<close>: the maps the workers share and the server that starts, with the arguments \<^verbatim>\<open>main\<close> passes
  for the backlog, the maximal queue time, the number of workers and the receive timeout.\<close>

definition MAIN_PENDING :: int where "MAIN_PENDING = 10"
definition MAIN_QUEUE_TIME :: int where "MAIN_QUEUE_TIME = 500"
definition MAIN_WORKERS :: nat where "MAIN_WORKERS = 2"
definition MAIN_RECV_TIMEOUT :: int where "MAIN_RECV_TIMEOUT = 0"

definition main :: "boot \<Rightarrow> alloc \<Rightarrow> timespec \<Rightarrow> timespec \<Rightarrow> timespec \<Rightarrow> (char \<times> string option) list \<Rightarrow>
    (CmdParserArgs \<times> qserver) option outcome" where
  "main b al now0 now1 now2 opts =
     obind (setup_maps al now0 now1 opts) (\<lambda>maps.
     case maps of
       None \<Rightarrow> Ret None
     | Some (sm, config_dict) \<Rightarrow>
         Ret (case start_server b MAIN_PENDING MAIN_WORKERS now2 q_new q_new of
                None \<Rightarrow> None
              | Some s \<Rightarrow> Some (\<lparr>arg_sm = Some sm, arg_config_dict = Some config_dict\<rparr>, s)))"

section \<open>Lemmas\<close>

lemma strcpy_same [simp]: "strcpy_into (strlen s) s = UB"
  by (simp add: strcpy_into_def)

lemma setup_entry_new:
  assumes rep: "sm_rep cfg es" and key: "NUL \<notin> set k" "k \<noteq> []" and val: "NUL \<notin> set v" "v \<noteq> []"
    and new: "\<And>e. e \<in> set es \<Longrightarrow> key_ok (fst e) \<and> key_bytes (fst e) \<noteq> k"
    and room: "2 * capacity cfg \<le> INT_MAX" "realloc_keys al" "realloc_values al"
  shows "\<exists>cfg'. setup_entry al now k v cfg = Ret (Some cfg') \<and>
    sm_rep cfg' (es @ [(made_key now k, Some (made_value v))]) \<and>
    capacity cfg' = (if int (length es) = capacity cfg then 2 * capacity cfg else capacity cfg)"
proof -
  have ok: "key_ok (made_key now k)" "key_bytes (made_key now k) = k" using key by simp_all
  have cmp: "compare (Some (fst e)) (Some (made_key now k)) = Ret (key_bytes (fst e) = k)" if "e \<in> set es" for e
    using compare_key_ok [of "fst e" "made_key now k"] new [OF that] ok by simp
  have "find_idx (\<lambda>e. key_bytes (fst e) = k) es = None" using new by (auto simp: find_idx_None_iff)
  from sm_set_rep_new [where P = "\<lambda>e. key_bytes (fst e) = k" and cmp = compare,
      OF rep cmp this room, of "Some (made_value v)"]
  obtain sm' where sm': "sm_set al (Some cfg) (Some \<lparr>kvp_key = Some (made_key now k), kvp_value = Some (made_value v)\<rparr>)
      (Some compare) = Ret (SUCESS_SET, Some sm',
        Some \<lparr>kvp_key = Some (made_key now k), kvp_value = Some (made_value v)\<rparr>)"
    "sm_rep sm' (es @ [(made_key now k, Some (made_value v))])"
    "capacity sm' = (if int (length es) = capacity cfg then 2 * capacity cfg else capacity cfg)"
    by blast
  have "create_key_node now (Some k) 0 0 (int (length k)) = Ret (Some (made_key now k))"
    "create_value_node_string (Some v) BULK_STR (int (length v)) = Ret (Some (made_value v))"
    using key(2) val(2)
    by (auto simp: create_key_node_def create_value_node_string_def made_key_def made_value_def neq_Nil_conv)
  with sm' key val show ?thesis
    by (simp add: setup_entry_def strcpy_into_def create_key_val_pair_def)
qed

section \<open>Properties\<close>

text \<open>The configuration that \<^verbatim>\<open>setup\<close> builds from two option values.\<close>

definition config_entries :: "timespec \<Rightarrow> timespec \<Rightarrow> string \<Rightarrow> string \<Rightarrow> conf_entry list" where
  "config_entries now0 now1 dir dbfilename =
     [(made_key now0 ''dir'', Some (made_value dir)), (made_key now1 ''dbfilename'', Some (made_value dbfilename))]"

lemma setup_config:
  assumes "cli_loop opts None None = Some (Some dir, Some dbfilename)"
    "dir \<noteq> []" "NUL \<notin> set dir" "dbfilename \<noteq> []" "NUL \<notin> set dbfilename"
    "realloc_keys al" "realloc_values al"
  shows "\<exists>cfg. setup_maps al now0 now1 opts = Ret (Some (create_simple_map, cfg)) \<and>
    config_ok cfg (config_entries now0 now1 dir dbfilename)"
proof -
  have rep0: "sm_rep create_simple_map []" by (simp add: sm_rep_def create_simple_map_def)
  have cap0: "capacity (create_simple_map :: data_map) = 1" by (simp add: create_simple_map_def)
  obtain c1 where c1: "setup_entry al now0 ''dir'' dir create_simple_map = Ret (Some c1)"
    "sm_rep c1 [(made_key now0 ''dir'', Some (made_value dir))]" "capacity c1 = 1"
    using setup_entry_new [OF rep0, of "''dir''" dir al now0] assms cap0 by auto
  obtain c2 where c2: "setup_entry al now1 ''dbfilename'' dbfilename c1 = Ret (Some c2)"
    "sm_rep c2 (config_entries now0 now1 dir dbfilename)"
    using setup_entry_new [OF c1(2), of "''dbfilename''" dbfilename al now1] assms c1(3)
    by (auto simp: config_entries_def)
  have "setup_maps al now0 now1 opts = Ret (Some (create_simple_map, c2))"
    using assms(1) c1(1) c2(1) by (simp add: setup_maps_def cli_parser_def cli_default_def)
  moreover have "config_ok c2 (config_entries now0 now1 dir dbfilename)"
    using c2(2) assms by (simp add: config_ok_def conf_entry_ok_def config_entries_def)
  ultimately show ?thesis by blast
qed

text \<open>C31. Started with values for both options, \<^verbatim>\<open>main\<close> hands its workers an empty data map and a
  configuration map that lists exactly these two values under \<^verbatim>\<open>dir\<close> and \<^verbatim>\<open>dbfilename\<close>, and starts the
  server in an initial state: the assumptions of the request loop and of the server threads hold.\<close>

theorem main_establishes:
  assumes "cli_loop opts None None = Some (Some dir, Some dbfilename)"
    "dir \<noteq> []" "NUL \<notin> set dir" "dbfilename \<noteq> []" "NUL \<notin> set dbfilename"
    "realloc_keys al" "realloc_values al"
    "start_server b MAIN_PENDING MAIN_WORKERS now2 q_new q_new = Some s"
  shows "\<exists>cfg. main b al now0 now1 now2 opts =
      Ret (Some (\<lparr>arg_sm = Some create_simple_map, arg_config_dict = Some cfg\<rparr>, s)) \<and>
    config_ok cfg (config_entries now0 now1 dir dbfilename) \<and> db_rep create_simple_map Map.empty \<and>
    server_state b MAIN_PENDING MAIN_WORKERS now2 MAIN_QUEUE_TIME MAIN_RECV_TIMEOUT s"
proof -
  obtain cfg where "setup_maps al now0 now1 opts = Ret (Some (create_simple_map, cfg))"
    "config_ok cfg (config_entries now0 now1 dir dbfilename)" using setup_config [OF assms(1-7)] by blast
  moreover have "db_rep create_simple_map Map.empty" by (rule db_rep_create)
  moreover have "server_state b MAIN_PENDING MAIN_WORKERS now2 MAIN_QUEUE_TIME MAIN_RECV_TIMEOUT s"
    using assms(8) by (auto simp: server_state_def intro: reachable.start)
  ultimately show ?thesis using assms(8) by (auto simp: main_def)
qed

theorem main_establishes_witness:
  "\<exists>cfg s. main demo_boot alloc_ok (Timespec 1 0) (Timespec 1 0) (Timespec 2 0)
      [(CHR ''d'', Some ''/tmp''), (CHR ''c'', Some ''dump.rdb'')] =
    Ret (Some (\<lparr>arg_sm = Some create_simple_map, arg_config_dict = Some cfg\<rparr>, s)) \<and>
    config_ok cfg demo_entries"
proof -
  have "(start_server demo_boot MAIN_PENDING MAIN_WORKERS (Timespec 2 0) q_new q_new :: qserver option) \<noteq> None"
    by code_simp
  then obtain s :: qserver where s: "start_server demo_boot MAIN_PENDING MAIN_WORKERS (Timespec 2 0) q_new q_new = Some s"
    by auto
  from main_establishes [OF _ _ _ _ _ _ _ s,
      of "[(CHR ''d'', Some ''/tmp''), (CHR ''c'', Some ''dump.rdb'')]" "''/tmp''" "''dump.rdb''" alloc_ok
        "Timespec 1 0" "Timespec 1 0"]
  show ?thesis by (auto simp: alloc_ok_def demo_entries_def config_entries_def)
qed

text \<open>C38. When an option is missing, \<^verbatim>\<open>cli_parser\<close> copies the default into a buffer of \<^verbatim>\<open>strlen\<close> bytes, one
  too few for the terminating NUL: starting the program without both options is undefined behaviour.\<close>

theorem default_option_overflows:
  assumes "cli_loop opts None None = Some (dir, dbfilename)" "dir = None \<or> dbfilename = None"
  shows "main b al now0 now1 now2 opts = UB"
  using assms
  by (cases dir) (auto simp: main_def setup_maps_def cli_parser_def cli_default_def)

theorem default_option_overflows_witness:
  "main demo_boot alloc_ok (Timespec 1 0) (Timespec 1 0) (Timespec 2 0) [] = UB"
  using default_option_overflows [of "[]" None None] by simp

end
