(* ===== verification/Sessions.thy ===== *)
theory Sessions
  imports App
begin

text \<open>
  Several workers on several connections with the one global data map, at the granularity of requests:
  a step is one iteration of the loop of \<^verbatim>\<open>app_code\<close> on one connection, so the calls on the map do not
  overlap (nothing in the program enforces that; \<open>Map_Race\<close> shows what overlapping calls can do). Every
  schedule then behaves like one worker that serves the merged sequence of requests.
\<close>

section \<open>Steps\<close>

text \<open>The connections with the flag of a worker that left its loop, and the global maps.\<close>

type_synonym sessions = "(bool \<times> sock) list \<times> CmdParserArgs"

definition session_step :: "env \<Rightarrow> string \<Rightarrow> nat \<Rightarrow> sessions \<Rightarrow> (turn \<times> sessions) outcome" where
  "session_step e nl j st =
     (case st of (conns, globals) \<Rightarrow>
        if length conns \<le> j \<or> fst (conns ! j) then Ret (Stop, st)
        else obind (app_iter e nl globals (snd (conns ! j))) (\<lambda>(t, s', globals').
          Ret (t, conns[j := (t = Stop, s')], globals')))"

text \<open>A schedule of connections; \<open>k\<close> counts the requests served so far.\<close>

fun session_run :: "(nat \<Rightarrow> env) \<Rightarrow> string \<Rightarrow> nat \<Rightarrow> nat list \<Rightarrow> sessions \<Rightarrow> sessions outcome" where
  "session_run envs nl k [] st = Ret st"
| "session_run envs nl k (j # js) st =
     obind (session_step (envs k) nl j st) (\<lambda>(t, st').
       session_run envs nl (if t = Turn then k + 1 else k) js st')"

section \<open>The merged sequence\<close>

text \<open>The requests in the order in which the schedule serves them, each with its connection, and what
  is left of each connection.\<close>

fun merged :: "nat list \<Rightarrow> node list list \<Rightarrow> (nat \<times> node) list" where
  "merged [] rss = []"
| "merged (j # js) rss =
     (if j < length rss \<and> rss ! j \<noteq> [] then (j, hd (rss ! j)) # merged js (rss[j := tl (rss ! j)])
      else merged js rss)"

fun unserved :: "nat list \<Rightarrow> node list list \<Rightarrow> node list list" where
  "unserved [] rss = rss"
| "unserved (j # js) rss = (if j < length rss then unserved js (rss[j := tl (rss ! j)]) else unserved js rss)"

fun replies :: "(nat \<Rightarrow> env) \<Rightarrow> conf_entry list \<Rightarrow> nat \<Rightarrow> node list \<Rightarrow> db \<Rightarrow> string list" where
  "replies envs es k [] d = []"
| "replies envs es k (req # reqs) d =
     wire (fst (serve (envs k) es req d)) # replies envs es (k + 1) reqs (snd (serve (envs k) es req d))"

lemma replies_serve_all: "fst (serve_all envs es k reqs d) = concat (replies envs es k reqs d)"
  by (induction reqs arbitrary: k d) (simp_all add: split_beta Let_def)

text \<open>The bytes that connection \<open>j\<close> gets.\<close>

definition replies_to :: "nat \<Rightarrow> (nat \<times> node) list \<Rightarrow> string list \<Rightarrow> string" where
  "replies_to j reqs ws = concat (map snd (filter (\<lambda>p. fst p = j) (zip (map fst reqs) ws)))"

lemma replies_to_simps [simp]:
  "replies_to j [] ws = []"
  "replies_to j ((i, r) # reqs) (w # ws) = (if i = j then w @ replies_to j reqs ws else replies_to j reqs ws)"
  by (simp_all add: replies_to_def)

lemma replies_length [simp]: "length (replies envs es k reqs d) = length reqs"
  by (induction reqs arbitrary: k d) simp_all

text \<open>One more request.\<close>

lemma serve_all_snoc:
  "snd (serve_all envs es k (reqs @ [req]) d) =
     snd (serve (envs (k + length reqs)) es req (snd (serve_all envs es k reqs d)))"
  by (induction reqs arbitrary: k d) (simp_all add: split_beta Let_def)

lemma replies_snoc:
  "replies envs es k (reqs @ [req]) d = replies envs es k reqs d @
     [wire (fst (serve (envs (k + length reqs)) es req (snd (serve_all envs es k reqs d))))]"
  by (induction reqs arbitrary: k d) (simp_all add: split_beta Let_def)

lemma replies_to_snoc:
  "length reqs = length ws \<Longrightarrow>
    replies_to j (reqs @ [(i, req)]) (ws @ [w]) = replies_to j reqs ws @ (if i = j then w else [])"
  by (simp add: replies_to_def)

lemma replies_to_none: "j \<notin> fst ` set reqs \<Longrightarrow> replies_to j reqs ws = []"
  by (auto simp: replies_to_def filter_empty_conv dest!: set_zip_leftD)

lemma unserved_length [simp]: "length (unserved js rss) = length rss"
  by (induction js rss rule: unserved.induct) auto

text \<open>Scheduled often enough, every connection is served completely.\<close>

lemma unserved_nth: "j < length rss \<Longrightarrow> unserved js rss ! j = drop (count_list js j) (rss ! j)"
proof (induction js rss rule: unserved.induct)
  case (2 i js rss)
  then show ?case by (cases "i = j") (auto simp: drop_Suc)
qed simp

section \<open>Serving\<close>

text \<open>Connection \<open>j\<close> delivers the requests \<open>rss ! j\<close> and accepts every reply.\<close>

definition delivers :: "node list list \<Rightarrow> (bool \<times> sock) list \<Rightarrow> bool" where
  "delivers rss conns \<longleftrightarrow> length conns = length rss \<and>
     (\<forall>j<length rss. rx (snd (conns ! j)) = rx_bytes (concat (map resp (rss ! j))) \<and> tx (snd (conns ! j)) = [] \<and>
        (fst (conns ! j) \<longrightarrow> rss ! j = []) \<and> (\<forall>req\<in>set (rss ! j). plain req))"

lemma sessions_serve:
  assumes cfg: "config_ok cfg es" and f: "\<forall>k. fnmatch_casefold (env_fnmatch (envs k))"
    and nl: "NUL \<notin> set nl" and al: "\<forall>k. realloc_keys (env_alloc (envs k)) \<and> realloc_values (env_alloc (envs k))"
  shows "db_rep sm d \<Longrightarrow> delivers rss conns \<Longrightarrow>
    \<forall>i<length (merged js rss). servable (envs (k + i)) es (snd (merged js rss ! i)) \<Longrightarrow>
    2 * max (capacity sm) (2 * (int (card (dom d)) + int (length (merged js rss)))) \<le> INT_MAX \<Longrightarrow>
    \<exists>conns' sm'. session_run envs nl k js (conns, \<lparr>arg_sm = Some sm, arg_config_dict = Some cfg\<rparr>) =
        Ret (conns', \<lparr>arg_sm = Some sm', arg_config_dict = Some cfg\<rparr>) \<and>
      db_rep sm' (snd (serve_all envs es k (map snd (merged js rss)) d)) \<and> delivers (unserved js rss) conns' \<and>
      (\<forall>j<length rss. sent (snd (conns' ! j)) =
         sent (snd (conns ! j)) @ replies_to j (merged js rss) (replies envs es k (map snd (merged js rss)) d))"
proof (induction js arbitrary: k sm d rss conns)
  case (Cons j js)
  let ?args = "\<lambda>sm. \<lparr>arg_sm = Some sm, arg_config_dict = Some cfg\<rparr>"
  have len: "length conns = length rss" using Cons.prems(2) by (simp add: delivers_def)
  consider "length rss \<le> j" | "j < length rss" "rss ! j = []" | req reqs where "j < length rss" "rss ! j = req # reqs"
    by (meson list.exhaust not_le)
  then show ?case
  proof cases
    case 1
    then have "session_step (envs k) nl j (conns, ?args sm) = Ret (Stop, conns, ?args sm)"
      using len by (simp add: session_step_def)
    with 1 Cons.IH [OF Cons.prems(1,2)] Cons.prems(3,4) show ?thesis by (simp del: replies.simps)
  next
    case 2
    let ?c = "conns ! j"
    have rx: "rx (snd ?c) = []" using Cons.prems(2) 2 by (simp add: delivers_def)
    obtain c' where c': "session_step (envs k) nl j (conns, ?args sm) = Ret (Stop, conns[j := c'], ?args sm)"
      "rx (snd c') = []" "tx (snd c') = tx (snd ?c)" "sent (snd c') = sent (snd ?c)"
    proof (cases "fst ?c")
      case True
      with rx that [of ?c] 2(1) len show ?thesis by (simp add: session_step_def)
    next
      case False
      with app_iter_end [OF rx] that [of "(True, (snd ?c)\<lparr>rx := []\<rparr>)"] 2(1) len show ?thesis by (simp add: session_step_def)
    qed
    have "rss[j := []] = rss" using 2 by (metis list_update_id)
    moreover have "delivers rss (conns[j := c'])"
      using Cons.prems(2) c'(2,3) 2 by (auto simp: delivers_def nth_list_update)
    ultimately show ?thesis
      using c' 2 Cons.IH [OF Cons.prems(1), of rss "conns[j := c']" k] Cons.prems(3,4) len
      by (fastforce simp: nth_list_update simp del: replies.simps)
  next
    case (3 req reqs)
    let ?s = "snd (conns ! j)" and ?r = "fst (serve (envs k) es req d)" and ?d = "snd (serve (envs k) es req d)"
    let ?rss = "rss[j := reqs]" and ?s' = "(snd (conns ! j))\<lparr>rx := rx_bytes (concat (map resp reqs)),
      sent := sent (snd (conns ! j)) @ wire (fst (serve (envs k) es req d))\<rparr>"
    have m: "merged (j # js) rss = (j, req) # merged js ?rss" using 3 by simp
    have fin: "\<not> fst (conns ! j)" and rx: "rx ?s = rx_bytes (resp req) @ rx_bytes (concat (map resp reqs))" and tx: "tx ?s = []"
      and pl: "plain req" using Cons.prems(2) 3 by (auto simp: delivers_def)
    have room: "room (env_alloc (envs k)) sm" using Cons.prems(4) al by (auto simp: room_def max_def split: if_splits)
    have sv: "servable (envs k) es req" using Cons.prems(3) [rule_format, of 0] unfolding m by simp
    have fk: "fnmatch_casefold (env_fnmatch (envs k))" using f by simp
    obtain sm1 where t: "app_iter (envs k) nl (?args sm) ?s = Ret (Turn, ?s', ?args sm1)" "db_rep sm1 ?d"
      "capacity sm1 \<le> max (capacity sm) (2 * int (card (dom d)))"
      using app_turn [OF Cons.prems(1) cfg fk nl sv pl room rx tx] by blast
    have st: "session_step (envs k) nl j (conns, ?args sm) = Ret (Turn, conns[j := (False, ?s')], ?args sm1)"
      using t(1) fin 3 len by (simp add: session_step_def)
    have card: "card (dom ?d) \<le> Suc (card (dom d))" using serve_card [OF db_finite [OF Cons.prems(1)]] by blast
    have dl: "delivers ?rss (conns[j := (False, ?s')])"
      using Cons.prems(2) 3 by (auto simp: delivers_def nth_list_update)
    have tail: "\<forall>i<length (merged js ?rss). servable (envs (k + 1 + i)) es (snd (merged js ?rss ! i))"
    proof (intro allI impI)
      fix i assume "i < length (merged js ?rss)"
      then show "servable (envs (k + 1 + i)) es (snd (merged js ?rss ! i))"
        using Cons.prems(3) [rule_format, of "Suc i"] unfolding m by simp
    qed
    have bound: "2 * max (capacity sm1) (2 * (int (card (dom ?d)) + int (length (merged js ?rss)))) \<le> INT_MAX"
      using Cons.prems(4) t(3) card unfolding m by (auto simp: max_def split: if_splits)
    obtain conns' sm' where r: "session_run envs nl (k + 1) js (conns[j := (False, ?s')], ?args sm1) = Ret (conns', ?args sm')"
      "db_rep sm' (snd (serve_all envs es (k + 1) (map snd (merged js ?rss)) ?d))" "delivers (unserved js ?rss) conns'"
      and snt: "\<And>i. i < length rss \<Longrightarrow> sent (snd (conns' ! i)) = sent (snd (conns[j := (False, ?s')] ! i)) @
         replies_to i (merged js ?rss) (replies envs es (k + 1) (map snd (merged js ?rss)) ?d)"
      using Cons.IH [OF t(2) dl tail bound] by auto
    have "sent (snd (conns' ! i)) = sent (snd (conns ! i)) @
        replies_to i (merged (j # js) rss) (replies envs es k (map snd (merged (j # js) rss)) d)" if "i < length rss" for i
      using snt [OF that] that 3(1) len unfolding m by (cases "i = j") simp_all
    moreover have "snd (serve_all envs es k (map snd (merged (j # js) rss)) d) = snd (serve_all envs es (k + 1) (map snd (merged js ?rss)) ?d)"
      unfolding m by (simp add: split_beta Let_def)
    moreover have "unserved (j # js) rss = unserved js ?rss" using 3 by simp
    ultimately show ?thesis using st r by (intro exI [of _ conns'] exI [of _ sm']) simp
  qed
qed (auto simp: delivers_def)

section \<open>Properties\<close>

text \<open>Workers whose requests do not overlap are serialisable: for any number of connections and any
  schedule of their requests, each connection receives exactly the replies to its own requests, in
  order, that the abstract store gives in the merged order of all requests, the data map represents
  the store after them, and nothing but the served requests is consumed.\<close>

lemma sessions_serialise:
  assumes "config_ok cfg es" "\<forall>k. fnmatch_casefold (env_fnmatch (envs k))" "NUL \<notin> set nl"
    "\<forall>k. realloc_keys (env_alloc (envs k)) \<and> realloc_values (env_alloc (envs k))"
    "db_rep sm d" "delivers rss conns"
    "\<forall>i<length (merged js rss). servable (envs i) es (snd (merged js rss ! i))"
    "2 * max (capacity sm) (2 * (int (card (dom d)) + int (length (merged js rss)))) \<le> INT_MAX"
  shows "\<exists>conns' sm'. session_run envs nl 0 js (conns, \<lparr>arg_sm = Some sm, arg_config_dict = Some cfg\<rparr>) =
      Ret (conns', \<lparr>arg_sm = Some sm', arg_config_dict = Some cfg\<rparr>) \<and>
    db_rep sm' (snd (serve_all envs es 0 (map snd (merged js rss)) d)) \<and>
    (\<forall>j<length rss.
       sent (snd (conns' ! j)) =
         sent (snd (conns ! j)) @ replies_to j (merged js rss) (replies envs es 0 (map snd (merged js rss)) d) \<and>
       rx (snd (conns' ! j)) = rx_bytes (concat (map resp (drop (count_list js j) (rss ! j)))))"
  using sessions_serve [where k = 0, OF assms(1-6) _ assms(8)] assms(7)
  by (fastforce simp: delivers_def unserved_nth)

lemma demo_merged:
  "merged [1, 0, 0, 1] [[request [''SET'', ''k'', ''v'']], [request [''get'', ''k'']]] =
     [(1, request [''get'', ''k'']), (0, request [''SET'', ''k'', ''v''])]"
  "merged [0, 1] [[request [''SET'', ''k'', ''v'']], [request [''get'', ''k'']]] =
     [(0, request [''SET'', ''k'', ''v'']), (1, request [''get'', ''k''])]"
  by simp_all

end
