(* ===== verification/Truncated.thy ===== *)
theory Truncated
  imports App "HOL-Library.Sublist"
begin

text \<open>
  Clients that close the connection in the middle of a request: the RESP reader refuses every proper
  part of the text of a command tree, and the worker answers with the parse error message and leaves its
  loop without having touched the data map.
\<close>

section \<open>The reader on a part of a request\<close>

lemma strict_prefix_append_cases:
  assumes "strict_prefix t (xs @ ys)"
  obtains (first) "strict_prefix t xs" | (second) u where "t = xs @ u" "strict_prefix u ys"
proof -
  have cases: "prefix t xs \<or> (\<exists>u. t = xs @ u \<and> prefix u ys)" and ne: "t \<noteq> xs @ ys"
    using assms by (auto simp: strict_prefix_def prefix_append)
  show ?thesis
  proof (cases "\<exists>u. t = xs @ u \<and> prefix u ys")
    case True
    with ne second show ?thesis by (auto simp: strict_prefix_def)
  next
    case False
    with cases have "prefix t xs" "t \<noteq> xs" by auto
    with first show ?thesis by (simp add: strict_prefix_def)
  qed
qed

lemma get_el_size_cut:
  assumes "strict_prefix t (dec_nat n @ CRLF)" "n < 2 ^ 31" "rx s = rx_bytes t"
  shows "get_el_size s = Ret (-2, s\<lparr>rx := []\<rparr>)"
proof -
  have dg: "\<forall>c\<in>set (dec_nat n). is_digit c" by (simp add: dec_nat_digits)
  have len: "length (dec_nat n) \<le> 10" using dec_nat_length_le [of n 9] assms(2) by simp
  obtain ds u where t: "t = ds @ u" "u = [] \<or> u = [CR]" "ds = [] \<longrightarrow> u = []" "\<forall>c\<in>set ds. is_digit c" "length ds \<le> 10"
    using assms(1)
  proof (cases rule: strict_prefix_append_cases)
    case first
    then have "\<forall>c\<in>set t. is_digit c" "length t \<le> length (dec_nat n)"
      using dg by (auto simp: strict_prefix_def prefix_def)
    with len that [of t "[]"] show ?thesis by simp
  next
    case (second u)
    then have "u = [] \<or> u = [CR]" by (cases u) (auto simp: strict_prefix_def prefix_Cons)
    with second(1) dg len that [of "dec_nat n" u] show ?thesis by simp
  qed
  have stop: "el_loop DIGIT_STATE ds (length ds) False (rx_bytes u) = Ret (ERR_INV_CHAR, [])"
    using t(2,5)
    by (subst el_loop.simps, subst el_loop.simps)
      (auto simp: el_recv_def buf_put_def buf_at_def MAX_ARRAY_SIZE_def nth_append)
  have "el_loop START_STATE [] 0 False (rx_bytes t) = Ret (ERR_INV_CHAR, [])"
  proof (cases ds)
    case Nil
    with t(1,3) show ?thesis
      by (subst el_loop.simps) (simp add: el_recv_def buf_at_def MAX_ARRAY_SIZE_def)
  next
    case (Cons c cs)
    have "el_loop START_STATE [] 0 False (rx_bytes t) = el_loop DIGIT_STATE [c] (length [c]) False (rx_bytes cs @ rx_bytes u)"
      using t(1,4) by (simp add: Cons el_loop_start)
    also have "\<dots> = el_loop DIGIT_STATE ds (length ds) False (rx_bytes u)"
      using el_loop_digits [of cs "[c]" False "rx_bytes u"] t(4,5) by (simp add: Cons MAX_ARRAY_SIZE_def)
    finally show ?thesis using stop by simp
  qed
  with assms(3) show ?thesis by (simp add: get_el_size_def ERR_INV_CHAR_def)
qed

lemma recv_take_all: "length bs \<le> n \<Longrightarrow> recv_take n (rx_bytes bs) = (bs, [])"
proof (induction bs arbitrary: n)
  case (Cons b bs)
  then show ?case by (cases n) auto
qed (cases n; simp)

lemma read_exact_cut:
  assumes "length t < n" "rx s = rx_bytes t"
  shows "\<exists>bs. read_exact_bytes n s = Ret (0, bs, s\<lparr>rx := []\<rparr>)"
proof (cases t)
  case Nil
  with assms show ?thesis by (simp add: read_exact_bytes_def recv_resp_fm_clnt_def recv_def)
next
  case (Cons c cs)
  then have "recv n s = (RecvOk t, s\<lparr>rx := []\<rparr>)"
    using assms recv_take_all [of t n] by (simp add: recv_def)
  with assms(1) show ?thesis by (simp add: read_exact_bytes_def recv_resp_fm_clnt_def)
qed

lemma read_exact_one_end: "rx s = [] \<Longrightarrow> \<exists>bs. read_exact_bytes (Suc 0) s = Ret (0, bs, s\<lparr>rx := []\<rparr>)"
  using read_exact_cut [of "[]" "Suc 0" s] by simp

lemma finish_bulk_str_cut:
  assumes "strict_prefix v CRLF" "rx s = rx_bytes v"
  shows "finish_bulk_str b n s = Ret (None, s\<lparr>rx := []\<rparr>)"
proof -
  have "v = [] \<or> v = [CR]" using assms(1) by (cases v) (auto simp: strict_prefix_def prefix_Cons)
  then show ?thesis
  proof
    assume "v = []"
    with assms(2) read_exact_one_end [of s] show ?thesis
      by (auto simp: finish_bulk_str_def is_valid_terminator_def)
  next
    assume "v = [CR]"
    with assms(2) have rx: "rx s = RxByte CR # []" by simp
    from read_exact_one_end [of "s\<lparr>rx := []\<rparr>"] read_exact_one [OF rx] show ?thesis
      by (auto simp: finish_bulk_str_def is_valid_terminator_def)
  qed
qed

lemma lex_bulk_str_cut:
  assumes "int (length b) \<le> PROTO_MAX_BULK_SIZE" "strict_prefix t (dec_nat (length b) @ CRLF @ b @ CRLF)"
    "rx s = rx_bytes t"
  shows "lex_bulk_str s = Ret (None, s\<lparr>rx := []\<rparr>)"
proof -
  have len: "length b < 2 ^ 31" using assms(1) by (simp add: PROTO_MAX_BULK_SIZE_def)
  from assms(2) have "strict_prefix t ((dec_nat (length b) @ CRLF) @ b @ CRLF)" by simp
  then show ?thesis
  proof (cases rule: strict_prefix_append_cases)
    case first
    from get_el_size_cut [OF first len assms(3)] show ?thesis
      by (auto simp: lex_bulk_str_def ERR_INV_CHAR_def ERR_ARRAY_OVERFLOW_def)
  next
    case (second u)
    let ?s1 = "s\<lparr>rx := rx_bytes u\<rparr>"
    have sz: "get_el_size s = Ret (int (length b), ?s1)"
      using get_el_size_dec [OF len, of s "rx_bytes u"] second(1) assms(3) by simp
    show ?thesis
    proof (cases "b = []")
      case True
      with second(2) have "strict_prefix u CRLF" by simp
      from finish_bulk_str_cut [OF this, of ?s1 "[]" 0] sz True show ?thesis
        by (auto simp: lex_bulk_str_def ERR_INV_CHAR_def ERR_ARRAY_OVERFLOW_def)
    next
      case False
      from second(2) show ?thesis
      proof (cases rule: strict_prefix_append_cases)
        case first
        from read_exact_cut [OF prefix_length_less [OF first], of ?s1] sz False assms(1) show ?thesis
          by (auto simp: lex_bulk_str_def ERR_INV_CHAR_def ERR_ARRAY_OVERFLOW_def)
      next
        case (second v)
        have "read_exact_bytes (length b) ?s1 = Ret (1, b, ?s1\<lparr>rx := rx_bytes v\<rparr>)"
          by (rule read_exact_bytes_ok) (simp_all add: False second(1))
        with finish_bulk_str_cut [OF second(2), of "?s1\<lparr>rx := rx_bytes v\<rparr>" b "int (length b)"] sz False assms(1)
        show ?thesis by (auto simp: lex_bulk_str_def ERR_INV_CHAR_def ERR_ARRAY_OVERFLOW_def)
      qed
    qed
  qed
qed

lemma discard_plain: "\<forall>nd\<in>set acc. plain nd \<Longrightarrow> discard acc n s = Ret (None, s)"
proof -
  assume acc: "\<forall>nd\<in>set acc. plain nd"
  then have "\<exists>n. delete_array acc = Ret n"
  proof (induction acc)
    case (Cons nd acc)
    then show ?case using plain_walks [of nd] by auto
  qed simp
  then show ?thesis by (auto simp: discard_def new_array_def)
qed

text \<open>\<open>refuses f nd\<close>: with fuel \<open>f\<close>, the reader chosen by the first byte of the text of \<open>nd\<close> refuses every
  proper part of the rest of it.\<close>

definition refuses :: "nat \<Rightarrow> node \<Rightarrow> bool" where
  "refuses f nd \<longleftrightarrow> (\<forall>s t. rx s = rx_bytes t \<longrightarrow> strict_prefix t (tl (resp nd)) \<longrightarrow> length t < f \<longrightarrow>
     (case nd of ArrayNode ns sz \<Rightarrow> lexer_fuel f s | _ \<Rightarrow> lex_bulk_str s) = Ret (None, s\<lparr>rx := []\<rparr>))"

lemma lexer_loop_refuses:
  assumes "\<forall>nd\<in>set ns. plain nd \<and> (\<forall>g<f. refuses g nd)" "\<forall>nd\<in>set acc. plain nd"
    "sz = int (length (acc @ ns))" "sz \<le> INT_MAX"
    "rx s = rx_bytes t" "strict_prefix t (concat (map resp ns))" "length t < f"
  shows "lexer_loop f sz (length acc) acc s = Ret (None, s\<lparr>rx := []\<rparr>)"
  using assms
proof (induction ns arbitrary: f acc s t)
  case Nil
  then show ?case by simp
next
  case (Cons nd ns)
  obtain g where f: "f = Suc g" using Cons.prems(7) by (cases f) auto
  have pl: "plain nd" and rf: "refuses g nd" using Cons.prems(1) f by auto
  have un: "length acc < unat (word_of_int sz :: uint)"
    using Cons.prems(3,4) by (simp add: unat_of_nat del: of_nat_Suc)
  note gone = discard_plain [OF Cons.prems(2), of sz]
  obtain t' where t': "resp nd = (case nd of ArrayNode ns sz \<Rightarrow> CHR ''*'' | _ \<Rightarrow> CHR ''$'') # t'"
    using plain_resp_hd [OF pl] by blast
  from Cons.prems(6) have "strict_prefix t (resp nd @ concat (map resp ns))" by simp
  then show ?case
  proof (cases rule: strict_prefix_append_cases)
    case first
    show ?thesis
    proof (cases t)
      case Nil
      with Cons.prems(5) read_exact_one_end [of s] un gone f show ?thesis by auto
    next
      case (Cons c u)
      have u: "strict_prefix u (tl (resp nd))" "c = (case nd of ArrayNode ns sz \<Rightarrow> CHR ''*'' | _ \<Rightarrow> CHR ''$'')"
        using first Cons t' by simp_all
      let ?s1 = "s\<lparr>rx := rx_bytes u\<rparr>"
      have b: "read_exact_bytes (Suc 0) s = Ret (1, [c], ?s1)"
        using Cons.prems(5) Cons by (intro read_exact_one) simp
      have len: "length u < g" using Cons.prems(7) Cons f by simp
      have "rx ?s1 = rx_bytes u" by simp
      from rf [unfolded refuses_def, rule_format, OF this u(1) len]
      have lex: "(case nd of ArrayNode ns sz \<Rightarrow> lexer_fuel g ?s1 | _ \<Rightarrow> lex_bulk_str ?s1) = Ret (None, ?s1\<lparr>rx := []\<rparr>)" .
      show ?thesis
      proof (cases nd)
        case (ArrayNode ms m)
        then have "lexer_fuel g ?s1 = Ret (None, ?s1\<lparr>rx := []\<rparr>)" using lex by (simp del: lexer_fuel.simps)
        with b u(2) ArrayNode un gone f show ?thesis by (simp del: lexer_fuel.simps)
      next
        case (BulkStringNode x m)
        then have "lex_bulk_str ?s1 = Ret (None, ?s1\<lparr>rx := []\<rparr>)" using lex by simp
        with b u(2) BulkStringNode un gone f show ?thesis by (simp del: lexer_fuel.simps)
      qed (use pl in simp)
    qed
  next
    case (second u)
    have len: "length u < g" using second(1) Cons.prems(7) f t' by simp
    let ?s1 = "s\<lparr>rx := rx_bytes t' @ rx_bytes u\<rparr>" and ?s2 = "s\<lparr>rx := rx_bytes u\<rparr>"
    have b: "read_exact_bytes (Suc 0) s =
        Ret (1, [case nd of ArrayNode ns sz \<Rightarrow> CHR ''*'' | _ \<Rightarrow> CHR ''$''], ?s1)"
      using Cons.prems(5) second(1) t' by (intro read_exact_one) simp
    have rest: "lexer_loop g sz (length acc + 1) (acc @ [nd]) ?s2 = Ret (None, s\<lparr>rx := []\<rparr>)"
      using Cons.IH [of g "acc @ [nd]" ?s2 u] Cons.prems len f pl second(2) by simp
    have "length (rx ?s1) < g" using second(1) Cons.prems(7) f t' by simp
    moreover have "rx ?s1 = rx_bytes (tl (resp nd)) @ rx_bytes u" by (simp add: t' del: resp.simps)
    ultimately have rd: "case nd of BulkStringNode c sz \<Rightarrow> lex_bulk_str ?s1 = Ret (Some nd, ?s1\<lparr>rx := rx_bytes u\<rparr>)
        | ArrayNode ns sz \<Rightarrow> lexer_fuel g ?s1 = Ret (Some nd, ?s1\<lparr>rx := rx_bytes u\<rparr>) | BaseNode d \<Rightarrow> False"
      using plain_reads [OF pl, of g] unfolding reads_def by blast
    from rest have l: "lexer_loop g sz (Suc (length acc)) (acc @ [nd]) ?s2 = Ret (None, s\<lparr>rx := []\<rparr>)" by simp
    show ?thesis
    proof (cases nd)
      case (ArrayNode ms m)
      then have "lexer_fuel g ?s1 = Ret (Some nd, ?s2)" using rd by (simp del: lexer_fuel.simps)
      moreover have "read_exact_bytes (Suc 0) s = Ret (1, ''*'', ?s1)" using b ArrayNode by simp
      ultimately show ?thesis using un l f by (simp del: lexer_fuel.simps)
    next
      case (BulkStringNode c m)
      then have "lex_bulk_str ?s1 = Ret (Some nd, ?s2)" using rd by simp
      moreover have "read_exact_bytes (Suc 0) s = Ret (1, ''$'', ?s1)" using b BulkStringNode by simp
      ultimately show ?thesis using un l f by (simp del: lexer_fuel.simps)
    qed (use pl in simp)
  qed
qed

lemma plain_refuses: "plain nd \<Longrightarrow> refuses f nd"
proof (induction nd arbitrary: f)
  case (BulkStringNode c sz)
  then show ?case
    by (auto simp: refuses_def dec_int_def split: option.splits intro!: lex_bulk_str_cut)
next
  case (ArrayNode ns sz)
  show ?case
    unfolding refuses_def node.case
  proof (intro allI impI)
    fix s :: sock and t
    assume r: "rx s = rx_bytes t" "strict_prefix t (tl (resp (ArrayNode ns sz)))" and len: "length t < f"
    have sz: "sz = int (length ns)" "sz \<le> INT_MAX" "ns \<noteq> []" "length ns < 2 ^ 31" using ArrayNode.prems by auto
    from r(2) sz(1) have "strict_prefix t ((dec_nat (length ns) @ CRLF) @ concat (map resp ns))" by (simp add: dec_int_def)
    then show "lexer_fuel f s = Ret (None, s\<lparr>rx := []\<rparr>)"
    proof (cases rule: strict_prefix_append_cases)
      case first
      from get_el_size_cut [OF first sz(4) r(1)] show ?thesis by auto
    next
      case (second u)
      let ?s1 = "s\<lparr>rx := rx_bytes u\<rparr>"
      have "get_el_size s = Ret (sz, ?s1)"
        using get_el_size_dec [OF sz(4), of s "rx_bytes u"] second(1) r(1) sz(1) by simp
      moreover have "lexer_loop f sz 0 [] ?s1 = Ret (None, s\<lparr>rx := []\<rparr>)"
        using lexer_loop_refuses [of ns f "[]" sz ?s1 u] ArrayNode sz second len by simp
      ultimately show ?thesis using sz by auto
    qed
  qed
qed simp

lemma lexer_refuses:
  assumes "plain (ArrayNode ns n)" "strict_prefix t (tl (resp (ArrayNode ns n)))" "rx s = rx_bytes t"
  shows "lexer s = Ret (None, s\<lparr>rx := []\<rparr>)"
  using plain_refuses [OF assms(1), of "Suc (length t)"] assms(2,3)
  by (simp add: lexer_def refuses_def del: lexer_fuel.simps resp.simps)

section \<open>The worker on a part of a request\<close>

lemma app_iter_cut:
  assumes "plain (ArrayNode ns n)" "strict_prefix t (resp (ArrayNode ns n))" "t \<noteq> []" "rx s = rx_bytes t" "tx s = []"
  shows "app_iter e nl args s = Ret (Stop, s\<lparr>rx := [], sent := sent s @ PARSE_ERROR_MSG @ [NUL]\<rparr>, args)"
proof -
  obtain u where t: "t = CHR ''*'' # u" "strict_prefix u (tl (resp (ArrayNode ns n)))"
    using assms(2,3) by (cases t) auto
  let ?s1 = "s\<lparr>rx := rx_bytes u\<rparr>"
  have "recv_resp_fm_clnt (Suc 0) 3 0 s = Ret (RecvOk [CHR ''*''], ?s1)"
    using assms(4) t(1) by (intro recv_one) simp
  moreover have "lexer ?s1 = Ret (None, s\<lparr>rx := []\<rparr>)"
    using lexer_refuses [OF assms(1) t(2), of ?s1] by simp
  moreover have "cstr PARSE_ERROR_MSG = PARSE_ERROR_MSG" by (simp add: PARSE_ERROR_MSG_def cstr_def)
  ultimately show ?thesis using assms(5) by (simp add: app_iter_def send_text_ok)
qed

text \<open>Until a request has arrived completely, a worker waits for the rest of it.\<close>

lemma request_awaited:
  assumes "plain (ArrayNode ns n)" "strict_prefix t (resp (ArrayNode ns n))" "rx s = rx_bytes t"
  shows "awaits s"
proof -
  obtain c v where v: "resp (ArrayNode ns n) = (t @ [c]) @ v"
    using assms(2) by (auto simp: strict_prefix_def prefix_def neq_Nil_conv)
  obtain u where u: "t @ [c] = CHR ''*'' # u" using v by (cases "t @ [c]") auto
  let ?s = "s\<lparr>rx := rx s @ [RxByte c]\<rparr>" and ?s1 = "s\<lparr>rx := rx_bytes u\<rparr>"
  have rx: "rx ?s = rx_bytes (t @ [c])" using assms(3) by simp
  have "recv_resp_fm_clnt (Suc 0) 3 0 ?s = Ret (RecvOk [CHR ''*''], ?s1)"
    using recv_one [of ?s "CHR ''*''" "rx_bytes u"] rx unfolding u by simp
  moreover have "\<exists>r. lexer ?s1 = Ret (r, s\<lparr>rx := []\<rparr>)"
  proof (cases "v = []")
    case True
    then have "tl (resp (ArrayNode ns n)) = u" using v u by simp
    then show ?thesis using lexer_resp [OF assms(1), of ?s1 "[]"] by simp
  next
    case False
    then have "strict_prefix u (tl (resp (ArrayNode ns n)))" using v u by (simp add: strict_prefix_def)
    from lexer_refuses [OF assms(1) this, of ?s1] show ?thesis by simp
  qed
  ultimately have "read_phase ?s = Ret (s\<lparr>rx := []\<rparr>)" by (auto simp: read_phase_def)
  then show ?thesis unfolding awaits_def by (intro exI [of _ c]) simp
qed

text \<open>C37. Clients that close inside a request: on a connection that delivers complete requests and then a
  proper, non-empty part of another one, a worker sends the replies to the complete ones and then the
  parse error message, and leaves its loop with the store as the complete requests left it.\<close>

theorem truncated_stream_served:
  assumes "config_ok cfg es" "\<forall>k. fnmatch_casefold (env_fnmatch (envs k))" "NUL \<notin> set nl"
    "\<forall>k. realloc_keys (env_alloc (envs k)) \<and> realloc_values (env_alloc (envs k))"
    "db_rep sm d" "\<forall>req\<in>set reqs. plain req" "\<forall>i<length reqs. servable (envs i) es (reqs ! i)"
    "2 * max (capacity sm) (2 * (int (card (dom d)) + int (length reqs))) \<le> INT_MAX"
    and last: "plain (ArrayNode ns n)" "strict_prefix t (resp (ArrayNode ns n))" "t \<noteq> []"
    and s: "rx s = rx_bytes (concat (map resp reqs) @ t)" "tx s = []"
  shows "\<exists>sm' s'. app_code envs nl \<lparr>arg_sm = Some sm, arg_config_dict = Some cfg\<rparr> s =
      Ret (s', \<lparr>arg_sm = Some sm', arg_config_dict = Some cfg\<rparr>) \<and>
    sent s' = sent s @ fst (serve_all envs es 0 reqs d) @ PARSE_ERROR_MSG @ [NUL] \<and>
    db_rep sm' (snd (serve_all envs es 0 reqs d))"
proof -
  let ?s = "s\<lparr>rx := rx_bytes t, sent := sent s @ fst (serve_all envs es 0 reqs d)\<rparr>"
  have rx: "rx s = rx_bytes (concat (map resp reqs)) @ rx_bytes t" using s(1) by simp
  have sv: "\<forall>i<length reqs. servable (envs (0 + i)) es (reqs ! i)" using assms(7) by simp
  from app_loop_turns [OF assms(1-6) sv assms(8) rx s(2)] obtain sm' where
    turns: "app_loop envs nl 0 \<lparr>arg_sm = Some sm, arg_config_dict = Some cfg\<rparr> s =
      app_loop envs nl (length reqs) \<lparr>arg_sm = Some sm', arg_config_dict = Some cfg\<rparr> ?s"
    and rep: "db_rep sm' (snd (serve_all envs es 0 reqs d))" by auto
  have "tx ?s = []" using s(2) by simp
  from app_iter_cut [OF last _ this, of "envs (length reqs)" nl "\<lparr>arg_sm = Some sm', arg_config_dict = Some cfg\<rparr>"]
  have "app_iter (envs (length reqs)) nl \<lparr>arg_sm = Some sm', arg_config_dict = Some cfg\<rparr> ?s =
      Ret (Stop, ?s\<lparr>rx := [], sent := sent ?s @ PARSE_ERROR_MSG @ [NUL]\<rparr>, \<lparr>arg_sm = Some sm', arg_config_dict = Some cfg\<rparr>)"
    by auto
  then have "app_code envs nl \<lparr>arg_sm = Some sm, arg_config_dict = Some cfg\<rparr> s =
      Ret (?s\<lparr>rx := [], sent := sent ?s @ PARSE_ERROR_MSG @ [NUL]\<rparr>, \<lparr>arg_sm = Some sm', arg_config_dict = Some cfg\<rparr>)"
    unfolding app_code_def turns by (subst app_loop.simps) simp
  with rep show ?thesis by simp
qed

theorem truncated_stream_served_witness:
  "\<exists>sm' s'. app_code (\<lambda>k. demo_env (Timespec (int k) 0)) ''(null)''
      \<lparr>arg_sm = Some create_simple_map, arg_config_dict = Some demo_config\<rparr>
      (demo_sock (concat (map resp [request [''SET'', ''k'', ''v''], request [''get'', ''k'']]) @ ''*1'' @ CRLF @ ''$4'')) =
    Ret (s', \<lparr>arg_sm = Some sm', arg_config_dict = Some demo_config\<rparr>) \<and>
    sent s' = ''+OK'' @ CRLF @ [NUL] @ ''$1'' @ CRLF @ ''v'' @ CRLF @ [NUL] @ PARSE_ERROR_MSG @ [NUL] \<and>
    db_rep sm' [''k'' \<mapsto> new_entry (Timespec 0 0) ''v'' 0 0]"
proof -
  let ?reqs = "[request [''SET'', ''k'', ''v''], request [''get'', ''k'']]" and ?last = "ArrayNode [arg ''ECHO''] 1"
  let ?t = "''*1'' @ CRLF @ ''$4''"
  have c: "config_ok demo_config demo_entries"
    using demo_config_rep by (simp add: config_ok_def) (simp add: demo_entries_def)
  have "resp ?last = ?t @ CRLF @ ''ECHO'' @ CRLF" by code_simp
  then have t: "strict_prefix ?t (resp ?last)" by (simp add: strict_prefix_def)
  have p: "plain ?last" "\<forall>req\<in>set ?reqs. plain req" by (simp_all add: request_def arg_def PROTO_MAX_BULK_SIZE_def)
  from truncated_stream_served [OF c _ _ _ db_rep_create p(2) demo_servable _ p(1) t, of "''(null)''"
      "demo_sock (concat (map resp ?reqs) @ ?t)"]
  show ?thesis
    unfolding demo_serve
    by (simp add: demo_env_def glob_fnmatch_casefold alloc_ok_def demo_sock_def create_simple_map_def del: resp.simps)
qed

end
