(* ===== verification/Program.thy ===== *)
theory Program
  imports Startup Sessions Truncated
begin

text \<open>
  The whole running program: the threads of \<^verbatim>\<open>server.c\<close> with the linked queues, the connections behind
  their file descriptors, and the global maps. Where \<open>Server\<close> leaves open when a call of \<^verbatim>\<open>app_code\<close>
  returns, a worker here runs its loop request by request (\<open>app_iter\<close>) on the connection of its request,
  interleaved with all other threads and workers; the denier sends its message on the connection.

  The bytes of a client arrive bit by bit, at any time, and a client may stay connected and silent: a
  worker whose iteration would need a byte that has not arrived is blocked in \<^verbatim>\<open>recv\<close> (there is no
  timeout) until it arrives or the client closes. What the model fixes: an iteration, that is the command
  of one request, is one step on the global map, which the code does not lock (the theories \<open>Map_Steps\<close>,
  \<open>Map_Race\<close> and \<open>Node_Race\<close> have the commands of several workers overlap, statement by statement);
  the kernel takes all bytes of every \<^verbatim>\<open>send\<close>; and no \<^verbatim>\<open>recv\<close> fails.
\<close>

section \<open>The program\<close>

text \<open>A connection: the socket with the bytes that have arrived, those the client is still going to send, and
  whether the client is still connected; and, read by no step, the requests that the client sends, those
  nobody has read yet, the part of a last request after which the client stops (if any), and whether the
  denier or a worker is done with it. Connections are numbered in the order in which the clients
  connect.\<close>

record connection =
  c_sock :: sock
  c_coming :: string
  c_open :: bool
  c_reqs :: "node list"
  c_script :: "node list"
  c_tail :: string
  c_denied :: bool
  c_done :: bool

text \<open>\<open>session_of\<close> maps an open file descriptor to its connection; \<open>history\<close>, read by no step, lists
  the served requests with their connections.\<close>

record program =
  srv :: qserver
  conns :: "connection list"
  session_of :: "int \<Rightarrow> nat"
  globals :: CmdParserArgs
  history :: "(nat \<times> node) list"

definition client_conn :: "node list \<Rightarrow> string \<Rightarrow> connection" where
  "client_conn reqs tail =
     \<lparr>c_sock = \<lparr>rx = [], slp = [], tx = [], sent = []\<rparr>, c_coming = concat (map resp reqs) @ tail, c_open = True,
      c_reqs = reqs, c_script = reqs, c_tail = tail, c_denied = False, c_done = False\<rparr>"

text \<open>A client connects, the next bytes of a client arrive, a client that has sent everything closes, or a
  thread takes a step.\<close>

datatype program_action = Connect int "node list" string | Arrive nat nat | Hang_Up nat | Thread action

definition connect :: "int \<Rightarrow> node list \<Rightarrow> string \<Rightarrow> program \<Rightarrow> program outcome option" where
  "connect f reqs tail p =
     (case accept_client f (srv p) of
        None \<Rightarrow> None
      | Some r \<Rightarrow> Some (obind r (\<lambda>s. Ret (p\<lparr>srv := s, conns := conns p @ [client_conn reqs tail],
          session_of := (session_of p)(f := length (conns p))\<rparr>))))"

definition put_conn :: "nat \<Rightarrow> connection \<Rightarrow> program \<Rightarrow> program" where
  "put_conn j c p = p\<lparr>conns := (conns p)[j := c]\<rparr>"

definition arrive :: "nat \<Rightarrow> nat \<Rightarrow> program \<Rightarrow> program outcome option" where
  "arrive j n p =
     (let c = conns p ! j in
      if j < length (conns p) \<and> 0 < n \<and> n \<le> length (c_coming c)
      then Some (Ret (put_conn j (c\<lparr>c_sock := (c_sock c)\<lparr>rx := rx (c_sock c) @ rx_bytes (take n (c_coming c))\<rparr>,
                                     c_coming := drop n (c_coming c)\<rparr>) p))
      else None)"

definition hang_up :: "nat \<Rightarrow> program \<Rightarrow> program outcome option" where
  "hang_up j p =
     (let c = conns p ! j in
      if j < length (conns p) \<and> c_open c \<and> c_coming c = []
      then Some (Ret (put_conn j (c\<lparr>c_open := False\<rparr>) p)) else None)"

text \<open>The worker that serves \<open>rq\<close> is blocked in \<^verbatim>\<open>recv\<close>.\<close>

definition waits_for_client :: "program \<Rightarrow> Request \<Rightarrow> bool" where
  "waits_for_client p rq \<longleftrightarrow> (let c = conns p ! session_of p (fd rq) in c_open c \<and> awaits (c_sock c))"

text \<open>One iteration of \<^verbatim>\<open>app_code\<close> by the worker that holds \<open>rq\<close>; \<open>step\<close> is the step of the server that
  leaves the call.\<close>

definition worker_turn :: "(nat \<Rightarrow> env) \<Rightarrow> string \<Rightarrow> Request \<Rightarrow> qserver outcome option \<Rightarrow> program \<Rightarrow> program outcome option" where
  "worker_turn envs nl rq step p =
     (let j = session_of p (fd rq); c = conns p ! j in
      case step of
        None \<Rightarrow> None
      | Some r \<Rightarrow>
         if waits_for_client p rq then None
         else Some (obind (app_iter (envs (length (history p))) nl (globals p) (c_sock c)) (\<lambda>(t, s', globals').
          let p' = p\<lparr>globals := globals'\<rparr> in
          case t of
            Stop \<Rightarrow> obind r (\<lambda>s. Ret ((put_conn j (c\<lparr>c_sock := s', c_done := True\<rparr>) p')\<lparr>srv := s\<rparr>))
          | Skip \<Rightarrow> Ret (put_conn j (c\<lparr>c_sock := s'\<rparr>) p')
          | Turn \<Rightarrow> Ret ((put_conn j (c\<lparr>c_sock := s', c_script := tl (c_script c)\<rparr>) p')
              \<lparr>history := history p @ [(j, hd (c_script c))]\<rparr>))))"

text \<open>The denier sends its message.\<close>

definition deny_turn :: "Request \<Rightarrow> qserver outcome option \<Rightarrow> program \<Rightarrow> program outcome option" where
  "deny_turn rq step p =
     (let j = session_of p (fd rq); c = conns p ! j in
      case step of
        None \<Rightarrow> None
      | Some r \<Rightarrow> Some (obind (send_resp_to_clnt (TIMEOUT_MSG @ [NUL]) 3 1000 (c_sock c)) (\<lambda>(rtn, s').
          obind r (\<lambda>s. Ret ((put_conn j (c\<lparr>c_sock := s', c_denied := True\<rparr>) p)\<lparr>srv := s\<rparr>)))))"

definition server_turn :: "qserver outcome option \<Rightarrow> program \<Rightarrow> program outcome option" where
  "server_turn step p = (case step of None \<Rightarrow> None | Some r \<Rightarrow> Some (obind r (\<lambda>s. Ret (p\<lparr>srv := s\<rparr>))))"

text \<open>Inside the call the flag of the worker's action does not matter: \<open>app_iter\<close> decides when it returns.\<close>

fun program_step :: "(nat \<Rightarrow> env) \<Rightarrow> string \<Rightarrow> program_action \<Rightarrow> program \<Rightarrow> program outcome option" where
  "program_step envs nl (Connect f reqs tail) p = connect f reqs tail p"
| "program_step envs nl (Arrive j n) p = arrive j n p"
| "program_step envs nl (Hang_Up j) p = hang_up j p"
| "program_step envs nl (Thread a) p =
     (let step = qexec MAIN_QUEUE_TIME MAIN_RECV_TIMEOUT a (srv p) in
      case a of
        Client f \<Rightarrow> None
      | Run_Worker i ret \<Rightarrow>
          (if i < length (workers (sh (srv p)))
           then (case workers (sh (srv p)) ! i of
                   W_func rq \<Rightarrow>
                     worker_turn envs nl rq (qexec MAIN_QUEUE_TIME MAIN_RECV_TIMEOUT (Run_Worker i True) (srv p)) p
                 | _ \<Rightarrow> server_turn step p)
           else None)
      | Run_Excd \<Rightarrow> (case excd_th (sh (srv p)) of D_send (Some rq) \<Rightarrow> deny_turn rq step p | _ \<Rightarrow> server_turn step p)
      | _ \<Rightarrow> server_turn step p)"

definition start_program :: "CmdParserArgs \<Rightarrow> qserver \<Rightarrow> program" where
  "start_program args s = \<lparr>srv = s, conns = [], session_of = (\<lambda>_. 0), globals = args, history = []\<rparr>"

text \<open>The states of the program when clients send only requests that satisfy \<open>ok\<close>, the last one possibly not
  to its end. Nothing is assumed about when their bytes arrive and whether they ever close.\<close>

definition cut_off :: "(node \<Rightarrow> bool) \<Rightarrow> string \<Rightarrow> bool" where
  "cut_off ok tail \<longleftrightarrow> tail = [] \<or> (\<exists>req. ok req \<and> strict_prefix tail (resp req))"

fun only_sends :: "(node \<Rightarrow> bool) \<Rightarrow> program_action \<Rightarrow> bool" where
  "only_sends ok (Connect f reqs tail) = (list_all ok reqs \<and> cut_off ok tail)"
| "only_sends ok _ = True"

inductive program_reaches :: "(nat \<Rightarrow> env) \<Rightarrow> string \<Rightarrow> (node \<Rightarrow> bool) \<Rightarrow> program \<Rightarrow> program \<Rightarrow> bool" for envs nl ok p0 where
  start: "program_reaches envs nl ok p0 p0"
| step: "program_reaches envs nl ok p0 p \<Longrightarrow> only_sends ok a \<Longrightarrow> program_step envs nl a p = Some (Ret p') \<Longrightarrow>
    program_reaches envs nl ok p0 p'"

section \<open>The server part\<close>

text \<open>Every step of the program is a step of the threads, or leaves them alone.\<close>

lemma program_step_server:
  assumes "program_step envs nl a p = Some (Ret p')"
  shows "srv p' = srv p \<or> (\<exists>b. qexec MAIN_QUEUE_TIME MAIN_RECV_TIMEOUT b (srv p) = Some (Ret (srv p')))"
proof (cases a)
  case (Connect f reqs tail)
  with assms have "accept_client f (srv p) = Some (Ret (srv p'))"
    by (auto simp: connect_def obind_Ret_iff split: option.splits)
  then show ?thesis by (metis exec.simps(1))
next
  case (Thread b)
  let ?x = "\<lambda>b. qexec MAIN_QUEUE_TIME MAIN_RECV_TIMEOUT b (srv p)"
  have st: "server_turn (?x b) p = Some (Ret p') \<Longrightarrow> ?x b = Some (Ret (srv p'))" for b
    by (auto simp: server_turn_def obind_Ret_iff split: option.splits)
  have wt: "worker_turn envs nl rq (?x b) p = Some (Ret p') \<Longrightarrow> srv p' = srv p \<or> ?x b = Some (Ret (srv p'))" for rq b
    by (auto simp: worker_turn_def put_conn_def Let_def obind_Ret_iff split: option.splits if_splits turn.splits)
      (metis turn.exhaust)
  have dt: "deny_turn rq (?x b) p = Some (Ret p') \<Longrightarrow> ?x b = Some (Ret (srv p'))" for rq b
    by (auto simp: deny_turn_def put_conn_def Let_def obind_Ret_iff split: option.splits)
  have "server_turn (?x b) p = Some (Ret p') \<or> (\<exists>rq b. worker_turn envs nl rq (?x b) p = Some (Ret p')) \<or>
      (\<exists>rq. deny_turn rq (?x b) p = Some (Ret p'))"
  proof (cases b)
    case (Run_Worker i ret)
    with assms Thread show ?thesis
      by (auto simp: Let_def simp del: exec.simps split: if_splits worker_pc.splits)
  next
    case Run_Excd
    with assms Thread show ?thesis
      by (auto simp: Let_def simp del: exec.simps split: excd_pc.splits option.splits)
  qed (use assms Thread in \<open>simp_all add: Let_def del: exec.simps\<close>)
  then show ?thesis using st wt dt by blast
qed (use assms in \<open>auto simp: arrive_def hang_up_def put_conn_def Let_def split: if_splits\<close>)

lemma program_server_state:
  assumes "program_reaches envs nl ok (start_program args s) p"
    "server_state b pend n now MAIN_QUEUE_TIME MAIN_RECV_TIMEOUT s"
  shows "server_state b pend n now MAIN_QUEUE_TIME MAIN_RECV_TIMEOUT (srv p)"
  using assms
proof (induction rule: program_reaches.induct)
  case (step p a p')
  from program_step_server [OF step.hyps(3)] step.IH [OF step.prems] show ?case
    by (metis (no_types, lifting) reachable.step server_state_def)
qed (simp add: start_program_def)

section \<open>Who holds a connection\<close>

text \<open>The file descriptors whose requests are being served, whose connections a worker has left, and
  whose connections the denier has sent its message on.\<close>

fun served_fd :: "worker_pc \<Rightarrow> int set" where
  "served_fd (W_func rq) = {fd rq}"
| "served_fd (W_close rq) = {fd rq}"
| "served_fd _ = {}"

fun closing_fd :: "worker_pc \<Rightarrow> int set" where
  "closing_fd (W_close rq) = {fd rq}"
| "closing_fd _ = {}"

fun denied_fd :: "excd_pc \<Rightarrow> int set" where
  "denied_fd (D_close rq) = {fd rq}"
| "denied_fd _ = {}"

definition serving :: "shared \<Rightarrow> int set" where
  "serving p = \<Union> (served_fd ` set (workers p))"

definition closing :: "shared \<Rightarrow> int set" where
  "closing p = \<Union> (closing_fd ` set (workers p))"

lemma server_held:
  assumes "server_state b pend n now mx rt s"
  shows "\<exists>M. image_mset fd (held (sh s)) + M = mset_set (open_fds (sh s)) \<and> finite (open_fds (sh s))"
proof -
  from server_state_inv [OF assms] obtain t where "sim qh_rep s t" "server_inv t" by metis
  then show ?thesis
    by (intro exI [of _ "image_mset fd (lost (events (sh t)) + mset (req_q t) + mset (excd_tm_q t))"])
      (simp add: sim_def server_inv_def conn_inv_def ac_simps)
qed

lemma held_worker: "i < length (workers p) \<Longrightarrow> worker_holds (workers p ! i) + excd_holds (excd_th p) \<subseteq># held p"
proof -
  assume "i < length (workers p)"
  from workers_upd [OF this, of worker_holds] obtain r where
    "sum_list (map worker_holds (workers p)) = worker_holds (workers p ! i) + r" by blast
  then show ?thesis by (simp add: held_def ac_simps)
qed

text \<open>A request that a thread holds has an open connection, and no worker shares one with the denier.\<close>

lemma holder_open:
  assumes "server_state b pend n now mx rt s" "rq \<in># held (sh s)"
  shows "fd rq \<in> open_fds (sh s)"
proof -
  from server_held [OF assms(1)] obtain M where
    M: "image_mset fd (held (sh s)) + M = mset_set (open_fds (sh s))" "finite (open_fds (sh s))" by blast
  have "fd rq \<in># image_mset fd (held (sh s)) + M" using assms(2) by auto
  with M show ?thesis by simp
qed

lemma holders_differ:
  assumes "server_state b pend n now mx rt s" "{#rq, rq'#} \<subseteq># held (sh s)"
  shows "fd rq \<noteq> fd rq'"
proof
  assume eq: "fd rq = fd rq'"
  from server_held [OF assms(1)] obtain M where
    M: "image_mset fd (held (sh s)) + M = mset_set (open_fds (sh s))" "finite (open_fds (sh s))" by blast
  from assms(2) obtain R where "held (sh s) = {#rq, rq'#} + R" by (metis subset_mset.add_diff_inverse)
  with eq have "2 \<le> count (image_mset fd (held (sh s)) + M) (fd rq')" by simp
  with M show False by (simp add: count_mset_set' split: if_splits)
qed

text \<open>A worker in \<^verbatim>\<open>app_code\<close> is not about to close its connection.\<close>

lemma held_workers:
  assumes "i < length (workers p)" "j < length (workers p)" "i \<noteq> j"
  shows "worker_holds (workers p ! i) + worker_holds (workers p ! j) \<subseteq># held p"
proof -
  from workers_upd [OF assms(1), of worker_holds] obtain r where
    r: "sum_list (map worker_holds (workers p)) = worker_holds (workers p ! i) + r"
      "sum_list (map worker_holds ((workers p)[i := W_wait])) = worker_holds W_wait + r" by blast
  from workers_upd [of j "(workers p)[i := W_wait]" worker_holds] assms obtain r' where
    "sum_list (map worker_holds ((workers p)[i := W_wait])) = worker_holds (workers p ! j) + r'" by auto
  with r have "sum_list (map worker_holds (workers p)) = worker_holds (workers p ! i) + worker_holds (workers p ! j) + r'"
    by (simp add: ac_simps)
  then show ?thesis by (simp add: held_def ac_simps)
qed

lemma func_not_closing:
  assumes "server_state b pend n now mx rt s" "i < length (workers (sh s))" "workers (sh s) ! i = W_func rq"
  shows "fd rq \<notin> closing (sh s)"
proof
  assume "fd rq \<in> closing (sh s)"
  then obtain j where j: "j < length (workers (sh s))" "fd rq \<in> closing_fd (workers (sh s) ! j)"
    by (auto simp: closing_def in_set_conv_nth)
  then obtain rq' where rq': "workers (sh s) ! j = W_close rq'" "fd rq = fd rq'" by (cases "workers (sh s) ! j") auto
  with assms(3) have "i \<noteq> j" by auto
  from held_workers [OF assms(2) j(1) this] assms(3) rq'(1) have "{#rq, rq'#} \<subseteq># held (sh s)" by (simp add: add_mset_commute)
  from holders_differ [OF assms(1) this] rq'(2) show False by simp
qed

text \<open>A step of the threads that neither accepts, nor leaves \<^verbatim>\<open>app_code\<close>, nor denies.\<close>

definition quiet :: "shared \<Rightarrow> shared \<Rightarrow> bool" where
  "quiet p p' \<longleftrightarrow> open_fds p' \<subseteq> open_fds p \<and> open_fds p' \<inter> serving p \<subseteq> serving p' \<and>
     open_fds p' \<inter> closing p' = open_fds p' \<inter> closing p \<and>
     open_fds p' \<inter> denied_fd (excd_th p') = open_fds p' \<inter> denied_fd (excd_th p) \<and>
     open_fds p - open_fds p' \<subseteq> closing p \<union> denied_fd (excd_th p)"

lemma union_upd:
  assumes "i < length ws"
  shows "\<exists>R. \<Union> (F ` set ws) = F (ws ! i) \<union> R \<and> (\<forall>x. \<Union> (F ` set (ws[i := x])) = F x \<union> R)"
proof -
  let ?R = "\<Union> (F ` set (take i ws)) \<union> \<Union> (F ` set (drop (Suc i) ws))"
  have upd: "\<Union> (F ` set (ws[i := x])) = F x \<union> ?R" for x
    using assms by (auto simp: upd_conv_take_nth_drop)
  from upd [of "ws ! i"] have "\<Union> (F ` set ws) = F (ws ! i) \<union> ?R" by simp
  with upd show ?thesis by (intro exI [of _ ?R]) (simp only: simp_thms)
qed

lemma serving_upd:
  assumes "i < length (workers p)"
  obtains R where "serving p = served_fd (workers p ! i) \<union> R"
    "\<And>p' x. workers p' = (workers p)[i := x] \<Longrightarrow> serving p' = served_fd x \<union> R"
proof -
  from union_upd [OF assms, of served_fd] obtain R where "\<Union> (served_fd ` set (workers p)) = served_fd (workers p ! i) \<union> R"
    "\<And>x. \<Union> (served_fd ` set ((workers p)[i := x])) = served_fd x \<union> R" by blast
  then show ?thesis by (intro that [of R]) (simp_all only: serving_def)
qed

lemma closing_upd:
  assumes "i < length (workers p)"
  obtains R where "closing p = closing_fd (workers p ! i) \<union> R"
    "\<And>p' x. workers p' = (workers p)[i := x] \<Longrightarrow> closing p' = closing_fd x \<union> R"
proof -
  from union_upd [OF assms, of closing_fd] obtain R where "\<Union> (closing_fd ` set (workers p)) = closing_fd (workers p ! i) \<union> R"
    "\<And>x. \<Union> (closing_fd ` set ((workers p)[i := x])) = closing_fd x \<union> R" by blast
  then show ?thesis by (intro that [of R]) (simp_all only: closing_def)
qed

lemma quiet_same:
  "workers p' = workers p \<Longrightarrow> excd_th p' = excd_th p \<Longrightarrow> open_fds p' = open_fds p \<Longrightarrow> quiet p p'"
  by (simp add: quiet_def serving_def closing_def)

lemma quiet_tick: "tick t s = Some (Ret s') \<Longrightarrow> quiet (sh s) (sh s')"
  by (auto simp: step_defs intro!: quiet_same split: if_splits)

lemma quiet_main: "main_step enq ok s = Some (Ret s') \<Longrightarrow> quiet (sh s) (sh s')"
  by (rule quiet_same; cases "main_th (sh s)"; clarsimp simp: step_defs outcome_simps split: if_splits)

lemma quiet_mgr: "th_req_queue_mgr enq deq fr mx ok s = Some (Ret s') \<Longrightarrow> quiet (sh s) (sh s')"
  by (rule quiet_same; cases "mgr_th (sh s)" rule: mgr_pc_cases; clarsimp simp: step_defs outcome_simps split: if_splits)

lemma quiet_excd:
  "th_excd_tm_q_mgr deq s = Some (Ret s') \<Longrightarrow> \<forall>rq. excd_th (sh s) \<noteq> D_send (Some rq) \<Longrightarrow> quiet (sh s) (sh s')"
  by (cases "excd_th (sh s)" rule: excd_pc_cases)
    (auto simp: step_defs outcome_simps quiet_def serving_def closing_def split: if_splits)

lemma deny_step:
  assumes "th_excd_tm_q_mgr deq s = Some (Ret s')" "excd_th (sh s) = D_send (Some rq)"
  shows "workers (sh s') = workers (sh s)" "open_fds (sh s') = open_fds (sh s)" "excd_th (sh s') = D_close rq"
  using assms by (auto simp: step_defs)

lemma quiet_worker:
  assumes "app_worker deq rt ret i s = Some (Ret s')" "\<forall>rq. workers (sh s) ! i \<noteq> W_func rq"
  shows "quiet (sh s) (sh s')"
proof -
  have i: "i < length (workers (sh s))" using assms(1) by (auto simp: app_worker_def Let_def split: if_splits)
  obtain R where R: "serving (sh s) = served_fd (workers (sh s) ! i) \<union> R"
    "\<And>p x. workers p = (workers (sh s))[i := x] \<Longrightarrow> serving p = served_fd x \<union> R" using serving_upd [OF i] by blast
  obtain C where C: "closing (sh s) = closing_fd (workers (sh s) ! i) \<union> C"
    "\<And>p x. workers p = (workers (sh s))[i := x] \<Longrightarrow> closing p = closing_fd x \<union> C" using closing_upd [OF i] by blast
  show ?thesis
    using assms
    by (cases "workers (sh s) ! i" rule: worker_pc_cases)
      (auto simp: app_worker_def Let_def outcome_simps quiet_def R C split: if_splits)
qed

lemma leave_step:
  assumes "app_worker deq rt ret i s = Some (Ret s')" "workers (sh s) ! i = W_func rq"
  shows "excd_th (sh s') = excd_th (sh s)" "open_fds (sh s') = open_fds (sh s)" "serving (sh s') = serving (sh s)"
    "closing (sh s') = insert (fd rq) (closing (sh s))"
proof -
  have i: "i < length (workers (sh s))" using assms(1) by (auto simp: app_worker_def Let_def split: if_splits)
  with assms have s': "workers (sh s') = (workers (sh s))[i := W_close rq]"
    and rest: "excd_th (sh s') = excd_th (sh s)" "open_fds (sh s') = open_fds (sh s)"
    by (auto simp: app_worker_def Let_def split: if_splits)
  show "excd_th (sh s') = excd_th (sh s)" "open_fds (sh s') = open_fds (sh s)" by (rule rest)+
  obtain R where R: "serving (sh s) = served_fd (workers (sh s) ! i) \<union> R"
    "\<And>p x. workers p = (workers (sh s))[i := x] \<Longrightarrow> serving p = served_fd x \<union> R" using serving_upd [OF i] by blast
  obtain C where C: "closing (sh s) = closing_fd (workers (sh s) ! i) \<union> C"
    "\<And>p x. workers p = (workers (sh s))[i := x] \<Longrightarrow> closing p = closing_fd x \<union> C" using closing_upd [OF i] by blast
  show "serving (sh s') = serving (sh s)" "closing (sh s') = insert (fd rq) (closing (sh s))"
    using R(1) R(2) [OF s'] C(1) C(2) [OF s'] by (auto simp: assms(2))
qed

end
