(* ===== verification/Program_Inv.thy ===== *)
theory Program_Inv
  imports Program
begin

text \<open>
  The invariant of the running program and its preservation by every step: the data map represents the
  abstract store after the requests served so far, every connection was sent the replies to its own
  requests (and the parse error message when its client closed inside a request), or only the denier's
  message, and each open file descriptor has a connection of its own.
\<close>

section \<open>The invariant\<close>

text \<open>The abstract store after the requests served so far, and the replies a session got.\<close>

definition store_of :: "(nat \<Rightarrow> env) \<Rightarrow> conf_entry list \<Rightarrow> program \<Rightarrow> db" where
  "store_of envs es p = snd (serve_all envs es 0 (map snd (history p)) Map.empty)"

definition replied :: "(nat \<Rightarrow> env) \<Rightarrow> conf_entry list \<Rightarrow> nat \<Rightarrow> program \<Rightarrow> string" where
  "replied envs es j p = replies_to j (history p) (replies envs es 0 (map snd (history p)) Map.empty)"

text \<open>The requests that clients send, and what is assumed of the environment.\<close>

definition sendable :: "(nat \<Rightarrow> env) \<Rightarrow> conf_entry list \<Rightarrow> node \<Rightarrow> bool" where
  "sendable envs es req \<longleftrightarrow> plain req \<and> (\<forall>k. servable (envs k) es req)"

definition envs_ok :: "(nat \<Rightarrow> env) \<Rightarrow> string \<Rightarrow> bool" where
  "envs_ok envs nl \<longleftrightarrow> NUL \<notin> set nl \<and> (\<forall>k. fnmatch_casefold (env_fnmatch (envs k)) \<and>
     realloc_keys (env_alloc (envs k)) \<and> realloc_values (env_alloc (envs k)))"

definition maps_inv :: "(nat \<Rightarrow> env) \<Rightarrow> conf_entry list \<Rightarrow> data_map \<Rightarrow> program \<Rightarrow> bool" where
  "maps_inv envs es cfg p \<longleftrightarrow>
     (\<exists>sm. globals p = \<lparr>arg_sm = Some sm, arg_config_dict = Some cfg\<rparr> \<and> db_rep sm (store_of envs es p) \<and>
        capacity sm \<le> max 1 (2 * int (length (history p)))) \<and>
     card (dom (store_of envs es p)) \<le> length (history p)"

text \<open>Every open file descriptor has a connection of its own.\<close>

definition sessions_inv :: "program \<Rightarrow> bool" where
  "sessions_inv p \<longleftrightarrow>
     inj_on (session_of p) (open_fds (sh (srv p))) \<and> (\<forall>f\<in>open_fds (sh (srv p)). session_of p f < length (conns p)) \<and>
     (\<forall>h\<in>set (history p). fst h < length (conns p))"

text \<open>What a connection was sent: the denier's message, or the replies to its own requests and, when its
  client has closed in the middle of a request and a worker has found that, the parse error message.\<close>

definition due :: "(nat \<Rightarrow> env) \<Rightarrow> conf_entry list \<Rightarrow> nat \<Rightarrow> program \<Rightarrow> string" where
  "due envs es j p =
     (let c = conns p ! j in
      if c_denied c then TIMEOUT_MSG @ [NUL]
      else replied envs es j p @ (if c_done c \<and> c_tail c \<noteq> [] then PARSE_ERROR_MSG @ [NUL] else []))"

text \<open>What a connection got and what is still to be read.\<close>

definition conn_ok :: "(nat \<Rightarrow> env) \<Rightarrow> conf_entry list \<Rightarrow> program \<Rightarrow> nat \<Rightarrow> bool" where
  "conn_ok envs es p j \<longleftrightarrow>
     (let c = conns p ! j in
      (\<not> c_done c \<longrightarrow>
         rx (c_sock c) @ rx_bytes (c_coming c) = rx_bytes (concat (map resp (c_script c)) @ c_tail c)) \<and>
      (\<not> c_open c \<longrightarrow> c_coming c = []) \<and> tx (c_sock c) = [] \<and>
      list_all (sendable envs es) (c_script c) \<and> cut_off (sendable envs es) (c_tail c) \<and>
      sent (c_sock c) = due envs es j p \<and>
      c_reqs c = map snd (filter (\<lambda>h. fst h = j) (history p)) @ c_script c \<and>
      (c_done c \<longrightarrow> c_script c = []) \<and> (c_denied c \<longrightarrow> j \<notin> fst ` set (history p)) \<and>
      (j \<notin> session_of p ` open_fds (sh (srv p)) \<longrightarrow> c_done c \<or> c_denied c))"

text \<open>An open connection that was served or is about to be closed is in the right hands.\<close>

definition open_ok :: "program \<Rightarrow> int \<Rightarrow> bool" where
  "open_ok p f \<longleftrightarrow>
     (let j = session_of p f; c = conns p ! j; s = sh (srv p) in
      (j \<in> fst ` set (history p) \<longrightarrow> f \<in> serving s) \<and> (c_denied c \<longleftrightarrow> f \<in> denied_fd (excd_th s)) \<and>
      (f \<in> closing s \<longleftrightarrow> c_done c))"

definition program_inv :: "(nat \<Rightarrow> env) \<Rightarrow> conf_entry list \<Rightarrow> data_map \<Rightarrow> program \<Rightarrow> bool" where
  "program_inv envs es cfg p \<longleftrightarrow>
     maps_inv envs es cfg p \<and> sessions_inv p \<and> (\<forall>j<length (conns p). conn_ok envs es p j) \<and>
     (\<forall>f\<in>open_fds (sh (srv p)). open_ok p f)"

lemma inv_start:
  assumes "config_ok cfg es" "open_fds (sh s) = {}" "db_rep sm Map.empty" "capacity sm \<le> 1"
  shows "program_inv envs es cfg (start_program \<lparr>arg_sm = Some sm, arg_config_dict = Some cfg\<rparr> s)"
  using assms
  by (auto simp: program_inv_def maps_inv_def sessions_inv_def start_program_def store_of_def)

lemma inv_quiet:
  assumes inv: "program_inv envs es cfg p" and q: "quiet (sh (srv p)) (sh s)"
  shows "program_inv envs es cfg (p\<lparr>srv := s\<rparr>)"
proof -
  have ses: "sessions_inv p" using inv by (simp add: program_inv_def)
  have "sessions_inv (p\<lparr>srv := s\<rparr>)"
    using ses q by (auto simp: sessions_inv_def quiet_def intro: inj_on_subset)
  moreover have "open_ok (p\<lparr>srv := s\<rparr>) f" if "f \<in> open_fds (sh s)" for f
  proof -
    have "open_ok p f" using inv q that by (auto simp: program_inv_def quiet_def)
    moreover have "f \<in> denied_fd (excd_th (sh s)) \<longleftrightarrow> f \<in> denied_fd (excd_th (sh (srv p)))"
      "f \<in> serving (sh (srv p)) \<Longrightarrow> f \<in> serving (sh s)" "f \<in> closing (sh s) \<longleftrightarrow> f \<in> closing (sh (srv p))"
      using q that by (auto simp: quiet_def)
    ultimately show ?thesis by (simp add: open_ok_def Let_def)
  qed
  moreover have "conn_ok envs es (p\<lparr>srv := s\<rparr>) j" if "j < length (conns p)" for j
  proof -
    have ok: "conn_ok envs es p j" using inv that by (simp add: program_inv_def)
    have "c_done (conns p ! j) \<or> c_denied (conns p ! j)" if "j \<notin> session_of p ` open_fds (sh s)"
    proof (cases "j \<in> session_of p ` open_fds (sh (srv p))")
      case True
      then obtain f where f: "j = session_of p f" "f \<in> open_fds (sh (srv p))" by blast
      with that q have "f \<in> closing (sh (srv p)) \<union> denied_fd (excd_th (sh (srv p)))" by (auto simp: quiet_def)
      moreover have "open_ok p f" using inv f(2) by (simp add: program_inv_def)
      ultimately show ?thesis using f(1) by (auto simp: open_ok_def Let_def)
    qed (use ok in \<open>simp add: conn_ok_def Let_def\<close>)
    with ok show ?thesis by (simp add: conn_ok_def Let_def due_def replied_def)
  qed
  ultimately show ?thesis
    using inv by (simp add: program_inv_def maps_inv_def store_of_def)
qed

lemma inv_connect:
  assumes inv: "program_inv envs es cfg p" and step: "connect f reqs tail p = Some (Ret p')"
    and reqs: "list_all (sendable envs es) reqs" "cut_off (sendable envs es) tail" and closed: "denied_fd (excd_th (sh (srv p))) \<subseteq> open_fds (sh (srv p))"
    "closing (sh (srv p)) \<subseteq> open_fds (sh (srv p))"
  shows "program_inv envs es cfg p'"
proof -
  from step obtain s where s: "accept_client f (srv p) = Some (Ret s)"
    and p': "p' = p\<lparr>srv := s, conns := conns p @ [client_conn reqs tail], session_of := (session_of p)(f := length (conns p))\<rparr>"
    by (auto simp: connect_def obind_Ret_iff split: option.splits)
  have sh: "f \<notin> open_fds (sh (srv p))" "open_fds (sh s) = insert f (open_fds (sh (srv p)))"
    "workers (sh s) = workers (sh (srv p))" "excd_th (sh s) = excd_th (sh (srv p))"
    using s by (auto simp: accept_client_def Let_def split: if_splits)
  have same: "serving (sh s) = serving (sh (srv p))" "closing (sh s) = closing (sh (srv p))"
    using sh(3) by (simp_all add: serving_def closing_def)
  have ses: "sessions_inv p" using inv by (simp add: program_inv_def)
  then have fresh: "\<And>h. h \<in> set (history p) \<Longrightarrow> fst h < length (conns p)"
    "\<And>g. g \<in> open_fds (sh (srv p)) \<Longrightarrow> session_of p g < length (conns p)" by (auto simp: sessions_inv_def)
  then have new: "length (conns p) \<notin> fst ` set (history p)" by fastforce
  have keep: "session_of p' ` open_fds (sh (srv p')) = insert (length (conns p)) (session_of p ` open_fds (sh (srv p)))"
    using sh(1,2) by (auto simp: p' image_iff)
  have "sessions_inv p'"
    using ses sh(1,2) fresh by (fastforce simp: sessions_inv_def p' inj_on_def less_Suc_eq)
  moreover have "open_ok p' g" if "g \<in> open_fds (sh (srv p'))" for g
  proof (cases "g = f")
    case True
    with new closed sh(1,4) same show ?thesis by (auto simp: open_ok_def p' client_conn_def)
  next
    case False
    with that sh(2) have "g \<in> open_fds (sh (srv p))" by (auto simp: p')
    with inv fresh(2) [OF this] False sh same show ?thesis
      by (auto simp: program_inv_def open_ok_def p' Let_def nth_append)
  qed
  moreover have "conn_ok envs es p' j" if j: "j < length (conns p')" for j
  proof (cases "j = length (conns p)")
    case True
    have "filter (\<lambda>h. fst h = length (conns p)) (history p) = []" using new by (force simp: filter_empty_conv)
    then show ?thesis
      using True new reqs keep by (auto simp: conn_ok_def p' due_def replied_def replies_to_none client_conn_def)
  next
    case False
    with j inv have "conn_ok envs es p j" "j < length (conns p)" by (auto simp: program_inv_def p')
    then show ?thesis unfolding conn_ok_def keep by (auto simp: p' nth_append due_def replied_def Let_def)
  qed
  ultimately show ?thesis using inv by (auto simp: program_inv_def maps_inv_def store_of_def p')
qed

text \<open>A worker serves a request.\<close>

lemma turn_maps:
  assumes maps: "maps_inv envs es cfg p" and conn: "rx s = rx_bytes (resp req) @ evs" "tx s = []"
    and env: "envs_ok envs nl" "config_ok cfg es" "sendable envs es req" "4 * int (length (history p)) + 2 \<le> INT_MAX"
  obtains sm' where
    "app_iter (envs (length (history p))) nl (globals p) s = Ret (Turn,
       s\<lparr>rx := evs, sent := sent s @ wire (fst (serve (envs (length (history p))) es req (store_of envs es p)))\<rparr>,
       \<lparr>arg_sm = Some sm', arg_config_dict = Some cfg\<rparr>)"
    "\<forall>p'. map snd (history p') = map snd (history p) @ [req] \<longrightarrow>
       globals p' = \<lparr>arg_sm = Some sm', arg_config_dict = Some cfg\<rparr> \<longrightarrow> maps_inv envs es cfg p'"
proof -
  let ?n = "length (history p)" and ?d = "store_of envs es p"
  let ?e = "envs ?n"
  from maps obtain sm where sm: "globals p = \<lparr>arg_sm = Some sm, arg_config_dict = Some cfg\<rparr>" "db_rep sm ?d"
    "capacity sm \<le> max 1 (2 * int ?n)" and card: "card (dom ?d) \<le> ?n" by (auto simp: maps_inv_def)
  have e: "fnmatch_casefold (env_fnmatch ?e)" "NUL \<notin> set nl" "servable ?e es req" "plain req" "room (env_alloc ?e) sm"
    using env sm(3) by (auto simp: envs_ok_def sendable_def room_def max_def split: if_splits)
  obtain sm' where it: "app_iter ?e nl (globals p) s = Ret (Turn, s\<lparr>rx := evs, sent := sent s @ wire (fst (serve ?e es req ?d))\<rparr>,
      \<lparr>arg_sm = Some sm', arg_config_dict = Some cfg\<rparr>)"
    "db_rep sm' (snd (serve ?e es req ?d))" "capacity sm' \<le> max (capacity sm) (2 * int (card (dom ?d)))"
    using app_turn [OF sm(2) env(2) e conn] sm(1) by auto
  have "maps_inv envs es cfg p'" if p': "map snd (history p') = map snd (history p) @ [req]"
    "globals p' = \<lparr>arg_sm = Some sm', arg_config_dict = Some cfg\<rparr>" for p'
  proof -
    have len: "length (history p') = Suc ?n" using arg_cong [OF p'(1), of length] by simp
    have store: "store_of envs es p' = snd (serve ?e es req ?d)"
      unfolding store_of_def p'(1) by (simp add: serve_all_snoc)
    have "card (dom (snd (serve ?e es req ?d))) \<le> Suc ?n"
      using serve_card [OF db_finite [OF sm(2)], of ?e es req] card by linarith
    moreover have "capacity sm' \<le> max 1 (2 * int (Suc ?n))" using it(3) sm(3) card by (auto simp: max_def split: if_splits)
    ultimately show ?thesis using it(2) len p'(2) store by (auto simp: maps_inv_def)
  qed
  with that it(1) show ?thesis by blast
qed

text \<open>The other connections do not notice.\<close>

lemma conn_other:
  assumes "conn_ok envs es p i" "i \<noteq> j" "conns p' ! i = conns p ! i" "session_of p' = session_of p"
    "open_fds (sh (srv p')) = open_fds (sh (srv p))" "history p' = history p \<or> history p' = history p @ [(j, req)]"
  shows "conn_ok envs es p' i"
proof -
  have "replied envs es i p' = replied envs es i p"
    using assms(2,6) by (auto simp: replied_def replies_snoc replies_to_snoc)
  moreover have "filter (\<lambda>h. fst h = i) (history p') = filter (\<lambda>h. fst h = i) (history p)"
    "i \<in> fst ` set (history p') \<longleftrightarrow> i \<in> fst ` set (history p)" using assms(2,6) by auto
  ultimately show ?thesis using assms(1) unfolding conn_ok_def due_def assms(3-5) by (auto simp: Let_def)
qed

text \<open>An update of the connection behind an open file descriptor.\<close>

lemma inv_put:
  assumes inv: "program_inv envs es cfg p" and f: "f \<in> open_fds (sh (srv p))" "j = session_of p f"
    and p': "session_of p' = session_of p" "open_fds (sh (srv p')) = open_fds (sh (srv p))"
      "conns p' = (conns p)[j := c]" "history p' = history p \<or> history p' = history p @ [(j, req)]"
    and maps: "maps_inv envs es cfg p'" and conn: "conn_ok envs es p' j" and own: "open_ok p' f"
    and other: "\<And>g. g \<noteq> f \<Longrightarrow> g \<in> serving (sh (srv p)) \<Longrightarrow> g \<in> serving (sh (srv p'))"
      "\<And>g. g \<noteq> f \<Longrightarrow> g \<in> denied_fd (excd_th (sh (srv p'))) \<longleftrightarrow> g \<in> denied_fd (excd_th (sh (srv p)))"
      "\<And>g. g \<noteq> f \<Longrightarrow> g \<in> closing (sh (srv p')) \<longleftrightarrow> g \<in> closing (sh (srv p))"
  shows "program_inv envs es cfg p'"
proof -
  have ses: "sessions_inv p" using inv by (simp add: program_inv_def)
  then have j: "j < length (conns p)" using f by (simp add: sessions_inv_def)
  have "sessions_inv p'"
    using ses p'(4) j unfolding sessions_inv_def p'(1-3) by auto
  moreover have "conn_ok envs es p' i" if "i < length (conns p')" for i
  proof (cases "i = j")
    case False
    have "conn_ok envs es p i" using inv that by (simp add: program_inv_def p'(3))
    from conn_other [OF this False _ p'(1,2,4)] False show ?thesis by (simp add: p'(3))
  qed (use conn in simp)
  moreover have "open_ok p' g" if g: "g \<in> open_fds (sh (srv p'))" for g
  proof (cases "g = f")
    case False
    then have ne: "session_of p g \<noteq> j" using ses f g by (auto simp: sessions_inv_def p'(2) dest: inj_onD)
    moreover have "open_ok p g" using inv g by (simp add: program_inv_def p'(2))
    moreover have "session_of p g \<in> fst ` set (history p') \<longleftrightarrow> session_of p g \<in> fst ` set (history p)"
      using ne p'(4) by auto
    ultimately show ?thesis using other [OF False] by (auto simp: open_ok_def p'(1,3) Let_def)
  qed (use own in simp)
  ultimately show ?thesis using maps by (simp add: program_inv_def)
qed

text \<open>Bytes arrive, and clients close.\<close>

lemma inv_client:
  assumes inv: "program_inv envs es cfg p" and j: "j < length (conns p)" "c = conns p ! j"
    and c': "c_reqs c' = c_reqs c" "c_script c' = c_script c" "c_tail c' = c_tail c" "c_denied c' = c_denied c"
      "c_done c' = c_done c" "tx (c_sock c') = tx (c_sock c)" "sent (c_sock c') = sent (c_sock c)"
      "rx (c_sock c') @ rx_bytes (c_coming c') = rx (c_sock c) @ rx_bytes (c_coming c)"
      "\<not> c_open c' \<longrightarrow> c_coming c' = []"
  shows "program_inv envs es cfg (put_conn j c' p)"
proof -
  let ?p = "put_conn j c' p"
  have p: "srv ?p = srv p" "session_of ?p = session_of p" "history ?p = history p" "conns ?p = (conns p)[j := c']"
    by (simp_all add: put_conn_def)
  have "maps_inv envs es cfg ?p" using inv by (simp add: program_inv_def maps_inv_def store_of_def put_conn_def)
  moreover have "sessions_inv ?p" using inv by (simp add: program_inv_def sessions_inv_def p)
  moreover have "conn_ok envs es ?p i" if "i < length (conns ?p)" for i
  proof (cases "i = j")
    case True
    have "conn_ok envs es p j" using inv j(1) by (simp add: program_inv_def)
    then show ?thesis
      using j(1) c' by (simp add: True conn_ok_def due_def replied_def p j(2) [symmetric] Let_def)
  next
    case False
    with that inv have "conn_ok envs es p i" by (simp add: program_inv_def p)
    then show ?thesis by (rule conn_other [OF _ False]) (use False in \<open>simp_all add: p\<close>)
  qed
  moreover have "open_ok ?p f" if "f \<in> open_fds (sh (srv ?p))" for f
  proof -
    have "open_ok p f" using inv that by (simp add: program_inv_def p)
    then show ?thesis
      using j(1) c' by (cases "session_of p f = j") (simp_all add: open_ok_def p Let_def j(2) [symmetric])
  qed
  ultimately show ?thesis by (simp add: program_inv_def)
qed

lemma inv_arrive:
  assumes inv: "program_inv envs es cfg p" and step: "arrive j n p = Some (Ret p')"
  shows "program_inv envs es cfg p'"
proof -
  let ?c = "conns p ! j"
  let ?c' = "?c\<lparr>c_sock := (c_sock ?c)\<lparr>rx := rx (c_sock ?c) @ rx_bytes (take n (c_coming ?c))\<rparr>, c_coming := drop n (c_coming ?c)\<rparr>"
  from step have j: "j < length (conns p)" and p': "p' = put_conn j ?c' p"
    by (auto simp: arrive_def Let_def split: if_splits)
  have "conn_ok envs es p j" using inv j by (simp add: program_inv_def)
  then have "\<not> c_open ?c \<longrightarrow> c_coming ?c = []" by (simp add: conn_ok_def Let_def)
  moreover have "rx_bytes (take n (c_coming ?c)) @ rx_bytes (drop n (c_coming ?c)) = rx_bytes (c_coming ?c)"
    unfolding map_append [symmetric] append_take_drop_id ..
  ultimately show ?thesis unfolding p' by (intro inv_client [OF inv j refl]) simp_all
qed

lemma inv_hang_up:
  assumes inv: "program_inv envs es cfg p" and step: "hang_up j p = Some (Ret p')"
  shows "program_inv envs es cfg p'"
proof -
  from step have j: "j < length (conns p)" "c_coming (conns p ! j) = []"
    and p': "p' = put_conn j ((conns p ! j)\<lparr>c_open := False\<rparr>) p"
    by (auto simp: hang_up_def Let_def split: if_splits)
  show ?thesis unfolding p' by (intro inv_client [OF inv j(1) refl]) (simp_all add: j(2))
qed

text \<open>When a worker is not blocked, the next request has arrived, or the client has closed after all of them.\<close>

lemma sendable_array: "sendable envs es req \<Longrightarrow> \<exists>ns n. req = ArrayNode ns n \<and> plain req"
  unfolding sendable_def by (metis servableE)

lemma bytes_append:
  assumes "evs @ rx_bytes v = rx_bytes x"
  obtains u where "evs = rx_bytes u" "u @ v = x"
proof -
  from assms obtain u w where "x = u @ w" "evs = rx_bytes u" "rx_bytes v = rx_bytes w"
    by (metis map_eq_append_conv)
  moreover from this(3) have "v = w" by (simp add: inj_map_eq_map inj_on_def)
  ultimately show ?thesis using that by blast
qed

lemma not_waiting_request:
  assumes ok: "conn_ok envs es p j" and c: "c = conns p ! j" "\<not> c_done c" "c_script c = req # reqs"
    and free: "\<not> (c_open c \<and> awaits (c_sock c))"
  obtains u where "rx (c_sock c) = rx_bytes (resp req) @ rx_bytes u"
    "u @ c_coming c = concat (map resp reqs) @ c_tail c"
proof -
  from ok c have eq: "rx (c_sock c) @ rx_bytes (c_coming c) = rx_bytes (resp req @ concat (map resp reqs) @ c_tail c)"
    and closed: "\<not> c_open c \<longrightarrow> c_coming c = []" and snd: "sendable envs es req"
    by (auto simp: conn_ok_def Let_def)
  obtain u where u: "rx (c_sock c) = rx_bytes u" "u @ c_coming c = resp req @ concat (map resp reqs) @ c_tail c"
    using bytes_append [OF eq] .
  have "prefix (resp req) u"
  proof (rule ccontr)
    assume no: "\<not> prefix (resp req) u"
    have "prefix u (resp req @ concat (map resp reqs) @ c_tail c)" unfolding u(2) [symmetric] by simp
    moreover have "prefix (resp req) (resp req @ concat (map resp reqs) @ c_tail c)" by simp
    ultimately have "prefix u (resp req)" using no prefix_same_cases by blast
    with no have part: "strict_prefix u (resp req)" by (auto simp: strict_prefix_def)
    obtain ns n where "req = ArrayNode ns n" "plain req" using sendable_array [OF snd] by blast
    with part u(1) have "awaits (c_sock c)" using request_awaited by blast
    moreover have "c_coming c \<noteq> []" using u(2) no by (metis append_Nil2 prefixI)
    ultimately show False using free closed by blast
  qed
  then obtain v where "u = resp req @ v" by (auto simp: prefix_def)
  with u that show ?thesis by simp
qed

lemma not_waiting_end:
  assumes ok: "conn_ok envs es p j" and c: "c = conns p ! j" "\<not> c_done c" "c_script c = []"
    and free: "\<not> (c_open c \<and> awaits (c_sock c))"
  shows "rx (c_sock c) = rx_bytes (c_tail c)" "\<not> c_open c"
proof -
  from ok c have eq: "rx (c_sock c) @ rx_bytes (c_coming c) = rx_bytes (c_tail c)"
    and closed: "\<not> c_open c \<longrightarrow> c_coming c = []" and cut: "cut_off (sendable envs es) (c_tail c)"
    by (auto simp: conn_ok_def Let_def)
  obtain u where u: "rx (c_sock c) = rx_bytes u" "u @ c_coming c = c_tail c" using bytes_append [OF eq] .
  have "awaits (c_sock c)"
  proof (cases "c_tail c = []")
    case True
    with u show ?thesis by (intro awaits_empty) simp
  next
    case False
    with cut obtain req where req: "sendable envs es req" "strict_prefix (c_tail c) (resp req)" by (auto simp: cut_off_def)
    then obtain ns n where "req = ArrayNode ns n" "plain req" using sendable_array by blast
    moreover have "strict_prefix u (resp req)"
      using req(2) u(2) by (metis prefixI prefix_order.le_less_trans)
    ultimately show ?thesis using u(1) request_awaited by blast
  qed
  with free show "\<not> c_open c" by simp
  with closed eq show "rx (c_sock c) = rx_bytes (c_tail c)" by simp
qed

lemma inv_turn:
  assumes inv: "program_inv envs es cfg p" and env: "envs_ok envs nl" "config_ok cfg es"
      "4 * int (length (history p)) + 2 \<le> INT_MAX"
    and f: "f \<in> open_fds (sh (srv p))" "f \<in> serving (sh (srv p))" "f \<notin> denied_fd (excd_th (sh (srv p)))"
    and c: "j = session_of p f" "c = conns p ! j" "c_script c = req # reqs"
    and free: "\<not> (c_open c \<and> awaits (c_sock c))"
  obtains s' g' u where "app_iter (envs (length (history p))) nl (globals p) (c_sock c) = Ret (Turn, s', g')"
    "program_inv envs es cfg ((put_conn j (c\<lparr>c_sock := s', c_script := reqs\<rparr>) (p\<lparr>globals := g'\<rparr>))
      \<lparr>history := history p @ [(j, req)]\<rparr>)"
    "rx s' = rx_bytes u" "u @ c_coming c = concat (map resp reqs) @ c_tail c"
proof -
  have parts: "maps_inv envs es cfg p" "sessions_inv p" "open_ok p f" "j < length (conns p)" "conn_ok envs es p j"
    using inv f(1) by (auto simp: program_inv_def sessions_inv_def c(1))
  have nd: "\<not> c_denied c" using parts(3) f(3) by (simp add: open_ok_def c(1,2) Let_def)
  have "\<not> c_done c" using parts(5) c(3) by (auto simp: conn_ok_def c(2) [symmetric] Let_def)
  note nd = nd this
  obtain u where u: "rx (c_sock c) = rx_bytes (resp req) @ rx_bytes u" "u @ c_coming c = concat (map resp reqs) @ c_tail c"
    using not_waiting_request [OF parts(5) c(2) nd(2) c(3) free] .
  have bytes: "rx_bytes u @ rx_bytes (c_coming c) = rx_bytes (concat (map resp reqs) @ c_tail c)"
    unfolding map_append [symmetric] u(2) ..
  from parts(5) c(3) have sock: "tx (c_sock c) = []" "list_all (sendable envs es) (req # reqs)"
    by (auto simp: conn_ok_def c(2) [symmetric] Let_def)
  define w where "w = wire (fst (serve (envs (length (history p))) es req (store_of envs es p)))"
  define s' where "s' = (c_sock c)\<lparr>rx := rx_bytes u, sent := sent (c_sock c) @ w\<rparr>"
  have "sendable envs es req" using sock(2) by simp
  from turn_maps [OF parts(1) u(1) sock(1) env(1,2) this env(3)] obtain sm' where
    it: "app_iter (envs (length (history p))) nl (globals p) (c_sock c) =
      Ret (Turn, s', \<lparr>arg_sm = Some sm', arg_config_dict = Some cfg\<rparr>)"
    and maps: "\<forall>p'. map snd (history p') = map snd (history p) @ [req] \<longrightarrow>
       globals p' = \<lparr>arg_sm = Some sm', arg_config_dict = Some cfg\<rparr> \<longrightarrow> maps_inv envs es cfg p'"
    unfolding s'_def w_def by blast
  let ?p = "(put_conn j (c\<lparr>c_sock := s', c_script := reqs\<rparr>) (p\<lparr>globals := \<lparr>arg_sm = Some sm', arg_config_dict = Some cfg\<rparr>\<rparr>))
      \<lparr>history := history p @ [(j, req)]\<rparr>"
  have p: "srv ?p = srv p" "session_of ?p = session_of p" "conns ?p = (conns p)[j := c\<lparr>c_sock := s', c_script := reqs\<rparr>]"
    "history ?p = history p @ [(j, req)]" by (simp_all add: put_conn_def)
  have m: "maps_inv envs es cfg ?p" using maps [rule_format, of ?p] by (simp add: put_conn_def)
  have "replied envs es j ?p = replied envs es j p @ w"
    unfolding replied_def p(4) by (simp add: replies_snoc replies_to_snoc store_of_def w_def)
  moreover have "j \<in> session_of p ` open_fds (sh (srv p))" using c(1) f(1) by blast
  ultimately have "conn_ok envs es ?p j"
    using parts(4,5) nd sock bytes c(3) unfolding conn_ok_def due_def p(1-4) by (simp add: c(2) [symmetric] Let_def s'_def)
  moreover have "open_ok ?p f"
    using parts(3,4) f(2) nd unfolding open_ok_def p(1-4) c(1) [symmetric] by (simp add: c(2) [symmetric] Let_def)
  ultimately have "program_inv envs es cfg ?p"
    using p by (intro inv_put [OF inv f(1) c(1) p(2) _ p(3) _ m]) simp_all
  with that it u(2) show ?thesis by (simp add: s'_def)
qed

text \<open>A worker finds the connection closed by the peer, between two requests or inside one, and leaves
  \<^verbatim>\<open>app_code\<close>.\<close>

lemma stop_iter:
  assumes "rx s = rx_bytes t" "cut_off (sendable envs es) t" "tx s = []"
  obtains s' where "app_iter e nl args s = Ret (Stop, s', args)" "tx s' = []"
    "sent s' = sent s @ (if t \<noteq> [] then PARSE_ERROR_MSG @ [NUL] else [])"
proof (cases "t = []")
  case True
  with assms that [OF app_iter_end] show ?thesis by simp
next
  case False
  with assms(2) obtain req where "sendable envs es req" and t: "strict_prefix t (resp req)" by (auto simp: cut_off_def)
  then obtain ns n where req: "req = ArrayNode ns n" "plain req" using sendable_array by blast
  from app_iter_cut [OF req(2) [unfolded req(1)] t [unfolded req(1)] False assms(1,3), of e nl args]
  have "app_iter e nl args s = Ret (Stop, s\<lparr>rx := [], sent := sent s @ PARSE_ERROR_MSG @ [NUL]\<rparr>, args)" .
  with that False assms(3) show ?thesis by simp
qed

lemma inv_stop:
  assumes inv: "program_inv envs es cfg p"
    and f: "f \<in> open_fds (sh (srv p))" "f \<in> serving (sh (srv p))" "f \<notin> denied_fd (excd_th (sh (srv p)))" "f \<notin> closing (sh (srv p))"
    and c: "j = session_of p f" "c = conns p ! j" "c_script c = []" and free: "\<not> (c_open c \<and> awaits (c_sock c))"
    and s: "excd_th (sh s) = excd_th (sh (srv p))" "open_fds (sh s) = open_fds (sh (srv p))"
      "serving (sh s) = serving (sh (srv p))" "closing (sh s) = insert f (closing (sh (srv p)))"
  obtains s' where "app_iter e nl (globals p) (c_sock c) = Ret (Stop, s', globals p)"
    "program_inv envs es cfg ((put_conn j (c\<lparr>c_sock := s', c_done := True\<rparr>) (p\<lparr>globals := globals p\<rparr>))\<lparr>srv := s\<rparr>)"
proof -
  have parts: "maps_inv envs es cfg p" "open_ok p f" "j < length (conns p)" "conn_ok envs es p j"
    using inv f(1) by (auto simp: program_inv_def sessions_inv_def c(1))
  have nd: "\<not> c_denied c" "\<not> c_done c" using parts(2) f(3,4) by (auto simp: open_ok_def c(1,2) Let_def)
  note rx = not_waiting_end(1) [OF parts(4) c(2) nd(2) c(3) free]
  from parts(4) c(3) have sock: "cut_off (sendable envs es) (c_tail c)" "tx (c_sock c) = []"
    by (auto simp: conn_ok_def c(2) [symmetric] Let_def)
  obtain s' where s': "app_iter e nl (globals p) (c_sock c) = Ret (Stop, s', globals p)" "tx s' = []"
    "sent s' = sent (c_sock c) @ (if c_tail c \<noteq> [] then PARSE_ERROR_MSG @ [NUL] else [])"
    using stop_iter [OF rx sock] by blast
  let ?p = "(put_conn j (c\<lparr>c_sock := s', c_done := True\<rparr>) (p\<lparr>globals := globals p\<rparr>))\<lparr>srv := s\<rparr>"
  have p: "srv ?p = s" "session_of ?p = session_of p" "history ?p = history p"
    "conns ?p = (conns p)[j := c\<lparr>c_sock := s', c_done := True\<rparr>]" by (simp_all add: put_conn_def)
  have m: "maps_inv envs es cfg ?p" using parts(1) by (simp add: maps_inv_def store_of_def put_conn_def)
  have "conn_ok envs es ?p j"
    using parts(3,4) nd c(3) s(2) s'(2,3) unfolding conn_ok_def due_def p replied_def
    by (simp add: c(2) [symmetric] Let_def)
  moreover have "open_ok ?p f"
    using parts(2,3) s(1,4) f(2) unfolding open_ok_def p c(1) [symmetric] by (simp add: c(2) [symmetric] s(3) Let_def)
  ultimately have "program_inv envs es cfg ?p"
    using s by (intro inv_put [OF inv f(1) c(1) p(2) _ p(4) disjI1 [OF p(3)] m]) (auto simp: p(1))
  with that s'(1) show ?thesis by blast
qed

text \<open>The denier answers a connection.\<close>

lemma closing_serving: "closing s \<subseteq> serving s"
proof -
  have "closing_fd w \<subseteq> served_fd w" for w by (cases w) auto
  then show ?thesis by (auto simp: serving_def closing_def)
qed

lemma inv_deny:
  assumes inv: "program_inv envs es cfg p" and d: "excd_th (sh (srv p)) = D_send (Some rq)"
    and f: "fd rq \<in> open_fds (sh (srv p))" "fd rq \<notin> serving (sh (srv p))"
    and c: "j = session_of p (fd rq)" "c = conns p ! j"
    and s: "workers (sh s) = workers (sh (srv p))" "open_fds (sh s) = open_fds (sh (srv p))" "excd_th (sh s) = D_close rq"
  obtains r s' where "send_resp_to_clnt (TIMEOUT_MSG @ [NUL]) 3 1000 (c_sock c) = Ret (r, s')"
    "program_inv envs es cfg ((put_conn j (c\<lparr>c_sock := s', c_denied := True\<rparr>) p)\<lparr>srv := s\<rparr>)"
proof -
  have parts: "maps_inv envs es cfg p" "open_ok p (fd rq)" "j < length (conns p)" "conn_ok envs es p j"
    using inv f(1) by (auto simp: program_inv_def sessions_inv_def c(1))
  have none: "j \<notin> fst ` set (history p)" "\<not> c_denied c" "\<not> c_done c"
    using parts(2) f(2) d closing_serving [of "sh (srv p)"] by (auto simp: open_ok_def c Let_def)
  define s' where "s' = (c_sock c)\<lparr>sent := sent (c_sock c) @ TIMEOUT_MSG @ [NUL]\<rparr>"
  have c_ok: "tx (c_sock c) = []" "sent (c_sock c) = []"
    using parts(4) none by (simp_all add: conn_ok_def c(2) [symmetric] Let_def due_def replied_def replies_to_none)
  then have sd: "send_resp_to_clnt (TIMEOUT_MSG @ [NUL]) 3 1000 (c_sock c) = Ret (int (length (TIMEOUT_MSG @ [NUL])), s')"
    by (simp add: send_resp_to_clnt_def send_def s'_def)
  let ?p = "(put_conn j (c\<lparr>c_sock := s', c_denied := True\<rparr>) p)\<lparr>srv := s\<rparr>"
  have p: "srv ?p = s" "session_of ?p = session_of p" "history ?p = history p"
    "conns ?p = (conns p)[j := c\<lparr>c_sock := s', c_denied := True\<rparr>]" by (simp_all add: put_conn_def)
  have same: "serving (sh s) = serving (sh (srv p))" "closing (sh s) = closing (sh (srv p))"
    using s(1) by (simp_all add: serving_def closing_def)
  have m: "maps_inv envs es cfg ?p" using parts(1) by (simp add: maps_inv_def store_of_def put_conn_def)
  have "conn_ok envs es ?p j"
    using parts(3,4) none c_ok unfolding conn_ok_def due_def p by (simp add: c(2) [symmetric] Let_def s'_def)
  moreover have "open_ok ?p (fd rq)"
    using parts(2,3) none s(3) same unfolding open_ok_def p c(1) [symmetric] by (simp add: c(2) [symmetric] Let_def)
  ultimately have "program_inv envs es cfg ?p"
    using s(2,3) d same by (intro inv_put [OF inv f(1) c(1) p(2) _ p(4) disjI1 [OF p(3)] m]) (auto simp: p(1))
  with that sd show ?thesis by blast
qed

section \<open>All reachable states\<close>

lemma program_history:
  assumes "program_step envs nl a p = Some (Ret p')"
  shows "length (history p) \<le> length (history p')"
proof -
  have st: "server_turn x p = Some (Ret p') \<Longrightarrow> ?thesis" for x
    by (auto simp: server_turn_def obind_Ret_iff split: option.splits)
  have dt: "deny_turn rq x p = Some (Ret p') \<Longrightarrow> ?thesis" for rq x
    by (auto simp: deny_turn_def put_conn_def Let_def obind_Ret_iff split: option.splits)
  have wt: "worker_turn envs nl rq x p = Some (Ret p') \<Longrightarrow> ?thesis" for rq x
    by (auto simp: worker_turn_def put_conn_def Let_def obind_Ret_iff split: option.splits if_splits turn.splits)
      (metis turn.exhaust)
  show ?thesis
  proof (cases a)
    case (Connect f reqs tail)
    with assms show ?thesis by (auto simp: connect_def obind_Ret_iff split: option.splits)
  next
    case (Thread b)
    with assms show ?thesis
      by (cases b) (auto simp: Let_def simp del: exec.simps
        split: if_splits worker_pc.splits excd_pc.splits option.splits intro: st wt dt)
  qed (use assms in \<open>auto simp: arrive_def hang_up_def put_conn_def Let_def split: if_splits\<close>)
qed

text \<open>What the denier or a worker is about to close is open, and no worker shares a connection with the
  denier.\<close>

lemma served_holds: "f \<in> served_fd w \<Longrightarrow> \<exists>rq. f = fd rq \<and> worker_holds w = {#rq#}"
  by (cases w) auto

lemma holders:
  assumes "server_state b pend n now mx rt s" "f \<in> serving (sh s)"
  shows "f \<in> open_fds (sh s) \<and> (\<forall>rq. excd_holds (excd_th (sh s)) = {#rq#} \<longrightarrow> fd rq \<noteq> f)"
proof -
  from assms(2) obtain w where "w \<in> set (workers (sh s))" "f \<in> served_fd w" by (auto simp: serving_def)
  then obtain i r where i: "i < length (workers (sh s))" "f = fd r" "worker_holds (workers (sh s) ! i) = {#r#}"
    by (metis in_set_conv_nth served_holds)
  from held_worker [OF i(1)] i(3) have sub: "{#r#} + excd_holds (excd_th (sh s)) \<subseteq># held (sh s)" by simp
  then have "{#r#} \<subseteq># held (sh s)" by (rule mset_subset_eq_add_left [THEN subset_mset.order_trans])
  with holder_open [OF assms(1), of r] i(2) have "f \<in> open_fds (sh s)" by simp
  moreover have "fd rq \<noteq> f" if "excd_holds (excd_th (sh s)) = {#rq#}" for rq
    using holders_differ [OF assms(1), of rq r] sub that i(2) by simp
  ultimately show ?thesis by blast
qed

lemma about_to_close:
  assumes "server_state b pend n now mx rt s"
  shows "denied_fd (excd_th (sh s)) \<subseteq> open_fds (sh s)" "closing (sh s) \<subseteq> open_fds (sh s)"
    "serving (sh s) \<inter> denied_fd (excd_th (sh s)) = {}" "serving (sh s) \<subseteq> open_fds (sh s)"
proof -
  have "rq \<in># excd_holds (excd_th (sh s)) \<Longrightarrow> rq \<in># held (sh s)" for rq by (simp add: held_def)
  then show "denied_fd (excd_th (sh s)) \<subseteq> open_fds (sh s)"
    using holder_open [OF assms] by (cases "excd_th (sh s)") auto
  show "serving (sh s) \<inter> denied_fd (excd_th (sh s)) = {}"
    using holders [OF assms] by (cases "excd_th (sh s)") auto
  show "serving (sh s) \<subseteq> open_fds (sh s)" using holders [OF assms] by blast
  with closing_serving [of "sh s"] show "closing (sh s) \<subseteq> open_fds (sh s)" by blast
qed

lemma about_to_send:
  assumes "server_state b pend n now mx rt s" "excd_th (sh s) = D_send (Some rq)"
  shows "fd rq \<in> open_fds (sh s)" "fd rq \<notin> serving (sh s)"
proof -
  have "rq \<in># held (sh s)" using assms(2) by (simp add: held_def)
  then show "fd rq \<in> open_fds (sh s)" by (rule holder_open [OF assms(1)])
  show "fd rq \<notin> serving (sh s)" using holders [OF assms(1), of "fd rq"] assms(2) by auto
qed

lemma worker_serves:
  assumes inv: "program_inv envs es cfg p" and env: "envs_ok envs nl" "config_ok cfg es"
      "4 * int (length (history p)) + 2 \<le> INT_MAX"
    and srv: "server_state b pend n now mx rt (srv p)"
    and w: "i < length (workers (sh (srv p)))" "workers (sh (srv p)) ! i = W_func rq"
    and c: "j = session_of p (fd rq)" "c = conns p ! j" "c_script c = req # reqs" and free: "\<not> waits_for_client p rq"
  obtains s' p' u where "program_step envs nl (Thread (Run_Worker i ret)) p = Some (Ret p')" "program_inv envs es cfg p'"
    "srv p' = srv p" "history p' = history p @ [(j, req)]" "session_of p' = session_of p"
    "conns p' = (conns p)[j := c\<lparr>c_sock := s', c_script := reqs\<rparr>]" "rx s' = rx_bytes u"
    "u @ c_coming c = concat (map resp reqs) @ c_tail c"
proof -
  let ?f = "fd rq"
  have serving: "?f \<in> serving (sh (srv p))" using w by (force simp: serving_def set_conv_nth)
  with about_to_close(3,4) [OF srv] have f: "?f \<in> open_fds (sh (srv p))" "?f \<notin> denied_fd (excd_th (sh (srv p)))" by auto
  have nw: "\<not> (c_open c \<and> awaits (c_sock c))" using free by (simp add: waits_for_client_def c(1,2) Let_def)
  from inv_turn [OF inv env f(1) serving f(2) c nw] obtain s' g' u where
    t: "app_iter (envs (length (history p))) nl (globals p) (c_sock c) = Ret (Turn, s', g')"
    "program_inv envs es cfg ((put_conn j (c\<lparr>c_sock := s', c_script := reqs\<rparr>) (p\<lparr>globals := g'\<rparr>))
      \<lparr>history := history p @ [(j, req)]\<rparr>)" "rx s' = rx_bytes u" "u @ c_coming c = concat (map resp reqs) @ c_tail c" .
  have "\<exists>s. app_worker q_deq MAIN_RECV_TIMEOUT True i (srv p) = Some (Ret s)" using w by (simp add: app_worker_def Let_def)
  with w t(1) c free have "program_step envs nl (Thread (Run_Worker i ret)) p =
      Some (Ret ((put_conn j (c\<lparr>c_sock := s', c_script := reqs\<rparr>) (p\<lparr>globals := g'\<rparr>))\<lparr>history := history p @ [(j, req)]\<rparr>))"
    by (auto simp: worker_turn_def Let_def)
  with that t(2-4) show ?thesis by (simp add: put_conn_def)
qed

lemma worker_stops:
  assumes inv: "program_inv envs es cfg p" and srv: "server_state b pend n now MAIN_QUEUE_TIME MAIN_RECV_TIMEOUT (srv p)"
    and w: "i < length (workers (sh (srv p)))" "workers (sh (srv p)) ! i = W_func rq"
    and c: "j = session_of p (fd rq)" "c = conns p ! j" "c_script c = []" and free: "\<not> waits_for_client p rq"
  obtains s' p' where "program_step envs nl (Thread (Run_Worker i ret)) p = Some (Ret p')" "program_inv envs es cfg p'"
    "qexec MAIN_QUEUE_TIME MAIN_RECV_TIMEOUT (Run_Worker i True) (srv p) = Some (Ret (srv p'))"
    "history p' = history p" "session_of p' = session_of p" "conns p' = (conns p)[j := c\<lparr>c_sock := s', c_done := True\<rparr>]"
proof -
  have serving: "fd rq \<in> serving (sh (srv p))" using w by (force simp: serving_def set_conv_nth)
  with about_to_close(3,4) [OF srv] func_not_closing [OF srv w] have
    f: "fd rq \<in> open_fds (sh (srv p))" "fd rq \<notin> denied_fd (excd_th (sh (srv p)))" "fd rq \<notin> closing (sh (srv p))" by auto
  have nw: "\<not> (c_open c \<and> awaits (c_sock c))" using free by (simp add: waits_for_client_def c(1,2) Let_def)
  obtain s where s: "app_worker q_deq MAIN_RECV_TIMEOUT True i (srv p) = Some (Ret s)"
    using w by (auto simp: app_worker_def Let_def)
  obtain s' where it: "app_iter (envs (length (history p))) nl (globals p) (c_sock c) = Ret (Stop, s', globals p)"
    and inv': "program_inv envs es cfg
      ((put_conn j (c\<lparr>c_sock := s', c_done := True\<rparr>) (p\<lparr>globals := globals p\<rparr>))\<lparr>srv := s\<rparr>)"
    using inv_stop [OF inv f(1) serving f(2,3) c nw leave_step [OF s w(2)]] by metis
  have "program_step envs nl (Thread (Run_Worker i ret)) p =
      Some (Ret ((put_conn j (c\<lparr>c_sock := s', c_done := True\<rparr>) (p\<lparr>globals := globals p\<rparr>))\<lparr>srv := s\<rparr>))"
    using w s it c(1,2) free by (simp add: worker_turn_def Let_def)
  from that [OF this inv'] s show ?thesis by (simp add: put_conn_def)
qed

text \<open>The requests that no worker has read yet.\<close>

definition pending :: "program \<Rightarrow> nat" where
  "pending p = sum_list (map (length \<circ> c_script) (conns p))"

lemma pending_upd: "j < length (conns p) \<Longrightarrow> conns p' = (conns p)[j := c] \<Longrightarrow>
    pending p' + length (c_script (conns p ! j)) = pending p + length (c_script c)"
  using sum_list_upd [of j "conns p" "length \<circ> c_script" c] by (simp add: pending_def)

lemma pending_same: "j < length (conns p) \<Longrightarrow> conns p' = (conns p)[j := c] \<Longrightarrow>
    length (c_script c) = length (c_script (conns p ! j)) \<Longrightarrow> pending p' = pending p"
  using pending_upd [of j p p' c] by simp

text \<open>A thread step either serves a request or is a step of the threads that leaves requests alone.\<close>

fun returning :: "action \<Rightarrow> action" where
  "returning (Run_Worker i ret) = Run_Worker i True"
| "returning a = a"

definition step_effect :: "action \<Rightarrow> program \<Rightarrow> program \<Rightarrow> bool" where
  "step_effect a p p' \<longleftrightarrow>
     srv p' = srv p \<and> pending p = Suc (pending p') \<and> length (history p') = Suc (length (history p)) \<or>
     (\<exists>b\<in>{a, returning a}. qexec MAIN_QUEUE_TIME MAIN_RECV_TIMEOUT b (srv p) = Some (Ret (srv p'))) \<and>
       pending p' = pending p \<and> history p' = history p"

lemma inv_sessions: "program_inv envs es cfg p \<Longrightarrow> f \<in> open_fds (sh (srv p)) \<Longrightarrow> session_of p f < length (conns p)"
  by (simp add: program_inv_def sessions_inv_def)

lemma thread_cases:
  assumes x: "qexec MAIN_QUEUE_TIME MAIN_RECV_TIMEOUT b' (srv p) = Some (Ret s)" and b: "\<forall>f. b' \<noteq> Client f"
    and func: "\<forall>i ret rq. b' = Run_Worker i ret \<longrightarrow> workers (sh (srv p)) ! i \<noteq> W_func rq"
  obtains (send) rq where "b' = Run_Excd" "excd_th (sh (srv p)) = D_send (Some rq)"
    | (quiet) "program_step envs nl (Thread b') p = Some (Ret (p\<lparr>srv := s\<rparr>))" "quiet (sh (srv p)) (sh s)"
proof (cases b')
  case (Client f)
  with b show ?thesis by simp
next
  case (Tick t)
  with x show ?thesis by (intro quiet) (auto simp: Let_def server_turn_def intro: quiet_tick)
next
  case (Run_Main k)
  with x show ?thesis by (intro quiet) (auto simp: Let_def server_turn_def intro: quiet_main)
next
  case (Run_Mgr k)
  with x show ?thesis by (intro quiet) (auto simp: Let_def server_turn_def intro: quiet_mgr)
next
  case Run_Excd
  show ?thesis
  proof (cases "\<exists>rq. excd_th (sh (srv p)) = D_send (Some rq)")
    case False
    with x Run_Excd show ?thesis
      by (intro quiet) (auto simp: Let_def server_turn_def intro: quiet_excd split: excd_pc.splits option.splits)
  qed (use send Run_Excd in blast)
next
  case (Run_Worker i ret)
  with x have i: "i < length (workers (sh (srv p)))" by (auto simp: app_worker_def Let_def split: if_splits)
  from func Run_Worker have "\<forall>rq. workers (sh (srv p)) ! i \<noteq> W_func rq" by blast
  with x Run_Worker i show ?thesis
    by (intro quiet) (auto simp: Let_def server_turn_def intro: quiet_worker split: worker_pc.splits)
qed

text \<open>A worker inside \<^verbatim>\<open>app_code\<close> waits for its client, serves a request, or leaves.\<close>

lemma func_step:
  assumes inv: "program_inv envs es cfg p" and env: "envs_ok envs nl" "config_ok cfg es"
      "4 * int (length (history p)) + 2 \<le> INT_MAX"
    and srv: "server_state b pend n now MAIN_QUEUE_TIME MAIN_RECV_TIMEOUT (srv p)"
    and func: "i < length (workers (sh (srv p)))" "workers (sh (srv p)) ! i = W_func rq" and free: "\<not> waits_for_client p rq"
  shows "\<exists>p'. program_step envs nl (Thread (Run_Worker i ret)) p = Some (Ret p') \<and> program_inv envs es cfg p' \<and>
    step_effect (Run_Worker i ret) p p'"
proof -
  let ?j = "session_of p (fd rq)"
  have serving: "fd rq \<in> serving (sh (srv p))" using func by (force simp: serving_def set_conv_nth)
  with about_to_close(4) [OF srv] have f: "fd rq \<in> open_fds (sh (srv p))" by auto
  note j = inv_sessions [OF inv f]
  show ?thesis
  proof (cases "c_script (conns p ! ?j)")
    case Nil
    from worker_stops [where ret = ret, OF inv srv func refl refl Nil free] obtain s' p' where
      p': "program_step envs nl (Thread (Run_Worker i ret)) p = Some (Ret p')" "program_inv envs es cfg p'"
        "qexec MAIN_QUEUE_TIME MAIN_RECV_TIMEOUT (Run_Worker i True) (srv p) = Some (Ret (srv p'))"
        "history p' = history p" "conns p' = (conns p)[?j := (conns p ! ?j)\<lparr>c_sock := s', c_done := True\<rparr>]" by metis
    then have "step_effect (Run_Worker i ret) p p'" using pending_same [OF j p'(5)] by (simp add: step_effect_def)
    with p'(1,2) show ?thesis by blast
  next
    case (Cons req reqs)
    from worker_serves [where ret = ret, OF inv env srv func refl refl Cons free] obtain s' p' where
      p': "program_step envs nl (Thread (Run_Worker i ret)) p = Some (Ret p')" "program_inv envs es cfg p'"
        "srv p' = srv p" "history p' = history p @ [(?j, req)]"
        "conns p' = (conns p)[?j := (conns p ! ?j)\<lparr>c_sock := s', c_script := reqs\<rparr>]" by metis
    then have "step_effect (Run_Worker i ret) p p'" using pending_upd [OF j p'(5)] Cons by (simp add: step_effect_def)
    with p'(1,2) show ?thesis by blast
  qed
qed

text \<open>Every action of a program in such a state is blocked or completes, and keeps the invariant.\<close>

lemma thread_step:
  assumes inv: "program_inv envs es cfg p" and env: "envs_ok envs nl" "config_ok cfg es"
      "4 * int (length (history p)) + 2 \<le> INT_MAX"
    and srv: "server_state b pend n now MAIN_QUEUE_TIME MAIN_RECV_TIMEOUT (srv p)"
  shows "program_step envs nl (Thread b') p = None \<or>
    (\<exists>p'. program_step envs nl (Thread b') p = Some (Ret p') \<and> program_inv envs es cfg p' \<and> step_effect b' p p')"
proof (cases "\<exists>i ret rq. b' = Run_Worker i ret \<and> i < length (workers (sh (srv p))) \<and> workers (sh (srv p)) ! i = W_func rq")
  case True
  then obtain i ret rq where func: "b' = Run_Worker i ret" "i < length (workers (sh (srv p)))"
    "workers (sh (srv p)) ! i = W_func rq" by blast
  show ?thesis
  proof (cases "waits_for_client p rq")
    case True
    with func have "program_step envs nl (Thread b') p = None"
      by (auto simp: Let_def worker_turn_def split: option.splits)
    then show ?thesis ..
  next
    case False
    from func_step [OF inv env srv func(2,3) False, of ret] func(1) show ?thesis by simp
  qed
next
  case nf: False
  show ?thesis
  proof (cases "qexec MAIN_QUEUE_TIME MAIN_RECV_TIMEOUT b' (srv p)")
    case None
    with nf show ?thesis
      by (auto simp: Let_def server_turn_def deny_turn_def split: action.splits worker_pc.splits excd_pc.splits option.splits)
  next
    case (Some r)
    with qexec_defined [OF srv, of b'] obtain s where x: "qexec MAIN_QUEUE_TIME MAIN_RECV_TIMEOUT b' (srv p) = Some (Ret s)"
      by auto
    have nw: "\<forall>i ret rq. b' = Run_Worker i ret \<longrightarrow> workers (sh (srv p)) ! i \<noteq> W_func rq"
      using nf x by (auto simp: app_worker_def Let_def split: if_splits)
    show ?thesis
    proof (cases "\<exists>f. b' = Client f")
      case False
      then have "\<forall>f. b' \<noteq> Client f" by blast
      from x this nw show ?thesis
      proof (cases rule: thread_cases [where envs = envs and nl = nl])
        case (send rq)
        let ?j = "session_of p (fd rq)"
        have step: "th_excd_tm_q_mgr q_deq (srv p) = Some (Ret s)" using x send(1) by simp
        have f: "fd rq \<in> open_fds (sh (srv p))" "fd rq \<notin> serving (sh (srv p))"
          using about_to_send [OF srv send(2)] by simp_all
        from inv_deny [OF inv send(2) f refl refl deny_step [OF step send(2)]] obtain r' s' where
          sent: "send_resp_to_clnt (TIMEOUT_MSG @ [NUL]) 3 1000 (c_sock (conns p ! ?j)) = Ret (r', s')"
          and inv': "program_inv envs es cfg ((put_conn ?j ((conns p ! ?j)\<lparr>c_sock := s', c_denied := True\<rparr>) p)\<lparr>srv := s\<rparr>)" .
        let ?p = "(put_conn ?j ((conns p ! ?j)\<lparr>c_sock := s', c_denied := True\<rparr>) p)\<lparr>srv := s\<rparr>"
        have "program_step envs nl (Thread b') p = Some (Ret ?p)"
          using sent send x by (simp add: deny_turn_def Let_def)
        moreover have "conns ?p = (conns p)[?j := (conns p ! ?j)\<lparr>c_sock := s', c_denied := True\<rparr>]" by (simp add: put_conn_def)
        from pending_same [OF inv_sessions [OF inv f(1)] this] have "pending ?p = pending p" by simp
        ultimately show ?thesis using inv' x by (simp add: step_effect_def put_conn_def)
      next
        case quiet
        then show ?thesis using inv_quiet [OF inv quiet(2)] x by (simp add: step_effect_def pending_def)
      qed
    qed auto
  qed
qed

lemma inv_step:
  assumes inv: "program_inv envs es cfg p" and env: "envs_ok envs nl" "config_ok cfg es"
      "4 * int (length (history p)) + 2 \<le> INT_MAX"
    and srv: "server_state b pend n now MAIN_QUEUE_TIME MAIN_RECV_TIMEOUT (srv p)" and ok: "only_sends (sendable envs es) a"
  shows "program_step envs nl a p = None \<or> (\<exists>p'. program_step envs nl a p = Some (Ret p') \<and> program_inv envs es cfg p')"
proof (cases a)
  case (Connect f reqs tail)
  have "connect f reqs tail p = None \<or> (\<exists>p'. connect f reqs tail p = Some (Ret p'))"
    by (auto simp: connect_def accept_client_def Let_def)
  with Connect inv_connect [OF inv _ _ _ about_to_close(1,2) [OF srv]] ok show ?thesis by auto
next
  case (Thread b')
  with thread_step [OF inv env srv, of b'] show ?thesis by blast
next
  case (Arrive j n)
  have "arrive j n p = None \<or> (\<exists>p'. arrive j n p = Some (Ret p'))" by (simp add: arrive_def Let_def)
  with Arrive inv_arrive [OF inv] show ?thesis by auto
next
  case (Hang_Up j)
  have "hang_up j p = None \<or> (\<exists>p'. hang_up j p = Some (Ret p'))" by (simp add: hang_up_def Let_def)
  with Hang_Up inv_hang_up [OF inv] show ?thesis by auto
qed

lemma program_inv_reaches:
  assumes "program_reaches envs nl (sendable envs es) (start_program args s0) p" "4 * int (length (history p)) + 2 \<le> INT_MAX"
    and start: "program_inv envs es cfg (start_program args s0)" and env: "envs_ok envs nl" "config_ok cfg es"
    and srv: "server_state b pend n now MAIN_QUEUE_TIME MAIN_RECV_TIMEOUT s0"
  shows "program_inv envs es cfg p"
  using assms(1,2)
proof (induction rule: program_reaches.induct)
  case (step p a p')
  have len: "4 * int (length (history p)) + 2 \<le> INT_MAX" using program_history [OF step.hyps(3)] step.prems by linarith
  from inv_step [OF step.IH [OF len] env len program_server_state [OF step.hyps(1) srv] step.hyps(2)] step.hyps(3)
  show ?case by auto
qed (use start in simp)

lemma start_inv:
  assumes "cli_loop opts None None = Some (Some dir, Some dbfilename)"
    "dir \<noteq> []" "NUL \<notin> set dir" "dbfilename \<noteq> []" "NUL \<notin> set dbfilename"
    "realloc_keys al" "realloc_values al"
    and main: "main b al now0 now1 now2 opts = Ret (Some (args, s))"
    and es: "es = config_entries now0 now1 dir dbfilename"
  obtains cfg where "config_ok cfg es" "program_inv envs es cfg (start_program args s)"
    "server_state b MAIN_PENDING MAIN_WORKERS now2 MAIN_QUEUE_TIME MAIN_RECV_TIMEOUT s"
proof -
  obtain cfg where cfg: "setup_maps al now0 now1 opts = Ret (Some (create_simple_map, cfg))" "config_ok cfg es"
    using setup_config [OF assms(1-7)] es by blast
  with main have s: "start_server b MAIN_PENDING MAIN_WORKERS now2 q_new q_new = Some s"
    and args: "args = \<lparr>arg_sm = Some create_simple_map, arg_config_dict = Some cfg\<rparr>"
    by (auto simp: main_def split: option.splits)
  have "program_inv envs es cfg (start_program args s)"
    unfolding args using start_server_Some [OF s]
    by (intro inv_start [OF cfg(2)] db_rep_create) (simp_all add: create_simple_map_def)
  moreover have "server_state b MAIN_PENDING MAIN_WORKERS now2 MAIN_QUEUE_TIME MAIN_RECV_TIMEOUT s"
    using s by (auto simp: server_state_def intro: reachable.start)
  ultimately show ?thesis using that cfg(2) by blast
qed

end
