(* ===== verification/Program_Props.thy ===== *)
theory Program_Props
  imports Program_Inv
begin

text \<open>
  The properties of the running program: what every client gets in every reachable state, and that
  every request is answered when no new client comes.
\<close>

section \<open>Running dry\<close>

text \<open>Steps of the running threads, without new clients and while nothing arrives. A worker inside
  \<^verbatim>\<open>app_code\<close> is running as long as it need not wait for its client.\<close>

inductive program_runs :: "(nat \<Rightarrow> env) \<Rightarrow> string \<Rightarrow> nat \<Rightarrow> program \<Rightarrow> program \<Rightarrow> bool" for envs nl where
  stay: "program_runs envs nl 0 p p"
| more: "program_runs envs nl k p p1 \<Longrightarrow> running (\<lambda>_. True) (srv p1) a \<Longrightarrow> program_step envs nl (Thread a) p1 = Some (Ret p2) \<Longrightarrow>
    program_runs envs nl (Suc k) p p2"

lemma blocked_step:
  assumes "program_step envs nl (Thread a) p = None" "running (\<lambda>rq. \<not> waits_for_client p rq) (srv p) a"
  shows "qexec MAIN_QUEUE_TIME MAIN_RECV_TIMEOUT a (srv p) = None"
proof (cases a)
  case (Run_Worker i ret)
  show ?thesis
  proof (cases "i < length (workers (sh (srv p)))")
    case True
    show ?thesis
    proof (cases "workers (sh (srv p)) ! i")
      case (W_func rq)
      with True assms Run_Worker show ?thesis by (simp add: Let_def worker_turn_def app_worker_def)
    qed (use assms True Run_Worker in \<open>simp_all add: Let_def server_turn_def split: option.splits\<close>)
  qed (simp add: Run_Worker app_worker_def Let_def)
next
  case Run_Excd
  with assms show ?thesis
    by (auto simp: Let_def server_turn_def deny_turn_def split: excd_pc.splits option.splits)
qed (use assms in \<open>auto simp: Let_def server_turn_def split: option.splits\<close>)

lemma returning_running: "running (\<lambda>_. True) s (returning a) = running (\<lambda>_. True) s a"
  by (cases a) simp_all

section \<open>Lemmas for the properties\<close>

lemma program_runs_measure:
  assumes "program_runs envs nl k p p'" and inv: "program_inv envs es cfg p" and env: "envs_ok envs nl" "config_ok cfg es"
    and srv: "server_state b pend n now MAIN_QUEUE_TIME MAIN_RECV_TIMEOUT (srv p)"
    and room: "4 * int (length (history p) + pending p) + 2 \<le> INT_MAX"
    and t: "sim qh_rep (srv p) t" "server_inv t"
  shows "program_inv envs es cfg p' \<and> server_state b pend n now MAIN_QUEUE_TIME MAIN_RECV_TIMEOUT (srv p') \<and>
    length (history p') + pending p' = length (history p) + pending p \<and>
    (\<exists>t'. sim qh_rep (srv p') t' \<and> server_inv t' \<and> weight t' + pending p' + k \<le> weight t + pending p)"
  using assms
proof (induction rule: program_runs.induct)
  case (more k p p1 a p2)
  from more.IH [OF more.prems] obtain t1 where
    inv: "program_inv envs es cfg p1" and srv: "server_state b pend n now MAIN_QUEUE_TIME MAIN_RECV_TIMEOUT (srv p1)"
    and len: "length (history p1) + pending p1 = length (history p) + pending p"
    and t1: "sim qh_rep (srv p1) t1" "server_inv t1" "weight t1 + pending p1 + k \<le> weight t + pending p" by blast
  have "length (history p1) \<le> length (history p) + pending p" using len by simp
  then have room: "4 * int (length (history p1)) + 2 \<le> INT_MAX" using more.prems(5) by simp
  from thread_step [OF inv env room srv, of a] more.hyps(3) have
    inv2: "program_inv envs es cfg p2" and eff: "step_effect a p1 p2" by auto
  from program_step_server [OF more.hyps(3)] srv
  have srv2: "server_state b pend n now MAIN_QUEUE_TIME MAIN_RECV_TIMEOUT (srv p2)"
    by (metis (no_types, lifting) reachable.step server_state_def)
  from eff consider "srv p2 = srv p1" "pending p1 = Suc (pending p2)" "length (history p2) = Suc (length (history p1))"
    | b where "qexec MAIN_QUEUE_TIME MAIN_RECV_TIMEOUT b (srv p1) = Some (Ret (srv p2))" "pending p2 = pending p1"
        "history p2 = history p1" "b = a \<or> b = returning a"
    by (auto simp: step_effect_def)
  then show ?case
  proof cases
    case 1
    with t1 len inv2 srv2 show ?thesis by (intro conjI exI [of _ t1]) simp_all
  next
    case (2 b)
    from ls.exec_forward [OF t1(1) 2(1)] obtain t2 where
      t2: "lexec MAIN_QUEUE_TIME MAIN_RECV_TIMEOUT b t1 = Some (Ret t2)" "sim qh_rep (srv p2) t2" by blast
    have "running (\<lambda>_. True) (srv p1) b" using more.hyps(2) 2(4) returning_running by blast
    then have "running (\<lambda>_. True) t1 b" using t1(1) by (cases b) (simp_all add: sim_def)
    with t2(1) t1(2) weight_exec [of t1 _ b MAIN_QUEUE_TIME MAIN_RECV_TIMEOUT t2] have "weight t2 < weight t1"
      by (simp add: server_inv_def)
    moreover have "server_inv t2" by (rule server_inv_exec [OF t1(2) t2(1)])
    ultimately show ?thesis using 2 t1(3) t2(2) len inv2 srv2 by (intro conjI exI [of _ t2]) simp_all
  qed
qed auto

text \<open>Two clients: the first sets a key and stays connected; the second gets it and closes in the middle of
  another request.\<close>

fun program_run :: "(nat \<Rightarrow> env) \<Rightarrow> string \<Rightarrow> program_action list \<Rightarrow> program \<Rightarrow> program option" where
  "program_run envs nl [] p = Some p"
| "program_run envs nl (a # as) p = (case program_step envs nl a p of Some (Ret p') \<Rightarrow> program_run envs nl as p' | _ \<Rightarrow> None)"

lemma program_run_reaches:
  "program_run envs nl as p = Some p' \<Longrightarrow> list_all (only_sends ok) as \<Longrightarrow> program_reaches envs nl ok p0 p \<Longrightarrow>
    program_reaches envs nl ok p0 p'"
  by (induction as arbitrary: p) (auto intro: program_reaches.step split: option.splits outcome.splits)

definition demo_arrivals :: "program_action list" where
  "demo_arrivals = [Connect 7 [request [''SET'', ''k'', ''v'']] []] @ replicate 4 (Thread (Run_Main True)) @
     [Connect 8 [request [''get'', ''k'']] (''*2'' @ CRLF @ ''$3'')] @ replicate 4 (Thread (Run_Main True))"

definition demo_actions :: "program_action list" where
  "demo_actions = demo_arrivals @ [Arrive 0 20, Arrive 0 7, Arrive 1 26, Hang_Up 1] @
     replicate 5 (Thread (Run_Worker 0 False)) @ replicate 5 (Thread (Run_Worker 1 False))"

abbreviation demo_envs :: "nat \<Rightarrow> env" where
  "demo_envs k \<equiv> demo_env (Timespec (int k) 0)"

lemma demo_actions_eval:
  "(case start_server demo_boot MAIN_PENDING MAIN_WORKERS (Timespec 2 0) q_new q_new of
      None \<Rightarrow> None
    | Some s \<Rightarrow> map_option
        (\<lambda>p. (workers (sh (srv p)), history p, map c_script (conns p), map (\<lambda>c. (c_tail c, c_done c)) (conns p),
          map (session_of p) [7, 8], map (\<lambda>c. (c_open c, c_coming c)) (conns p), map (rx \<circ> c_sock) (conns p) =
            [rx_bytes (resp (request [''SET'', ''k'', ''v''])),
             rx_bytes (resp (request [''get'', ''k'']) @ ''*2'' @ CRLF @ ''$3'')]))
        (program_run demo_envs ''(null)'' demo_actions (start_program args s))) =
   Some ([W_func (demo_rq 7 2), W_func (demo_rq 8 2)], [], [[request [''SET'', ''k'', ''v'']], [request [''get'', ''k'']]],
     [([], False), (''*2'' @ CRLF @ ''$3'', False)], [0, 1], [(True, []), (False, [])], True)"
  by code_simp

lemma demo_sendable:
  "sendable demo_envs demo_entries (request [''SET'', ''k'', ''v''])"
  "sendable demo_envs demo_entries (request [''get'', ''k''])"
proof -
  have c: "command_of ''SET'' = SET" "command_of ''get'' = GET" by code_simp+
  show "sendable demo_envs demo_entries (request [''SET'', ''k'', ''v''])"
    "sendable demo_envs demo_entries (request [''get'', ''k''])"
    by (simp_all add: sendable_def servable_def request_def arg_def PROTO_MAX_BULK_SIZE_def c cstr_def)
qed

lemma demo_cut: "cut_off (sendable demo_envs demo_entries) (''*2'' @ CRLF @ ''$3'')"
proof -
  have "resp (request [''get'', ''k'']) = (''*2'' @ CRLF @ ''$3'') @ CRLF @ ''get'' @ CRLF @ ''$1'' @ CRLF @ ''k'' @ CRLF"
    by code_simp
  then have "strict_prefix (''*2'' @ CRLF @ ''$3'') (resp (request [''get'', ''k'']))"
    unfolding strict_prefix_def prefix_def by (metis append_self_conv append_is_Nil_conv list.distinct(1))
  with demo_sendable(2) show ?thesis unfolding cut_off_def by blast
qed

lemma demo_envs_ok: "envs_ok demo_envs ''(null)''"
  by (simp add: envs_ok_def demo_env_def glob_fnmatch_casefold alloc_ok_def)

lemma demo_opts:
  "cli_loop [(CHR ''d'', Some ''/tmp''), (CHR ''c'', Some ''dump.rdb'')] None None = Some (Some ''/tmp'', Some ''dump.rdb'')"
  "demo_entries = config_entries (Timespec 1 0) (Timespec 1 0) ''/tmp'' ''dump.rdb''"
  "realloc_keys alloc_ok" "realloc_values alloc_ok"
  by (simp_all add: demo_entries_def config_entries_def alloc_ok_def)

lemma demo_main:
  obtains args s p where "main demo_boot alloc_ok (Timespec 1 0) (Timespec 1 0) (Timespec 2 0)
      [(CHR ''d'', Some ''/tmp''), (CHR ''c'', Some ''dump.rdb'')] = Ret (Some (args, s))"
    "program_reaches demo_envs ''(null)'' (sendable demo_envs demo_entries) (start_program args s) p"
    "workers (sh (srv p)) = [W_func (demo_rq 7 2), W_func (demo_rq 8 2)]" "history p = []"
    "map c_script (conns p) = [[request [''SET'', ''k'', ''v'']], [request [''get'', ''k'']]]"
    "map (\<lambda>c. (c_tail c, c_done c)) (conns p) = [([], False), (''*2'' @ CRLF @ ''$3'', False)]"
    "session_of p 7 = 0" "session_of p 8 = 1"
    "map (\<lambda>c. (c_open c, c_coming c)) (conns p) = [(True, []), (False, [])]"
    "map (rx \<circ> c_sock) (conns p) = [rx_bytes (resp (request [''SET'', ''k'', ''v''])),
      rx_bytes (resp (request [''get'', ''k'']) @ ''*2'' @ CRLF @ ''$3'')]"
proof -
  obtain s :: qserver where s: "start_server demo_boot MAIN_PENDING MAIN_WORKERS (Timespec 2 0) q_new q_new = Some s"
    using demo_actions_eval by (cases "start_server demo_boot MAIN_PENDING MAIN_WORKERS (Timespec 2 0) q_new q_new :: qserver option") auto
  obtain cfg where "setup_maps alloc_ok (Timespec 1 0) (Timespec 1 0)
      [(CHR ''d'', Some ''/tmp''), (CHR ''c'', Some ''dump.rdb'')] = Ret (Some (create_simple_map, cfg))"
    using setup_config [OF demo_opts(1) _ _ _ _ demo_opts(3,4), of "Timespec 1 0" "Timespec 1 0"] by auto
  with s obtain args where m: "main demo_boot alloc_ok (Timespec 1 0) (Timespec 1 0) (Timespec 2 0)
      [(CHR ''d'', Some ''/tmp''), (CHR ''c'', Some ''dump.rdb'')] = Ret (Some (args, s))"
    by (auto simp: main_def)
  obtain p where p: "program_run demo_envs ''(null)'' demo_actions (start_program args s) = Some p"
    and facts: "workers (sh (srv p)) = [W_func (demo_rq 7 2), W_func (demo_rq 8 2)] \<and> history p = [] \<and>
      map c_script (conns p) = [[request [''SET'', ''k'', ''v'']], [request [''get'', ''k'']]] \<and>
      map (\<lambda>c. (c_tail c, c_done c)) (conns p) = [([], False), (''*2'' @ CRLF @ ''$3'', False)] \<and>
      session_of p 7 = 0 \<and> session_of p 8 = 1 \<and>
      map (\<lambda>c. (c_open c, c_coming c)) (conns p) = [(True, []), (False, [])] \<and>
      map (rx \<circ> c_sock) (conns p) = [rx_bytes (resp (request [''SET'', ''k'', ''v''])),
        rx_bytes (resp (request [''get'', ''k'']) @ ''*2'' @ CRLF @ ''$3'')]"
    using demo_actions_eval [of args] unfolding s by (auto simp del: resp.simps map_map)
  have "list_all (only_sends (sendable demo_envs demo_entries)) demo_actions"
    using demo_sendable demo_cut by (simp add: demo_actions_def demo_arrivals_def numeral_eq_Suc cut_off_def)
  note r = program_run_reaches [OF p this program_reaches.start]
  show ?thesis using facts by (intro that [OF m r]) (simp_all only:)
qed

section \<open>Properties\<close>

text \<open>C1. The whole program, started with values for both options. The clients send sendable requests only:
  well-formed, within the protocol's limits, with echoable ECHO arguments, the last one possibly cut off
  (\<open>sendable\<close>; a null bulk string, for one, crashes the program). The command of one request is one step
  on the unlocked map (commands that overlap are the subject of the races below), and the kernel takes
  all bytes that are sent. Under these conditions, whatever clients connect, however slowly their bytes
  arrive, and however the threads, the workers and their requests interleave: no step has undefined
  behaviour; the data map represents the abstract store after the requests served so far; every
  connection was sent exactly the replies to its own requests in this sequence or, if it was denied,
  nothing but the message; and no connection is closed before all its requests were served or it was
  denied. A client may stay silent, or close between two requests or at any byte inside one; inside one
  it is sent the parse error message, after its replies, and the store does not change.\<close>

theorem program_serves:
  assumes "cli_loop opts None None = Some (Some dir, Some dbfilename)"
    "dir \<noteq> []" "NUL \<notin> set dir" "dbfilename \<noteq> []" "NUL \<notin> set dbfilename"
    "realloc_keys al" "realloc_values al"
    and main: "main b al now0 now1 now2 opts = Ret (Some (args, s))"
    and es: "es = config_entries now0 now1 dir dbfilename" and env: "envs_ok envs nl"
    and reach: "program_reaches envs nl (sendable envs es) (start_program args s) p"
      "4 * int (length (history p)) + 2 \<le> INT_MAX"
  shows "(\<exists>sm. arg_sm (globals p) = Some sm \<and> db_rep sm (store_of envs es p)) \<and>
    (\<forall>j<length (conns p).
       let c = conns p ! j; own = map snd (filter (\<lambda>h. fst h = j) (history p)) in
         c_reqs c = own @ c_script c \<and> (c_denied c \<longrightarrow> own = []) \<and>
         sent (c_sock c) =
           (if c_denied c then TIMEOUT_MSG @ [NUL]
            else replied envs es j p @ (if c_done c \<and> c_tail c \<noteq> [] then PARSE_ERROR_MSG @ [NUL] else [])) \<and>
         (j \<notin> session_of p ` open_fds (sh (srv p)) \<longrightarrow> c_denied c \<or> c_script c = [])) \<and>
    (\<forall>a. only_sends (sendable envs es) a \<longrightarrow>
       program_step envs nl a p = None \<or> (\<exists>p'. program_step envs nl a p = Some (Ret p')))"
proof -
  obtain cfg where cfg: "config_ok cfg es" and start: "program_inv envs es cfg (start_program args s)"
    and srv0: "server_state b MAIN_PENDING MAIN_WORKERS now2 MAIN_QUEUE_TIME MAIN_RECV_TIMEOUT s"
    using start_inv [OF assms(1-7) main es] .
  note inv = program_inv_reaches [OF reach start env cfg srv0]
  note srv = program_server_state [OF reach(1) srv0]
  have "\<exists>sm. arg_sm (globals p) = Some sm \<and> db_rep sm (store_of envs es p)"
    using inv by (auto simp: program_inv_def maps_inv_def)
  moreover have "conn_ok envs es p j" if "j < length (conns p)" for j using inv that by (simp add: program_inv_def)
  then have "\<forall>j<length (conns p).
       let c = conns p ! j; own = map snd (filter (\<lambda>h. fst h = j) (history p)) in
         c_reqs c = own @ c_script c \<and> (c_denied c \<longrightarrow> own = []) \<and>
         sent (c_sock c) =
           (if c_denied c then TIMEOUT_MSG @ [NUL]
            else replied envs es j p @ (if c_done c \<and> c_tail c \<noteq> [] then PARSE_ERROR_MSG @ [NUL] else [])) \<and>
         (j \<notin> session_of p ` open_fds (sh (srv p)) \<longrightarrow> c_denied c \<or> c_script c = [])"
    by (fastforce simp: conn_ok_def due_def Let_def filter_empty_conv)
  ultimately show ?thesis using inv_step [OF inv env cfg reach(2) srv] by blast
qed

theorem program_serves_witness:
  "\<exists>args s p. main demo_boot alloc_ok (Timespec 1 0) (Timespec 1 0) (Timespec 2 0)
      [(CHR ''d'', Some ''/tmp''), (CHR ''c'', Some ''dump.rdb'')] = Ret (Some (args, s)) \<and>
    program_reaches demo_envs ''(null)'' (sendable demo_envs demo_entries) (start_program args s) p \<and>
    map (sent \<circ> c_sock) (conns p) =
      [''+OK'' @ CRLF @ [NUL], ''$1'' @ CRLF @ ''v'' @ CRLF @ [NUL] @ PARSE_ERROR_MSG @ [NUL]]"
proof -
  obtain args s p where m: "main demo_boot alloc_ok (Timespec 1 0) (Timespec 1 0) (Timespec 2 0)
      [(CHR ''d'', Some ''/tmp''), (CHR ''c'', Some ''dump.rdb'')] = Ret (Some (args, s))"
    and r: "program_reaches demo_envs ''(null)'' (sendable demo_envs demo_entries) (start_program args s) p"
    and w: "workers (sh (srv p)) = [W_func (demo_rq 7 2), W_func (demo_rq 8 2)]" and h: "history p = []"
    and c: "map c_script (conns p) = [[request [''SET'', ''k'', ''v'']], [request [''get'', ''k'']]]"
    and tl: "map (\<lambda>c. (c_tail c, c_done c)) (conns p) = [([], False), (''*2'' @ CRLF @ ''$3'', False)]"
    and j: "session_of p 7 = 0" "session_of p 8 = 1"
    and op: "map (\<lambda>c. (c_open c, c_coming c)) (conns p) = [(True, []), (False, [])]"
    and rx: "map (rx \<circ> c_sock) (conns p) = [rx_bytes (resp (request [''SET'', ''k'', ''v''])),
      rx_bytes (resp (request [''get'', ''k'']) @ ''*2'' @ CRLF @ ''$3'')]" by (rule demo_main)
  from c tl op rx obtain c0 c1 where cs: "conns p = [c0, c1]" "c_script c0 = [request [''SET'', ''k'', ''v'']]"
    "c_script c1 = [request [''get'', ''k'']]" "c_tail c0 = []" "c_tail c1 \<noteq> []" "\<not> c_done c0"
    "\<not> c_open c1" "rx (c_sock c0) = rx_bytes (resp (request [''SET'', ''k'', ''v'']))"
    by (auto simp: map_eq_Cons_conv simp del: resp.simps)
  have "plain (request [''SET'', ''k'', ''v''])" using demo_sendable(1) by (simp add: sendable_def)
  then have "\<not> awaits (c_sock c0)" using request_arrived [of "map arg [''SET'', ''k'', ''v'']" 3 "c_sock c0" "[]"] cs(8)
     by (simp add: request_def del: resp.simps)
  then have free: "\<not> waits_for_client p (demo_rq 7 2)" by (simp add: waits_for_client_def j cs(1))
  obtain cfg where cfg: "config_ok cfg demo_entries" and start: "program_inv demo_envs demo_entries cfg (start_program args s)"
    and s0: "server_state demo_boot MAIN_PENDING MAIN_WORKERS (Timespec 2 0) MAIN_QUEUE_TIME MAIN_RECV_TIMEOUT s"
    using start_inv [OF demo_opts(1) _ _ _ _ demo_opts(3,4) m demo_opts(2)] by auto
  note srv = program_server_state [OF r s0]
  have inv: "program_inv demo_envs demo_entries cfg p"
    using program_inv_reaches [OF r _ start demo_envs_ok cfg s0] h by simp
  obtain s1 p2 where p2: "program_step demo_envs ''(null)'' (Thread (Run_Worker 0 False)) p = Some (Ret p2)"
    "program_inv demo_envs demo_entries cfg p2" "srv p2 = srv p" "history p2 = [(0, request [''SET'', ''k'', ''v''])]"
    "session_of p2 = session_of p" "conns p2 = [c0\<lparr>c_sock := s1, c_script := []\<rparr>, c1]"
    by (rule worker_serves [where ret = False, OF inv demo_envs_ok cfg _ srv, of 0 "demo_rq 7 2" 0 c0 "request [''SET'', ''k'', ''v'']" "[]"])
      (simp_all add: w h j cs free)
  obtain s2 p3 where p3: "program_step demo_envs ''(null)'' (Thread (Run_Worker 1 False)) p2 = Some (Ret p3)"
    "program_inv demo_envs demo_entries cfg p3" "srv p3 = srv p" "session_of p3 = session_of p"
    "history p3 = [(0, request [''SET'', ''k'', ''v'']), (1, request [''get'', ''k''])]"
    "conns p3 = [c0\<lparr>c_sock := s1, c_script := []\<rparr>, c1\<lparr>c_sock := s2, c_script := []\<rparr>]"
    by (rule worker_serves [where ret = False, OF p2(2) demo_envs_ok cfg _ srv [folded p2(3)],
        of 1 "demo_rq 8 2" 1 c1 "request [''get'', ''k'']" "[]"])
      (simp_all add: w p2(3-6) j cs waits_for_client_def)
  obtain s3 p4 where p4: "program_step demo_envs ''(null)'' (Thread (Run_Worker 1 False)) p3 = Some (Ret p4)"
    "history p4 = history p3" "conns p4 = [c0\<lparr>c_sock := s1, c_script := []\<rparr>, c1\<lparr>c_script := [], c_sock := s3, c_done := True\<rparr>]"
    by (rule worker_stops [where nl = "''(null)''" and ret = False, OF p3(2) srv [folded p3(3)], of 1 "demo_rq 8 2" 1 "c1\<lparr>c_script := [], c_sock := s2\<rparr>"])
      (simp_all add: w p3(3-6) j cs waits_for_client_def)
  have r4: "program_reaches demo_envs ''(null)'' (sendable demo_envs demo_entries) (start_program args s) p4"
    by (rule program_reaches.step [OF program_reaches.step [OF program_reaches.step [OF r _ p2(1)] _ p3(1)] _ p4(1)]) simp_all
  have "4 * int (length (history p4)) + 2 \<le> INT_MAX" by (simp add: p3(5) p4(2))
  note served = program_serves [OF demo_opts(1) _ _ _ _ demo_opts(3,4) m demo_opts(2) demo_envs_ok r4 this,
      THEN conjunct2, THEN conjunct1, rule_format]
  have "sent s1 = ''+OK'' @ CRLF @ [NUL]" "sent s3 = ''$1'' @ CRLF @ ''v'' @ CRLF @ [NUL] @ PARSE_ERROR_MSG @ [NUL]"
    using served [of 0] served [of 1]
    by (simp_all add: p3(5) p4(2,3) cs Let_def replied_def demo_serve_set demo_serve_get demo_wire split: if_splits)
  with m r4 p4(3) show ?thesis by (intro exI [of _ args] exI [of _ s] exI [of _ p4]) simp
qed

text \<open>A connection whose worker waits for its client: everything that has arrived completely is answered.\<close>

lemma waiting_answered:
  assumes inv: "program_inv envs es cfg p" and srv: "server_state b pend n now mx rt (srv p)"
    and w: "W_func rq \<in> set (workers (sh (srv p)))" and j: "j = session_of p (fd rq)" and waits: "waits_for_client p rq"
  shows "j < length (conns p) \<and> c_open (conns p ! j) \<and> sent (c_sock (conns p ! j)) = replied envs es j p \<and>
    (\<forall>req reqs. c_script (conns p ! j) = req # reqs \<longrightarrow> length (rx (c_sock (conns p ! j))) < length (resp req))"
proof -
  let ?c = "conns p ! j"
  obtain i where i: "i < length (workers (sh (srv p)))" "workers (sh (srv p)) ! i = W_func rq"
    using w by (auto simp: in_set_conv_nth)
  have serving: "fd rq \<in> serving (sh (srv p))" using i by (force simp: serving_def set_conv_nth)
  with about_to_close(3,4) [OF srv] func_not_closing [OF srv i] have
    f: "fd rq \<in> open_fds (sh (srv p))" "fd rq \<notin> denied_fd (excd_th (sh (srv p)))" "fd rq \<notin> closing (sh (srv p))" by auto
  have len: "j < length (conns p)" using inv_sessions [OF inv f(1)] j by simp
  have ok: "conn_ok envs es p j" "open_ok p (fd rq)" using inv len f(1) by (simp_all add: program_inv_def)
  have nd: "\<not> c_denied ?c" "\<not> c_done ?c" using ok(2) f(2,3) by (auto simp: open_ok_def j Let_def)
  have op: "c_open ?c" "awaits (c_sock ?c)" using waits by (simp_all add: waits_for_client_def j Let_def)
  have "length (rx (c_sock ?c)) < length (resp req)" if script: "c_script ?c = req # reqs" for req reqs
  proof (rule ccontr)
    assume long: "\<not> length (rx (c_sock ?c)) < length (resp req)"
    have eq: "rx (c_sock ?c) @ rx_bytes (c_coming ?c) = rx_bytes (resp req @ concat (map resp reqs) @ c_tail ?c)"
      and snd: "sendable envs es req" using ok(1) nd(2) script by (auto simp: conn_ok_def Let_def)
    obtain u where u: "rx (c_sock ?c) = rx_bytes u" "u @ c_coming ?c = resp req @ concat (map resp reqs) @ c_tail ?c"
      using bytes_append [OF eq] .
    with long have "take (length (resp req)) u = resp req"
      by (metis append_eq_append_conv_if length_map not_less)
    then obtain v where v: "u = resp req @ v" by (metis append_take_drop_id)
    obtain ns m where req: "req = ArrayNode ns m" "plain req" using sendable_array [OF snd] by blast
    have "\<not> awaits (c_sock ?c)"
      by (rule request_arrived [OF req(2) [unfolded req(1)], of _ "rx_bytes v"]) (simp only: u(1) v req(1) map_append)
    with op(2) show False by simp
  qed
  with len op(1) ok(1) nd show ?thesis by (auto simp: conn_ok_def due_def Let_def)
qed

lemma program_stuck:
  assumes inv: "program_inv envs es cfg p'" and srv: "server_state b pend MAIN_WORKERS now MAIN_QUEUE_TIME MAIN_RECV_TIMEOUT (srv p')"
    and stuck: "\<forall>a. running (\<lambda>_. True) (srv p') a \<longrightarrow> program_step envs nl (Thread a) p' = None"
  shows "(\<exists>xs. qh_rep (req_q (srv p')) xs \<and> qh_rep (excd_tm_q (srv p')) [] \<and>
        (\<forall>w\<in>set (workers (sh (srv p'))). w = W_wait \<or> (\<exists>rq. w = W_func rq \<and> waits_for_client p' rq)) \<and>
        (xs \<noteq> [] \<longrightarrow> W_wait \<notin> set (workers (sh (srv p')))) \<and>
        held (sh (srv p')) = sum_list (map worker_holds (workers (sh (srv p')))) \<and>
        image_mset fd (held (sh (srv p')) + lost (events (sh (srv p'))) + mset xs) = mset_set (open_fds (sh (srv p')))) \<and>
      (\<forall>rq j. W_func rq \<in> set (workers (sh (srv p'))) \<and> j = session_of p' (fd rq) \<longrightarrow>
         j < length (conns p') \<and> c_open (conns p' ! j) \<and> sent (c_sock (conns p' ! j)) = replied envs es j p' \<and>
         (\<forall>req reqs. c_script (conns p' ! j) = req # reqs \<longrightarrow> length (rx (c_sock (conns p' ! j))) < length (resp req))) \<and>
      (\<forall>j<length (conns p'). j \<notin> session_of p' ` open_fds (sh (srv p')) \<longrightarrow>
         (let c = conns p' ! j in
           c_denied c \<and> sent (c_sock c) = TIMEOUT_MSG @ [NUL] \<or>
           c_reqs c = map snd (filter (\<lambda>h. fst h = j) (history p')) \<and>
           sent (c_sock c) = replied envs es j p' @ (if c_tail c \<noteq> [] then PARSE_ERROR_MSG @ [NUL] else []))) \<and>
      ((\<forall>c\<in>set (conns p'). \<not> c_open c) \<longrightarrow>
         image_mset fd (lost (events (sh (srv p')))) = mset_set (open_fds (sh (srv p'))))"
proof -
  let ?R = "\<lambda>rq. \<not> waits_for_client p' rq"
  have "running ?R (srv p') a \<Longrightarrow> running (\<lambda>_. True) (srv p') a" for a by (cases a) simp_all
  with stuck have "\<forall>a. running ?R (srv p') a \<longrightarrow> qexec MAIN_QUEUE_TIME MAIN_RECV_TIMEOUT a (srv p') = None"
    using blocked_step by blast
  from stuck_server [OF srv this] obtain xs where
    xs: "qh_rep (req_q (srv p')) xs" "qh_rep (excd_tm_q (srv p')) []" "idle ?R (sh (srv p')) xs"
      "image_mset fd (held (sh (srv p')) + lost (events (sh (srv p'))) + mset xs) = mset_set (open_fds (sh (srv p')))" by blast
  from xs(3) have idle: "\<forall>w\<in>set (workers (sh (srv p'))). w = W_wait \<or> (\<exists>rq. w = W_func rq \<and> waits_for_client p' rq)"
    "xs \<noteq> [] \<longrightarrow> W_wait \<notin> set (workers (sh (srv p')))"
    "held (sh (srv p')) = sum_list (map worker_holds (workers (sh (srv p'))))"
    by (auto simp: idle_def in_call_def)
  have ans: "j < length (conns p') \<and> c_open (conns p' ! j) \<and> sent (c_sock (conns p' ! j)) = replied envs es j p' \<and>
      (\<forall>req reqs. c_script (conns p' ! j) = req # reqs \<longrightarrow> length (rx (c_sock (conns p' ! j))) < length (resp req))"
    if "W_func rq \<in> set (workers (sh (srv p')))" "j = session_of p' (fd rq)" for rq j
    using waiting_answered [OF inv srv that] idle(1) that(1) by blast
  have closed: "let c = conns p' ! j in
      c_denied c \<and> sent (c_sock c) = TIMEOUT_MSG @ [NUL] \<or>
      c_reqs c = map snd (filter (\<lambda>h. fst h = j) (history p')) \<and>
      sent (c_sock c) = replied envs es j p' @ (if c_tail c \<noteq> [] then PARSE_ERROR_MSG @ [NUL] else [])"
    if "j < length (conns p')" "j \<notin> session_of p' ` open_fds (sh (srv p'))" for j
  proof -
    have "conn_ok envs es p' j" using inv that(1) by (simp add: program_inv_def)
    with that(2) show ?thesis by (auto simp: conn_ok_def due_def Let_def)
  qed
  have "image_mset fd (lost (events (sh (srv p')))) = mset_set (open_fds (sh (srv p')))"
    if gone: "\<forall>c\<in>set (conns p'). \<not> c_open c"
  proof -
    have wait: "\<forall>w\<in>set (workers (sh (srv p'))). w = W_wait" using idle(1) ans gone nth_mem by blast
    have "0 < length (workers (sh (srv p')))" using server_state_workers [OF srv] by (simp add: MAIN_WORKERS_def)
    with wait idle(2) have "xs = []" by (metis nth_mem)
    moreover have "held (sh (srv p')) = {#}" unfolding idle(3) using wait by (intro sum_list_zero) auto
    ultimately show ?thesis using xs(4) by simp
  qed
  with xs(1,2,4) idle ans closed show ?thesis by (intro conjI exI [of _ xs] allI impI) (elim conjE, simp | blast)+
qed

text \<open>C2. Every request is answered, under the conditions of C1: from any reachable state, as long as no new
  client connects and no further byte arrives, the running threads take boundedly many steps, and when
  none can take one, then
  every worker waits for a request or, inside \<^verbatim>\<open>app_code\<close>, for more bytes of a client that is still connected,
  which has been sent the replies to all its requests that have arrived completely;
  the denier's queue is empty, and so is the request queue unless all workers wait for their clients;
  every other connection but those lost to a failed allocation is closed;
  every closed connection was either denied or was sent the replies to all the requests of its client
  (and, if the client closed inside a further request, the parse error message);
  and if all clients have closed, no connection is open but the lost ones.\<close>

theorem program_answers_all:
  assumes "cli_loop opts None None = Some (Some dir, Some dbfilename)"
    "dir \<noteq> []" "NUL \<notin> set dir" "dbfilename \<noteq> []" "NUL \<notin> set dbfilename"
    "realloc_keys al" "realloc_values al"
    and main: "main b al now0 now1 now2 opts = Ret (Some (args, s))"
    and es: "es = config_entries now0 now1 dir dbfilename" and env: "envs_ok envs nl"
    and reach: "program_reaches envs nl (sendable envs es) (start_program args s) p"
      "4 * int (length (history p) + pending p) + 2 \<le> INT_MAX"
  shows "\<exists>N. \<forall>k p'. program_runs envs nl k p p' \<longrightarrow> k \<le> N \<and>
    ((\<forall>a. running (\<lambda>_. True) (srv p') a \<longrightarrow> program_step envs nl (Thread a) p' = None) \<longrightarrow>
      (\<exists>xs. qh_rep (req_q (srv p')) xs \<and> qh_rep (excd_tm_q (srv p')) [] \<and>
        (\<forall>w\<in>set (workers (sh (srv p'))). w = W_wait \<or> (\<exists>rq. w = W_func rq \<and> waits_for_client p' rq)) \<and>
        (xs \<noteq> [] \<longrightarrow> W_wait \<notin> set (workers (sh (srv p')))) \<and>
        held (sh (srv p')) = sum_list (map worker_holds (workers (sh (srv p')))) \<and>
        image_mset fd (held (sh (srv p')) + lost (events (sh (srv p'))) + mset xs) = mset_set (open_fds (sh (srv p')))) \<and>
      (\<forall>rq j. W_func rq \<in> set (workers (sh (srv p'))) \<and> j = session_of p' (fd rq) \<longrightarrow>
         j < length (conns p') \<and> c_open (conns p' ! j) \<and> sent (c_sock (conns p' ! j)) = replied envs es j p' \<and>
         (\<forall>req reqs. c_script (conns p' ! j) = req # reqs \<longrightarrow> length (rx (c_sock (conns p' ! j))) < length (resp req))) \<and>
      (\<forall>j<length (conns p'). j \<notin> session_of p' ` open_fds (sh (srv p')) \<longrightarrow>
         (let c = conns p' ! j in
           c_denied c \<and> sent (c_sock c) = TIMEOUT_MSG @ [NUL] \<or>
           c_reqs c = map snd (filter (\<lambda>h. fst h = j) (history p')) \<and>
           sent (c_sock c) = replied envs es j p' @ (if c_tail c \<noteq> [] then PARSE_ERROR_MSG @ [NUL] else []))) \<and>
      ((\<forall>c\<in>set (conns p'). \<not> c_open c) \<longrightarrow>
         image_mset fd (lost (events (sh (srv p')))) = mset_set (open_fds (sh (srv p')))))"
proof -
  obtain cfg where cfg: "config_ok cfg es" and start: "program_inv envs es cfg (start_program args s)"
    and srv0: "server_state b MAIN_PENDING MAIN_WORKERS now2 MAIN_QUEUE_TIME MAIN_RECV_TIMEOUT s"
    using start_inv [OF assms(1-7) main es] .
  have "4 * int (length (history p)) + 2 \<le> INT_MAX" using reach(2) by simp
  note inv = program_inv_reaches [OF reach(1) this start env cfg srv0]
  note srv = program_server_state [OF reach(1) srv0]
  from server_state_inv [OF srv] obtain t where t: "sim qh_rep (srv p) t" "server_inv t" by metis
  show ?thesis
  proof (intro exI [of _ "weight t + pending p"] allI impI, rule conjI, goal_cases)
    case (1 k p')
    from program_runs_measure [OF 1 inv env cfg srv reach(2) t] show ?case by auto
  next
    case (2 k p')
    from program_runs_measure [OF 2 inv env cfg srv reach(2) t] have
      "program_inv envs es cfg p'" "server_state b MAIN_PENDING MAIN_WORKERS now2 MAIN_QUEUE_TIME MAIN_RECV_TIMEOUT (srv p')"
      by auto
    then show ?case by (intro impI program_stuck)
  qed
qed

theorem program_answers_all_witness:
  "\<exists>args s p N. program_reaches demo_envs ''(null)'' (sendable demo_envs demo_entries) (start_program args s) p \<and>
    pending p = 2 \<and> (\<forall>k p'. program_runs demo_envs ''(null)'' k p p' \<longrightarrow> k \<le> N)"
proof -
  obtain args s p where m: "main demo_boot alloc_ok (Timespec 1 0) (Timespec 1 0) (Timespec 2 0)
      [(CHR ''d'', Some ''/tmp''), (CHR ''c'', Some ''dump.rdb'')] = Ret (Some (args, s))"
    and r: "program_reaches demo_envs ''(null)'' (sendable demo_envs demo_entries) (start_program args s) p"
    and h: "history p = []"
    and c: "map c_script (conns p) = [[request [''SET'', ''k'', ''v'']], [request [''get'', ''k'']]]" by (rule demo_main)
  have "pending p = sum_list (map length (map c_script (conns p)))" by (simp add: pending_def)
  then have pend: "pending p = 2" unfolding c by simp
  have "4 * int (length (history p) + pending p) + 2 \<le> INT_MAX" by (simp add: h pend)
  from program_answers_all [OF demo_opts(1) _ _ _ _ demo_opts(3,4) m demo_opts(2) demo_envs_ok r this]
  have "\<exists>N. \<forall>k p'. program_runs demo_envs ''(null)'' k p p' \<longrightarrow> k \<le> N" by (simp del: not_all) blast
  with r pend show ?thesis by blast
qed

text \<open>Reading a null bulk string.\<close>

lemma null_bulk_read:
  assumes "rx s = rx_bytes (''*1'' @ CRLF @ ''$-1'' @ CRLF) @ evs"
  shows "app_iter e nl args s = UB" "read_phase s = UB"
proof -
  let ?s1 = "s\<lparr>rx := rx_bytes (''1'' @ CRLF @ ''$-1'' @ CRLF) @ evs\<rparr>" and ?s2 = "s\<lparr>rx := rx_bytes (''$-1'' @ CRLF) @ evs\<rparr>"
  let ?s3 = "s\<lparr>rx := rx_bytes (''-1'' @ CRLF) @ evs\<rparr>"
  have r: "recv_resp_fm_clnt (Suc 0) 3 0 s = Ret (RecvOk [CHR ''*''], ?s1)"
    using assms by (intro recv_one) simp
  have one: "dec_nat 1 = ''1''" by code_simp
  have sz: "get_el_size ?s1 = Ret (1, ?s2)"
    using get_el_size_dec [of 1 ?s1 "rx_bytes (''$-1'' @ CRLF) @ evs"] by (simp add: one [simplified])
  have b: "read_exact_bytes (Suc 0) ?s2 = Ret (1, [CHR ''$''], ?s3)"
    using read_exact_one [of ?s2 "CHR ''$''" "rx_bytes (''-1'' @ CRLF) @ evs"] by simp
  have "lex_bulk_str ?s3 = UB" by (rule null_bulk_crashes) simp
  with b have "lexer_loop (Suc n) 1 0 [] ?s2 = UB" for n by (simp del: lexer_fuel.simps)
  with sz have "lexer ?s1 = UB" unfolding lexer_def by (simp del: lexer_loop.simps)
  with r show "app_iter e nl args s = UB" "read_phase s = UB" by (simp_all add: app_iter_def read_phase_def)
qed

text \<open>C39. Any client can crash the program: when a worker serves a connection on which the one-element array
  with a null bulk string has arrived, its next step has undefined behaviour, whatever the state of the
  data and of the other threads.\<close>

theorem null_bulk_kills_program:
  assumes "i < length (workers (sh (srv p)))" "workers (sh (srv p)) ! i = W_func rq"
    and "rx (c_sock (conns p ! session_of p (fd rq))) = rx_bytes (''*1'' @ CRLF @ ''$-1'' @ CRLF) @ evs"
  shows "program_step envs nl (Thread (Run_Worker i ret)) p = Some UB"
proof -
  let ?s = "c_sock (conns p ! session_of p (fd rq))"
  have "read_phase (?s\<lparr>rx := rx ?s @ [RxByte c]\<rparr>) = UB" for c
    by (rule null_bulk_read(2) [of _ "evs @ [RxByte c]"]) (simp add: assms(3))
  then have "\<not> waits_for_client p rq" by (simp add: waits_for_client_def awaits_def Let_def)
  moreover have "\<exists>s. app_worker q_deq MAIN_RECV_TIMEOUT True i (srv p) = Some (Ret s)"
    using assms(1,2) by (simp add: app_worker_def Let_def)
  ultimately show ?thesis using assms(1,2) null_bulk_read(1) [OF assms(3)] by (auto simp: worker_turn_def Let_def)
qed

lemma crash_actions_eval:
  "(case start_server demo_boot MAIN_PENDING MAIN_WORKERS (Timespec 2 0) q_new q_new of
      None \<Rightarrow> None
    | Some s \<Rightarrow> map_option
        (\<lambda>p. (workers (sh (srv p)), rx (c_sock (conns p ! session_of p 7))))
        (program_run demo_envs ''(null)'' ([Connect 7 [ArrayNode [BulkStringNode None (-1)] 1] [], Arrive 0 9] @
          replicate 4 (Thread (Run_Main True)) @ replicate 5 (Thread (Run_Worker 0 False))) (start_program args s))) =
   Some ([W_func (demo_rq 7 2), W_wait], rx_bytes (''*1'' @ CRLF @ ''$-1'' @ CRLF))"
  by code_simp

theorem null_bulk_kills_program_witness:
  "\<exists>args s p. start_server demo_boot MAIN_PENDING MAIN_WORKERS (Timespec 2 0) q_new q_new = Some s \<and>
    program_reaches demo_envs ''(null)'' (\<lambda>_. True) (start_program args s) p \<and>
    program_step demo_envs ''(null)'' (Thread (Run_Worker 0 False)) p = Some UB"
proof -
  fix args
  obtain s :: qserver where s: "start_server demo_boot MAIN_PENDING MAIN_WORKERS (Timespec 2 0) q_new q_new = Some s"
    using crash_actions_eval by (cases "start_server demo_boot MAIN_PENDING MAIN_WORKERS (Timespec 2 0) q_new q_new :: qserver option") auto
  then obtain p where p: "program_run demo_envs ''(null)'' ([Connect 7 [ArrayNode [BulkStringNode None (-1)] 1] [], Arrive 0 9] @
        replicate 4 (Thread (Run_Main True)) @ replicate 5 (Thread (Run_Worker 0 False))) (start_program args s) = Some p"
    and w: "workers (sh (srv p)) = [W_func (demo_rq 7 2), W_wait]"
      "rx (c_sock (conns p ! session_of p 7)) = rx_bytes (''*1'' @ CRLF @ ''$-1'' @ CRLF)"
    using crash_actions_eval [of args] by auto
  have "program_reaches demo_envs ''(null)'' (\<lambda>_. True) (start_program args s) p"
    by (rule program_run_reaches [OF p _ program_reaches.start]) (simp add: cut_off_def numeral_eq_Suc)
  moreover have "program_step demo_envs ''(null)'' (Thread (Run_Worker 0 False)) p = Some UB"
    using w by (intro null_bulk_kills_program [where rq = "demo_rq 7 2" and evs = "[]"]) simp_all
  ultimately show ?thesis using s by blast
qed

end
