(* ===== verification/Threads.thy ===== *)
theory Threads
  imports Server_Props
begin

text \<open>
  How the threads of \<^verbatim>\<open>server.c\<close> get their arguments: \<^verbatim>\<open>start_server\<close> packs a function pointer and a
  structure of pointers into freshly allocated blocks (\<^verbatim>\<open>init_th_req_queue_mgr\<close>,
  \<^verbatim>\<open>init_th_excd_tm_q_mgr\<close>, \<^verbatim>\<open>init_worker_th\<close>), the new thread unpacks and frees them (\<^verbatim>\<open>run_thread\<close>
  and the prologues of the thread functions), at any later time and in any order.
\<close>

section \<open>Data\<close>

text \<open>Pointers to queues, mutexes and semaphores are numbers, 0 is NULL.\<close>

record ThReqQueueMngrArgs =
  m_req_q :: nat
  m_req_q_mtx :: nat
  m_excd_tm_q :: nat
  m_excd_tm_mtx :: nat
  m_excd_tm_sem :: nat
  m_max_queue_time :: int

record ThExcdTmQMgr =
  d_excd_tm_q :: nat
  d_excd_tm_mtx :: nat
  d_excd_tm_sem :: nat

datatype fn = Fn_req_queue_mgr | Fn_excd_tm_q_mgr | Fn_app_worker | Fn_app_code

record AppWorker =
  w_id :: nat
  w_req_q :: nat
  w_req_q_mtx :: nat
  w_req_q_sem :: nat
  w_func :: fn
  w_recv_timeout :: int

record ThreadFunc =
  fptr :: fn
  th_args :: nat

datatype block = Mgr_Args ThReqQueueMngrArgs | Excd_Args ThExcdTmQMgr | Worker_Args AppWorker | Func ThreadFunc

text \<open>The blocks in use; addresses from \<open>brk\<close> on were never used.\<close>

record mem =
  blocks :: "nat \<Rightarrow> block option"
  brk :: nat

text \<open>What \<^verbatim>\<open>start_server\<close> allocates for the threads to share.\<close>

record shared_ptrs =
  p_req_q :: nat
  p_req_q_mtx :: nat
  p_req_q_sem :: nat
  p_excd_tm_q :: nat
  p_excd_tm_mtx :: nat
  p_excd_tm_sem :: nat

section \<open>Operations\<close>

text \<open>The two \<^verbatim>\<open>calloc\<close> calls of an \<^verbatim>\<open>init_\<close> function, whose results are given; \<open>None\<close> is \<^verbatim>\<open>exit\<close>.\<close>

definition new_thread :: "bool \<times> bool \<Rightarrow> fn \<Rightarrow> block \<Rightarrow> mem \<Rightarrow> (nat \<times> mem) option" where
  "new_thread ok f args m =
     (let a = brk m in
      if fst ok \<and> snd ok
      then Some (a, m\<lparr>blocks := (blocks m)(a \<mapsto> Func \<lparr>fptr = f, th_args = a + 1\<rparr>, a + 1 \<mapsto> args), brk := a + 2\<rparr>)
      else None)"

definition init_th_req_queue_mgr :: "bool \<times> bool \<Rightarrow> nat \<Rightarrow> nat \<Rightarrow> nat \<Rightarrow> nat \<Rightarrow> nat \<Rightarrow> int \<Rightarrow> mem \<Rightarrow> (nat \<times> mem) option" where
  "init_th_req_queue_mgr ok r_q r_mtx e_q e_mtx e_sem max_queue_time m =
     new_thread ok Fn_req_queue_mgr
       (Mgr_Args \<lparr>m_req_q = r_q, m_req_q_mtx = r_mtx, m_excd_tm_q = e_q, m_excd_tm_mtx = e_mtx,
         m_excd_tm_sem = e_sem, m_max_queue_time = max_queue_time\<rparr>) m"

definition init_th_excd_tm_q_mgr :: "bool \<times> bool \<Rightarrow> nat \<Rightarrow> nat \<Rightarrow> nat \<Rightarrow> mem \<Rightarrow> (nat \<times> mem) option" where
  "init_th_excd_tm_q_mgr ok e_q e_mtx e_sem m =
     new_thread ok Fn_excd_tm_q_mgr
       (Excd_Args \<lparr>d_excd_tm_q = e_q, d_excd_tm_mtx = e_mtx, d_excd_tm_sem = e_sem\<rparr>) m"

definition init_worker_th :: "bool \<times> bool \<Rightarrow> nat \<Rightarrow> nat \<Rightarrow> nat \<Rightarrow> nat \<Rightarrow> fn \<Rightarrow> int \<Rightarrow> mem \<Rightarrow> (nat \<times> mem) option" where
  "init_worker_th ok r_q r_mtx r_sem i f recv_timeout m =
     new_thread ok Fn_app_worker
       (Worker_Args \<lparr>w_id = i, w_req_q = r_q, w_req_q_mtx = r_mtx, w_req_q_sem = r_sem, w_func = f,
         w_recv_timeout = recv_timeout\<rparr>) m"

text \<open>The loop of \<^verbatim>\<open>create_workers_pool\<close> with \<open>k\<close> workers still to create.\<close>

fun spawn_workers :: "(nat \<Rightarrow> bool \<times> bool) \<Rightarrow> (nat \<Rightarrow> errno) \<Rightarrow> shared_ptrs \<Rightarrow> fn \<Rightarrow> int \<Rightarrow> nat \<Rightarrow> nat \<Rightarrow> mem \<Rightarrow>
    (nat list \<times> mem) option" where
  "spawn_workers ok crt p f rt nr_thds_created 0 m = Some ([], m)"
| "spawn_workers ok crt p f rt nr_thds_created (Suc k) m =
     (case init_worker_th (ok nr_thds_created) (p_req_q p) (p_req_q_mtx p) (p_req_q_sem p) nr_thds_created f rt m of
        None \<Rightarrow> None
      | Some (th, m1) \<Rightarrow>
         (case create_thread (crt nr_thds_created) of
            None \<Rightarrow> None
          | Some _ \<Rightarrow>
             (case spawn_workers ok crt p f rt (nr_thds_created + 1) k m1 of
                None \<Rightarrow> None
              | Some (ths, m2) \<Rightarrow> Some (th # ths, m2))))"

text \<open>The threads that \<^verbatim>\<open>start_server\<close> creates.\<close>

definition start_threads :: "(nat \<Rightarrow> bool \<times> bool) \<Rightarrow> (nat \<Rightarrow> errno) \<Rightarrow> shared_ptrs \<Rightarrow> fn \<Rightarrow> int \<Rightarrow> nat \<Rightarrow> int \<Rightarrow> mem \<Rightarrow>
    (nat list \<times> mem) option" where
  "start_threads ok crt p f max_queue_time max_app_workers recv_timeout m =
     (case init_th_req_queue_mgr (ok 0) (p_req_q p) (p_req_q_mtx p) (p_excd_tm_q p) (p_excd_tm_mtx p) (p_excd_tm_sem p)
         max_queue_time m of
        None \<Rightarrow> None
      | Some (th_rq_q_mng, m1) \<Rightarrow>
         (case create_thread (crt 0) of
            None \<Rightarrow> None
          | Some _ \<Rightarrow>
             (case init_th_excd_tm_q_mgr (ok 1) (p_excd_tm_q p) (p_excd_tm_mtx p) (p_excd_tm_sem p) m1 of
                None \<Rightarrow> None
              | Some (th_exd_tm_mgr, m2) \<Rightarrow>
                 (case create_thread (crt 1) of
                    None \<Rightarrow> None
                  | Some _ \<Rightarrow>
                     (case spawn_workers (\<lambda>i. ok (i + 2)) (\<lambda>i. crt (i + 2)) p f recv_timeout 0 max_app_workers m2 of
                        None \<Rightarrow> None
                      | Some (ths, m3) \<Rightarrow> Some (th_rq_q_mng # th_exd_tm_mgr # ths, m3))))))"

definition free_block :: "nat \<Rightarrow> mem \<Rightarrow> mem outcome" where
  "free_block a m = (if blocks m a = None then UB else Ret (m\<lparr>blocks := (blocks m)(a := None)\<rparr>))"

text \<open>What a thread function does before its loop: the loop it enters with its local variables.\<close>

datatype entered = Mgr_Loop ThReqQueueMngrArgs | Excd_Loop ThExcdTmQMgr | Worker_Loop AppWorker | Returned

definition enter :: "fn \<Rightarrow> nat \<Rightarrow> mem \<Rightarrow> (entered \<times> mem) outcome" where
  "enter f a m =
     (case (f, blocks m a) of
        (Fn_req_queue_mgr, Some (Mgr_Args r)) \<Rightarrow>
          obind (free_block a m) (\<lambda>m. Ret (if m_req_q r = 0 then Returned else Mgr_Loop r, m))
      | (Fn_excd_tm_q_mgr, Some (Excd_Args r)) \<Rightarrow> obind (free_block a m) (\<lambda>m. Ret (Excd_Loop r, m))
      | (Fn_app_worker, Some (Worker_Args r)) \<Rightarrow> Ret (Worker_Loop r, m)
      | _ \<Rightarrow> UB)"

definition run_thread :: "nat \<Rightarrow> mem \<Rightarrow> (entered \<times> mem) outcome" where
  "run_thread a m =
     (case blocks m a of
        Some (Func th) \<Rightarrow> obind (free_block a m) (\<lambda>m. enter (fptr th) (th_args th) m)
      | _ \<Rightarrow> UB)"

text \<open>The new threads get to run in some order.\<close>

fun run_threads :: "nat list \<Rightarrow> mem \<Rightarrow> (entered list \<times> mem) outcome" where
  "run_threads [] m = Ret ([], m)"
| "run_threads (a # as) m =
     obind (run_thread a m) (\<lambda>(e, m1). obind (run_threads as m1) (\<lambda>(es, m2). Ret (e # es, m2)))"

text \<open>The clean-up at the end of \<^verbatim>\<open>start_server\<close>: \<^verbatim>\<open>free(th->args); free(th);\<close> for the first two threads.\<close>

definition free_thread :: "nat \<Rightarrow> mem \<Rightarrow> mem outcome" where
  "free_thread a m =
     (case blocks m a of
        Some (Func th) \<Rightarrow> obind (free_block (th_args th) m) (free_block a)
      | _ \<Rightarrow> UB)"

section \<open>The memory while the threads start\<close>

text \<open>The loop that the \<open>j\<close>-th thread is meant to run.\<close>

definition wired :: "shared_ptrs \<Rightarrow> fn \<Rightarrow> int \<Rightarrow> int \<Rightarrow> nat \<Rightarrow> entered" where
  "wired p f mq rt j =
     (if j = 0 then Mgr_Loop \<lparr>m_req_q = p_req_q p, m_req_q_mtx = p_req_q_mtx p, m_excd_tm_q = p_excd_tm_q p,
        m_excd_tm_mtx = p_excd_tm_mtx p, m_excd_tm_sem = p_excd_tm_sem p, m_max_queue_time = mq\<rparr>
      else if j = 1 then Excd_Loop \<lparr>d_excd_tm_q = p_excd_tm_q p, d_excd_tm_mtx = p_excd_tm_mtx p, d_excd_tm_sem = p_excd_tm_sem p\<rparr>
      else Worker_Loop \<lparr>w_id = j - 2, w_req_q = p_req_q p, w_req_q_mtx = p_req_q_mtx p, w_req_q_sem = p_req_q_sem p,
        w_func = f, w_recv_timeout = rt\<rparr>)"

fun fn_of :: "entered \<Rightarrow> fn" where
  "fn_of (Mgr_Loop r) = Fn_req_queue_mgr"
| "fn_of (Excd_Loop r) = Fn_excd_tm_q_mgr"
| "fn_of (Worker_Loop r) = Fn_app_worker"
| "fn_of Returned = Fn_app_code"

fun args_of :: "entered \<Rightarrow> block option" where
  "args_of (Mgr_Loop r) = Some (Mgr_Args r)"
| "args_of (Excd_Loop r) = Some (Excd_Args r)"
| "args_of (Worker_Loop r) = Some (Worker_Args r)"
| "args_of Returned = None"

text \<open>The blocks of \<open>n\<close> created threads of which those in \<open>R\<close> have entered their loops.\<close>

definition thread_mem :: "(nat \<Rightarrow> entered) \<Rightarrow> mem \<Rightarrow> nat \<Rightarrow> nat set \<Rightarrow> mem" where
  "thread_mem w m0 n R =
     \<lparr>blocks = (\<lambda>a.
        if a < brk m0 \<or> brk m0 + 2 * n \<le> a then blocks m0 a
        else let j = (a - brk m0) div 2 in
          if even (a - brk m0)
          then (if j \<in> R then None else Some (Func \<lparr>fptr = fn_of (w j), th_args = a + 1\<rparr>))
          else (if j \<in> R \<and> j < 2 then None else args_of (w j))),
      brk = brk m0 + 2 * n\<rparr>"

lemma thread_mem_0: "thread_mem w m0 0 R = m0"
  by (rule mem.equality) (auto simp: thread_mem_def fun_eq_iff)

lemma thread_mem_block:
  assumes "j < n"
  shows "blocks (thread_mem w m0 n R) (brk m0 + 2 * j) =
      (if j \<in> R then None else Some (Func \<lparr>fptr = fn_of (w j), th_args = brk m0 + 2 * j + 1\<rparr>))"
    "blocks (thread_mem w m0 n R) (Suc (brk m0 + 2 * j)) = (if j \<in> R \<and> j < 2 then None else args_of (w j))"
  using assms by (simp_all add: thread_mem_def)

text \<open>An address is one of the two of a thread, or not a thread's.\<close>

lemma address_cases:
  fixes a b n :: nat
  obtains (func) j where "j < n" "a = b + 2 * j" | (args) j where "j < n" "a = Suc (b + 2 * j)"
    | (outside) "a < b \<or> b + 2 * n \<le> a"
proof (cases "a < b \<or> b + 2 * n \<le> a")
  case False
  then obtain c where c: "a = b + c" "c < 2 * n" by (metis add_less_cancel_left le_Suc_ex not_le)
  show ?thesis
  proof (cases "even c")
    case True
    with c func [of "c div 2"] show ?thesis by auto
  next
    case odd: False
    then have "c = Suc (2 * (c div 2))" by presburger
    with c args [of "c div 2"] show ?thesis by auto
  qed
qed (rule outside)

lemma mem_eqI:
  assumes "brk m = brk m'" "\<And>a. blocks m a = blocks m' a"
  shows "m = (m' :: mem)"
  using assms by (intro mem.equality) auto

lemma new_thread_mem:
  assumes "fst ok" "snd ok" "fn_of (w n) = f" "args_of (w n) = Some blk"
  shows "new_thread ok f blk (thread_mem w m0 n {}) = Some (brk m0 + 2 * n, thread_mem w m0 (Suc n) {})"
proof -
  let ?m = "thread_mem w m0 n {}" and ?a = "brk m0 + 2 * n"
  have "?m\<lparr>blocks := (blocks ?m)(?a \<mapsto> Func \<lparr>fptr = f, th_args = ?a + 1\<rparr>, ?a + 1 \<mapsto> blk), brk := ?a + 2\<rparr> =
      thread_mem w m0 (Suc n) {}" (is "?l = ?r")
  proof (rule mem_eqI)
    fix a
    show "blocks ?l a = blocks ?r a"
    proof (cases rule: address_cases [where a = a and b = "brk m0" and n = n])
      case (func j)
      then show ?thesis using thread_mem_block(1) [of j n] thread_mem_block(1) [of j "Suc n"] by simp
    next
      case (args j)
      then show ?thesis using thread_mem_block(2) [of j n] thread_mem_block(2) [of j "Suc n"] by simp
    next
      case outside
      have "a = ?a \<or> a = Suc ?a \<or> a < brk m0 \<or> brk m0 + 2 * Suc n \<le> a" using outside by auto
      then show ?thesis
        using thread_mem_block [of n "Suc n" w m0 "{}"] assms(3,4) outside
        by (elim disjE) (simp_all add: thread_mem_def)
    qed
  qed (simp add: thread_mem_def)
  moreover have "brk ?m = ?a" by (simp add: thread_mem_def)
  ultimately show ?thesis using assms(1,2) by (simp add: new_thread_def Let_def)
qed

lemma spawn_workers_mem:
  assumes "\<forall>i. fst (ok i) \<and> snd (ok i)"
  shows "\<forall>j. i \<le> j \<and> j < i + k \<longrightarrow> crt j = 0 \<Longrightarrow>
    spawn_workers ok crt p f rt i k (thread_mem (wired p f mq rt) m0 (i + 2) {}) =
      Some (map (\<lambda>j. brk m0 + 2 * j) [i + 2..<i + 2 + k], thread_mem (wired p f mq rt) m0 (i + 2 + k) {})"
proof (induction k arbitrary: i)
  case (Suc k)
  have "init_worker_th (ok i) (p_req_q p) (p_req_q_mtx p) (p_req_q_sem p) i f rt (thread_mem (wired p f mq rt) m0 (i + 2) {}) =
      Some (brk m0 + 2 * (i + 2), thread_mem (wired p f mq rt) m0 (Suc (i + 2)) {})"
    unfolding init_worker_th_def by (rule new_thread_mem) (use assms in \<open>auto simp: wired_def\<close>)
  moreover have "create_thread (crt i) = Some ()" using Suc.prems by (simp add: create_thread_def)
  moreover have "\<forall>j. i + 1 \<le> j \<and> j < i + 1 + k \<longrightarrow> crt j = 0" using Suc.prems by auto
  note Suc.IH [OF this]
  moreover have "[i + 2..<i + 2 + Suc k] = (i + 2) # [i + 1 + 2..<i + 1 + 2 + k]"
    by (subst upt_conv_Cons) (simp_all add: ac_simps)
  ultimately show ?case by (simp del: upt_Suc)
qed simp

lemma start_threads_mem:
  assumes "\<forall>i. fst (ok i) \<and> snd (ok i)" "\<forall>j<n + 2. crt j = 0"
  shows "start_threads ok crt p f mq n rt m0 =
    Some (map (\<lambda>j. brk m0 + 2 * j) [0..<n + 2], thread_mem (wired p f mq rt) m0 (n + 2) {})"
proof -
  let ?w = "wired p f mq rt"
  have "init_th_req_queue_mgr (ok 0) (p_req_q p) (p_req_q_mtx p) (p_excd_tm_q p) (p_excd_tm_mtx p) (p_excd_tm_sem p) mq
      (thread_mem ?w m0 0 {}) = Some (brk m0 + 2 * 0, thread_mem ?w m0 (Suc 0) {})"
    unfolding init_th_req_queue_mgr_def by (rule new_thread_mem) (use assms(1) in \<open>auto simp: wired_def\<close>)
  moreover have "init_th_excd_tm_q_mgr (ok 1) (p_excd_tm_q p) (p_excd_tm_mtx p) (p_excd_tm_sem p)
      (thread_mem ?w m0 (Suc 0) {}) = Some (brk m0 + 2 * Suc 0, thread_mem ?w m0 (Suc (Suc 0)) {})"
    unfolding init_th_excd_tm_q_mgr_def by (rule new_thread_mem) (use assms(1) in \<open>auto simp: wired_def\<close>)
  moreover have "spawn_workers (\<lambda>i. ok (i + 2)) (\<lambda>i. crt (i + 2)) p f rt 0 n (thread_mem ?w m0 (0 + 2) {}) =
      Some (map (\<lambda>j. brk m0 + 2 * j) [0 + 2..<0 + 2 + n], thread_mem ?w m0 (0 + 2 + n) {})"
    by (rule spawn_workers_mem) (use assms in auto)
  moreover have "create_thread (crt 0) = Some ()" "create_thread (crt 1) = Some ()"
    using assms(2) by (simp_all add: create_thread_def)
  moreover have "[0..<n + 2] = 0 # 1 # [2..<2 + n]"
    by (simp add: upt_conv_Cons numeral_2_eq_2 del: upt_Suc)
  ultimately show ?thesis
    by (simp add: start_threads_def thread_mem_0 numeral_2_eq_2 add.commute del: upt_Suc)
qed

lemma run_thread_mem:
  assumes "j < n" "j \<notin> R" "p_req_q p \<noteq> 0"
  shows "run_thread (brk m0 + 2 * j) (thread_mem (wired p f mq rt) m0 n R) =
    Ret (wired p f mq rt j, thread_mem (wired p f mq rt) m0 n (insert j R))"
proof -
  let ?w = "wired p f mq rt" and ?a = "brk m0 + 2 * j"
  let ?m = "thread_mem ?w m0 n R"
  note own = thread_mem_block [OF assms(1), of ?w m0 R]
  have other: "blocks (thread_mem ?w m0 n (insert j R)) a = blocks ?m a" if "a \<noteq> ?a" "a \<noteq> Suc ?a" for a
  proof (cases rule: address_cases [where a = a and b = "brk m0" and n = n])
    case (func i)
    with that(1) thread_mem_block(1) [OF func(1)] show ?thesis by auto
  next
    case (args i)
    with that(2) thread_mem_block(2) [OF args(1)] show ?thesis by auto
  qed (simp add: thread_mem_def)
  have freed: "?m\<lparr>blocks := (if j < 2 then (blocks ?m)(?a := None, Suc ?a := None) else (blocks ?m)(?a := None))\<rparr> =
      thread_mem ?w m0 n (insert j R)" (is "?l = ?r")
  proof (rule mem_eqI)
    fix a
    show "blocks ?l a = blocks ?r a"
      using other [of a] thread_mem_block [OF assms(1), of ?w m0 "insert j R"] own
      by (cases "a = ?a"; cases "a = Suc ?a") simp_all
  qed (simp add: thread_mem_def)
  consider "j = 0" | "j = 1" | "2 \<le> j" by linarith
  then show ?thesis
    using assms own freed thread_mem_block(2) [OF assms(1), of ?w m0 "insert j R"]
    by cases (simp_all add: run_thread_def enter_def free_block_def wired_def)
qed

lemma run_threads_mem:
  assumes "p_req_q p \<noteq> 0"
  shows "distinct js \<Longrightarrow> set js \<subseteq> {..<n} - R \<Longrightarrow>
    run_threads (map (\<lambda>j. brk m0 + 2 * j) js) (thread_mem (wired p f mq rt) m0 n R) =
      Ret (map (wired p f mq rt) js, thread_mem (wired p f mq rt) m0 n (set js \<union> R))"
proof (induction js arbitrary: R)
  case (Cons j js)
  have "run_threads (map (\<lambda>j. brk m0 + 2 * j) js) (thread_mem (wired p f mq rt) m0 n (insert j R)) =
      Ret (map (wired p f mq rt) js, thread_mem (wired p f mq rt) m0 n (set js \<union> insert j R))"
    by (rule Cons.IH) (use Cons.prems in auto)
  moreover have "run_thread (brk m0 + 2 * j) (thread_mem (wired p f mq rt) m0 n R) =
      Ret (wired p f mq rt j, thread_mem (wired p f mq rt) m0 n (insert j R))"
    by (rule run_thread_mem) (use Cons.prems assms in auto)
  ultimately show ?case by simp
qed simp

lemma start_server_created:
  assumes "start_server b pend n now q1 q2 = Some s"
  shows "\<forall>j<n + 2. pthread_create_rtn b j = 0"
proof (intro allI impI)
  fix j assume j: "j < n + 2"
  have c: "pthread_create_rtn b 0 = 0" "pthread_create_rtn b 1 = 0" "\<forall>i<n. pthread_create_rtn b (i + 2) = 0"
    using assms pool_loop_exact [of 0 n "\<lambda>k. pthread_create_rtn b (k + 2)" "[]"]
    by (auto simp: start_server_def create_workers_pool_def create_thread_def Let_def split: option.splits if_splits)
  consider "j = 0" | "j = 1" | i where "j = i + 2" "i < n"
    using j that(1,2) that(3) [of "j - 2"] by (cases "j < 2") (auto simp: less_2_cases_iff)
  then show "pthread_create_rtn b j = 0" using c by cases auto
qed

section \<open>Properties\<close>

text \<open>C24. Whenever \<^verbatim>\<open>start_server\<close> gets to its accept loop, it has created one thread per worker and two
  more, and in whatever order these get to run, each unpacks, without touching freed or foreign memory,
  exactly the queues, mutexes and semaphores meant for it: the manager shares the request queue with the
  workers and the second queue with the denier, worker \<open>i\<close> has number \<open>i\<close>. The manager and the denier
  free all their blocks, so that the clean-up code after the loop would use freed memory.\<close>

theorem threads_wired:
  assumes "start_server b pend n now q1 q2 = Some s" "\<forall>i. fst (ok i) \<and> snd (ok i)" "p_req_q p \<noteq> 0"
    and "distinct js" "set js \<subseteq> {..<n + 2}"
  shows "\<exists>ths m m'. start_threads ok (pthread_create_rtn b) p f mq n rt m0 = Some (ths, m) \<and>
    length ths = length (workers (sh s)) + 2 \<and>
    run_threads (map ((!) ths) js) m = Ret (map (wired p f mq rt) js, m') \<and>
    (\<forall>a<brk m0. blocks m' a = blocks m0 a) \<and>
    (\<forall>j\<in>set js. blocks m' (ths ! j) = None \<and> (blocks m' (Suc (ths ! j)) = None \<longleftrightarrow> j < 2) \<and>
       (j < 2 \<longrightarrow> free_thread (ths ! j) m' = UB))"
proof -
  have crt: "\<forall>j<n + 2. pthread_create_rtn b j = 0"
    using start_server_created [OF assms(1)] .
  let ?w = "wired p f mq rt" and ?ths = "map (\<lambda>j. brk m0 + 2 * j) [0..<n + 2]"
  have nth: "j < n + 2 \<Longrightarrow> ?ths ! j = brk m0 + 2 * j" for j by (simp del: upt_Suc)
  have eq: "map ((!) ?ths) js = map (\<lambda>j. brk m0 + 2 * j) js" using assms(5) nth by (intro map_cong) auto
  have run: "run_threads (map ((!) ?ths) js) (thread_mem ?w m0 (n + 2) {}) =
      Ret (map ?w js, thread_mem ?w m0 (n + 2) (set js))"
    unfolding eq using run_threads_mem [OF assms(3,4), of "n + 2" "{}"] assms(5) by simp
  have blk: "blocks (thread_mem ?w m0 (n + 2) (set js)) (?ths ! j) = None"
    "blocks (thread_mem ?w m0 (n + 2) (set js)) (Suc (?ths ! j)) = None \<longleftrightarrow> j < 2" if "j \<in> set js" for j
  proof -
    from that assms(5) have j: "j < n + 2" by auto
    show "blocks (thread_mem ?w m0 (n + 2) (set js)) (?ths ! j) = None"
      "blocks (thread_mem ?w m0 (n + 2) (set js)) (Suc (?ths ! j)) = None \<longleftrightarrow> j < 2"
      unfolding nth [OF j] using thread_mem_block [OF j, of ?w m0 "set js"] that by (auto simp: wired_def)
  qed
  have "length (workers (sh s)) = n" using start_server_Some [OF assms(1)] by simp
  moreover have "\<forall>a<brk m0. blocks (thread_mem ?w m0 (n + 2) (set js)) a = blocks m0 a" by (simp add: thread_mem_def)
  moreover have "\<forall>j\<in>set js. j < 2 \<longrightarrow> free_thread (?ths ! j) (thread_mem ?w m0 (n + 2) (set js)) = UB"
    using blk(1) by (simp add: free_thread_def)
  ultimately show ?thesis
    using start_threads_mem [OF assms(2) crt, of p f mq rt m0] run blk
    by (intro exI [of _ ?ths] exI [of _ "thread_mem ?w m0 (n + 2) {}"] exI [of _ "thread_mem ?w m0 (n + 2) (set js)"])
      (simp del: upt_Suc)
qed

theorem threads_wired_witness:
  "\<exists>m' ths m. start_threads (\<lambda>_. (True, True)) (\<lambda>_. 0)
      \<lparr>p_req_q = 1, p_req_q_mtx = 2, p_req_q_sem = 3, p_excd_tm_q = 4, p_excd_tm_mtx = 5, p_excd_tm_sem = 6\<rparr>
      Fn_app_code 500 2 0 \<lparr>blocks = (\<lambda>_. None), brk = 7\<rparr> = Some (ths, m) \<and>
    run_threads (map ((!) ths) [3, 1, 0]) m =
      Ret ([Worker_Loop \<lparr>w_id = 1, w_req_q = 1, w_req_q_mtx = 2, w_req_q_sem = 3, w_func = Fn_app_code, w_recv_timeout = 0\<rparr>,
        Excd_Loop \<lparr>d_excd_tm_q = 4, d_excd_tm_mtx = 5, d_excd_tm_sem = 6\<rparr>,
        Mgr_Loop \<lparr>m_req_q = 1, m_req_q_mtx = 2, m_excd_tm_q = 4, m_excd_tm_mtx = 5, m_excd_tm_sem = 6, m_max_queue_time = 500\<rparr>], m')"
proof -
  have "(start_server demo_boot 10 2 (Timespec 5 0) q_new q_new :: qserver option) \<noteq> None" by code_simp
  then obtain s :: qserver where "start_server demo_boot 10 2 (Timespec 5 0) q_new q_new = Some s" by auto
  from threads_wired [OF this, of "\<lambda>_. (True, True)"
      "\<lparr>p_req_q = 1, p_req_q_mtx = 2, p_req_q_sem = 3, p_excd_tm_q = 4, p_excd_tm_mtx = 5, p_excd_tm_sem = 6\<rparr>" "[3, 1, 0]"
      Fn_app_code 500 0 "\<lparr>blocks = (\<lambda>_. None), brk = 7\<rparr>"]
  show ?thesis by (auto simp: demo_boot_def wired_def)
qed

end
