(* ===== verification/Rdb_Parser.thy ===== *)
theory Rdb_Parser
  imports Prelude
begin

text \<open>
  The RDB file reader of \<^verbatim>\<open>src/src/rdb_file_parser.c\<close>, which no other part of the program calls yet.
  A file is the list of bytes not read so far. \<open>pad\<close> is the byte that happens to follow a buffer in
  memory: \<^verbatim>\<open>strcmp\<close> reads it because the header buffers have no room for a terminating NUL. \<open>mem n\<close>
  tells whether \<^verbatim>\<open>calloc\<close> can deliver \<open>n\<close> bytes.
\<close>

section \<open>Data\<close>

type_synonym byte = "8 word"

definition bytes_of :: "string \<Rightarrow> byte list" where
  "bytes_of s = map of_char s"

definition cbytes :: "byte list \<Rightarrow> byte list" where
  "cbytes bs = takeWhile (\<lambda>b. b \<noteq> 0) bs"

definition MAGIC_NMB_SZ :: nat where "MAGIC_NMB_SZ = 5"
definition REDIS_VER_SZ :: nat where "REDIS_VER_SZ = 4"
definition LENGTH_MASK :: byte where "LENGTH_MASK = 0x3F"

text \<open>The opcodes are \<^verbatim>\<open>int\<close> constants.\<close>

definition AUX :: int where "AUX = 0xFA"
definition RESIZEDB :: int where "RESIZEDB = 0xFB"
definition EXPIRETIMEMS :: int where "EXPIRETIMEMS = 0xFC"
definition EXPIRETIME :: int where "EXPIRETIME = 0xFD"
definition SELECTDB :: int where "SELECTDB = 0xFE"
definition RDB_EOF :: int where "RDB_EOF = 0xFF"

lemmas opcode_defs = AUX_def RESIZEDB_def EXPIRETIMEMS_def EXPIRETIME_def SELECTDB_def RDB_EOF_def

datatype KeyValueStatesRdb = READING_KEY | READING_VALUE

datatype RdbLenEncodingTypes = REDIS_RDB_6BITLEN | REDIS_RDB_14BITLEN | REDIS_RDB_32BITLEN | REDIS_SPECIAL_FORMAT

record RdbLengthEncoding =
  encoding_type :: RdbLenEncodingTypes
  length_or_format :: int

section \<open>Operations\<close>

definition fread :: "nat \<Rightarrow> byte list \<Rightarrow> byte list \<times> byte list" where
  "fread n f = (take n f, drop n f)"

definition is_next_state_an_opcode :: "byte \<Rightarrow> bool" where
  "is_next_state_an_opcode b \<longleftrightarrow> uint b \<in> {SELECTDB, AUX, RESIZEDB, EXPIRETIMEMS, EXPIRETIME, RDB_EOF}"

unbundle bit_operations_syntax

text \<open>Bytes read into a \<^verbatim>\<open>char\<close> array are signed; they are converted to \<^verbatim>\<open>int\<close> before shifting.\<close>

definition parse_length_encoding :: "byte \<Rightarrow> byte list \<Rightarrow> RdbLengthEncoding \<times> byte list" where
  "parse_length_encoding b f =
     (let temp = uint (drop_bit 6 b) in
      if temp = 0 then (\<lparr>encoding_type = REDIS_RDB_6BITLEN, length_or_format = uint (b AND LENGTH_MASK)\<rparr>, f)
      else if temp = 1 then
        (case fread 1 f of
           ([extra_byte], f') \<Rightarrow>
             (\<lparr>encoding_type = REDIS_RDB_14BITLEN,
               length_or_format = sint (push_bit 8 (ucast extra_byte :: 32 word) OR ucast (b AND LENGTH_MASK))\<rparr>, f')
         | (_, f') \<Rightarrow> (\<lparr>encoding_type = REDIS_RDB_14BITLEN, length_or_format = -1\<rparr>, f'))
      else if temp = 2 then
        (case fread 4 f of
           ([l0, l1, l2, l3], f') \<Rightarrow>
             (\<lparr>encoding_type = REDIS_RDB_32BITLEN,
               length_or_format =
                 sint (push_bit 24 (scast l3 :: 32 word) OR push_bit 16 (scast l2) OR
                       push_bit 8 (scast l1) OR scast l0)\<rparr>, f')
         | (_, f') \<Rightarrow> (\<lparr>encoding_type = REDIS_RDB_32BITLEN, length_or_format = -1\<rparr>, f'))
      else (\<lparr>encoding_type = REDIS_SPECIAL_FORMAT, length_or_format = uint (b AND LENGTH_MASK)\<rparr>, f))"

text \<open>\<^verbatim>\<open>get_str\<close>: the filled buffer, the rest of the file, and whether the file is still correct.\<close>

definition get_str :: "byte list option \<Rightarrow> int \<Rightarrow> byte list \<Rightarrow> bool \<Rightarrow> byte list option \<times> byte list \<times> bool" where
  "get_str str sz f correct =
     (if str = None \<or> sz = 0 then (str, f, correct)
      else (let (bs, f') = fread (nat sz) f in (Some bs, f', if length bs < nat sz then False else correct)))"

record kvp_arr =
  aux_key :: "byte list option"
  aux_val :: "byte list option"

definition no_kvp :: kvp_arr where
  "no_kvp = \<lparr>aux_key = None, aux_val = None\<rparr>"

definition label_len_encoding_and_get_str :: "KeyValueStatesRdb \<Rightarrow> kvp_arr \<Rightarrow> RdbLengthEncoding \<Rightarrow> bool \<Rightarrow>
    byte list option \<Rightarrow> byte list \<Rightarrow> KeyValueStatesRdb \<times> kvp_arr \<times> bool \<times> byte list" where
  "label_len_encoding_and_get_str next_reading_state kvp rdb correct bufp f =
     (if encoding_type rdb = REDIS_SPECIAL_FORMAT then (next_reading_state, kvp, False, f)
      else if next_reading_state = READING_KEY then
        (let (str, f', c) = get_str bufp (length_or_format rdb) f correct in
         (READING_VALUE, kvp\<lparr>aux_key := str\<rparr>, c, f'))
      else
        (let (str, f', c) = get_str bufp (length_or_format rdb) f correct in
         (READING_KEY, kvp\<lparr>aux_val := str\<rparr>, c, f')))"

definition aux_settings :: "string list" where
  "aux_settings = [''redis-ver'', ''redis-bits'', ''ctime'', ''used-mem'']"

text \<open>What \<^verbatim>\<open>auxiliary_field_settings\<close> prints.\<close>

definition auxiliary_field_settings :: "byte list option \<Rightarrow> byte list option \<Rightarrow> (byte list \<times> byte list) list" where
  "auxiliary_field_settings key val =
     (case (key, val) of
        (Some k, Some v) \<Rightarrow>
          concat (map (\<lambda>setting. if bytes_of setting = cbytes k then [(cbytes k, cbytes v)] else []) aux_settings)
      | _ \<Rightarrow> [])"

text \<open>The result of \<^verbatim>\<open>parse_aux\<close>: whether the file is correct, the last byte read, the rest of the file
  and what was printed.\<close>

record aux_result =
  correct :: bool
  next_byte :: byte
  rest :: "byte list"
  printed :: "(byte list \<times> byte list) list"

lemma fread_length: "fread n f = (bs, f') \<Longrightarrow> length f' \<le> length f"
  by (auto simp: fread_def)

lemma parse_length_le: "parse_length_encoding b f = (rdb, f') \<Longrightarrow> length f' \<le> length f"
  by (auto simp: parse_length_encoding_def fread_def Let_def split: if_splits list.splits)

lemma get_str_le: "get_str str sz f c = (str', f', c') \<Longrightarrow> length f' \<le> length f"
  by (auto simp: get_str_def fread_def split: if_splits)

lemma label_le: "label_len_encoding_and_get_str st kvp rdb c bufp f = (st', kvp', c', f') \<Longrightarrow> length f' \<le> length f"
  by (auto simp: label_len_encoding_and_get_str_def dest: get_str_le split: if_splits prod.splits)

text \<open>The loop of \<^verbatim>\<open>parse_aux\<close>. A length of \<^verbatim>\<open>INT_MAX\<close> overflows in \<^verbatim>\<open>length+1\<close>.\<close>

function aux_loop :: "(int \<Rightarrow> bool) \<Rightarrow> KeyValueStatesRdb \<Rightarrow> kvp_arr \<Rightarrow> (byte list \<times> byte list) list \<Rightarrow> byte \<Rightarrow>
    byte list \<Rightarrow> aux_result outcome" where
  "aux_loop mem st kvp out b f =
     (case parse_length_encoding b f of
        (rdb, f1) \<Rightarrow>
          if length_or_format rdb = -1 then Ret \<lparr>correct = False, next_byte = b, rest = f1, printed = out\<rparr>
          else if length_or_format rdb = 2 ^ 31 - 1 then UB
          else
            (let n = length_or_format rdb;
                 bufp = (if 0 \<le> n \<and> mem (n + 1) then Some [] else None) in
             case label_len_encoding_and_get_str st kvp rdb True bufp f1 of
               (st', kvp', c, f2) \<Rightarrow>
                 (let out' = (if st' = READING_KEY \<and> c
                              then out @ auxiliary_field_settings (aux_key kvp') (aux_val kvp') else out);
                      kvp'' = (if st' = READING_KEY \<and> c then no_kvp else kvp') in
                  if \<not> c then Ret \<lparr>correct = False, next_byte = b, rest = f2, printed = out'\<rparr>
                  else
                    (case f2 of
                       [] \<Rightarrow> Ret \<lparr>correct = False, next_byte = b, rest = [], printed = out'\<rparr>
                     | b' # f3 \<Rightarrow>
                         if is_next_state_an_opcode b'
                         then Ret \<lparr>correct = True, next_byte = b', rest = f3, printed = out'\<rparr>
                         else aux_loop mem st' kvp'' out' b' f3))))"
  by pat_completeness auto
termination
  by (relation "measure (\<lambda>(mem, st, kvp, out, b, f). length f)")
    (auto dest!: sym [THEN parse_length_le] sym [THEN label_le])

declare aux_loop.simps [simp del]

definition parse_aux :: "(int \<Rightarrow> bool) \<Rightarrow> byte \<Rightarrow> byte \<Rightarrow> byte list \<Rightarrow> aux_result outcome" where
  "parse_aux mem prev next_st f =
     (if uint prev \<noteq> AUX then Ret \<lparr>correct = False, next_byte = next_st, rest = f, printed = []\<rparr>
      else if is_next_state_an_opcode next_st
      then Ret \<lparr>correct = (uint next_st = SELECTDB), next_byte = next_st, rest = f, printed = []\<rparr>
      else aux_loop mem READING_KEY no_kvp [] next_st f)"

text \<open>\<^verbatim>\<open>handle_aux_state\<close> reads both states through \<^verbatim>\<open>char*\<close>, which is signed.\<close>

record rdb_state =
  curr_state :: byte
  next_state :: byte
  is_correct :: bool
  fp :: "byte list"

definition handle_aux_state :: "(int \<Rightarrow> bool) \<Rightarrow> rdb_state \<Rightarrow> rdb_state outcome" where
  "handle_aux_state mem s =
     (if sint (curr_state s) \<noteq> 0x0F \<or> sint (next_state s) \<noteq> AUX then Ret (s\<lparr>is_correct := False\<rparr>)
      else
        (case fp s of
           [] \<Rightarrow> Ret (s\<lparr>curr_state := next_state s, is_correct := False\<rparr>)
         | b # f \<Rightarrow>
             obind (parse_aux mem (next_state s) b f) (\<lambda>r.
             Ret \<lparr>curr_state = next_state s, next_state = next_byte r, is_correct = correct r, fp = rest r\<rparr>)))"

definition is_magic_header_correct :: "byte \<Rightarrow> byte list \<Rightarrow> nat \<Rightarrow> bool" where
  "is_magic_header_correct pad bufr nr_rd_el \<longleftrightarrow>
     \<not> nr_rd_el < MAGIC_NMB_SZ \<and> bufr @ [pad] = bytes_of ''REDIS'' @ [0]"

definition available_versions :: "string list" where
  "available_versions = [''0001'', ''0002'', ''0003'', ''0004'', ''0005'', ''0006'', ''0007'', ''0008'',
     ''0009'', ''0010'', ''0011'']"

definition is_version_number_correct :: "byte \<Rightarrow> byte list \<Rightarrow> nat \<Rightarrow> bool" where
  "is_version_number_correct pad bufr nr_rd_el \<longleftrightarrow>
     \<not> nr_rd_el < REDIS_VER_SZ \<and> list_ex (\<lambda>v. bufr @ [pad] = bytes_of v @ [0]) available_versions"

text \<open>\<^verbatim>\<open>parse_rdb_header\<close>. \<^verbatim>\<open>allocate_mem\<close> tests its argument instead of the result of \<^verbatim>\<open>calloc\<close> and so always
  succeeds; without memory the next \<^verbatim>\<open>fread\<close> gets a NULL buffer.\<close>

definition parse_rdb_header :: "(int \<Rightarrow> bool) \<Rightarrow> byte \<Rightarrow> byte \<Rightarrow> byte list \<Rightarrow> (bool \<times> byte list) outcome" where
  "parse_rdb_header mem pad1 pad2 f =
     (if \<not> mem (int MAGIC_NMB_SZ) then UB
      else
        (let (bs, f1) = fread MAGIC_NMB_SZ f in
         if \<not> is_magic_header_correct pad1 bs (length bs) then Ret (False, f1)
         else if \<not> mem (int REDIS_VER_SZ) then UB
         else
           (let (vs, f2) = fread 4 f1 in
            if \<not> is_version_number_correct pad2 vs (length vs) then Ret (False, f2) else Ret (True, f2))))"

text \<open>The main loop. \<open>None\<close>: it never ends. \<open>Some NoValue\<close>: the function ends without a \<^verbatim>\<open>return\<close>.\<close>

datatype rdb_result = Returned nat | NoValue | Undefined

partial_function (option) rdb_loop :: "(int \<Rightarrow> bool) \<Rightarrow> rdb_state \<Rightarrow> rdb_result option" where
  "rdb_loop mem s =
     (if \<not> is_correct s then Some NoValue
      else if uint (next_state s) = AUX then
        (case handle_aux_state mem s of Ret s' \<Rightarrow> rdb_loop mem s' | _ \<Rightarrow> Some Undefined)
      else rdb_loop mem s)"

text \<open>\<open>opened\<close> is the contents of the file, if it can be opened. When the file ends after its header,
  \<^verbatim>\<open>next_state\<close> is read uninitialised.\<close>

definition redis_rdb_file_parser :: "(int \<Rightarrow> bool) \<Rightarrow> byte \<Rightarrow> byte \<Rightarrow> byte list option \<Rightarrow> rdb_result option" where
  "redis_rdb_file_parser mem pad1 pad2 opened =
     (case opened of
        None \<Rightarrow> Some (Returned 0)
      | Some f \<Rightarrow>
          (case parse_rdb_header mem pad1 pad2 f of
             Ret (False, _) \<Rightarrow> Some (Returned 0)
           | Ret (True, b # f') \<Rightarrow>
               if b = 0 then Some (Returned 0)
               else rdb_loop mem \<lparr>curr_state = 0x0F, next_state = b, is_correct = True, fp = f'\<rparr>
           | _ \<Rightarrow> Some Undefined))"

section \<open>The main loop\<close>

lemma rdb_loop_diverges:
  assumes "is_correct s" "uint (next_state s) \<noteq> AUX"
  shows "rdb_loop mem s = None"
proof (rule ccontr)
  assume "rdb_loop mem s \<noteq> None"
  then obtain r where "rdb_loop mem s = Some r" by auto
  then have "\<not> (is_correct s \<and> uint (next_state s) \<noteq> AUX)"
  proof (rule rdb_loop.raw_induct [where P = "\<lambda>_ s _. \<not> (is_correct s \<and> uint (next_state s) \<noteq> AUX)", rotated])
    fix loop mem s r
    assume IH: "\<And>mem s r. loop mem s = Some r \<Longrightarrow> \<not> (is_correct s \<and> uint (next_state s) \<noteq> AUX)"
      and body: "(if \<not> is_correct s then Some NoValue
        else if uint (next_state s) = AUX then
          (case handle_aux_state mem s of Ret s' \<Rightarrow> loop mem s' | _ \<Rightarrow> Some Undefined)
        else loop mem s) = Some r"
    show "\<not> (is_correct s \<and> uint (next_state s) \<noteq> AUX)"
    proof
      assume s: "is_correct s \<and> uint (next_state s) \<noteq> AUX"
      with body have "loop mem s = Some r" by simp
      from IH [OF this] s show False by simp
    qed
  qed
  with assms show False by simp
qed

lemma byte_signed: "sint (b :: byte) < 128"
  using sint_lt [of b] by simp

lemma rdb_loop_AUX:
  assumes "is_correct s"
  shows "uint (next_state s) = AUX \<Longrightarrow> rdb_loop mem s = Some NoValue"
proof -
  assume a: "uint (next_state s) = AUX"
  have "handle_aux_state mem s = Ret (s\<lparr>is_correct := False\<rparr>)"
    using byte_signed [of "next_state s"] by (simp add: handle_aux_state_def AUX_def)
  with assms a show ?thesis
    by (subst rdb_loop.simps, simp) (subst rdb_loop.simps, simp)
qed

section \<open>Lengths\<close>

lemma drop6: "uint (drop_bit 6 (b :: byte)) = uint b div 64"
  by (simp add: drop_bit_eq_div uint_div_distrib)

lemma mask6: "uint (b AND LENGTH_MASK :: byte) = uint b mod 64"
proof -
  have "b AND LENGTH_MASK = take_bit 6 b"
    by (simp add: LENGTH_MASK_def take_bit_eq_mask mask_eq_decr_exp)
  then show ?thesis by (simp add: unsigned_take_bit_eq take_bit_eq_mod uint_mod_distrib)
qed

lemma parse_length_6bit:
  "n < 64 \<Longrightarrow> parse_length_encoding (word_of_nat n) f =
    (\<lparr>encoding_type = REDIS_RDB_6BITLEN, length_or_format = int n\<rparr>, f)"
  by (simp add: parse_length_encoding_def Let_def drop6 mask6 unsigned_of_nat take_bit_eq_mod)

lemma shifted_or:
  "sint (push_bit 8 (ucast e :: 32 word) OR ucast (b AND LENGTH_MASK)) = 256 * uint (e :: byte) + uint (b :: byte) mod 64"
proof -
  let ?x = "push_bit 8 (ucast e :: 32 word)" and ?y = "ucast (b AND LENGTH_MASK) :: 32 word"
  have y: "uint ?y = uint b mod 64" by (simp add: unsigned_ucast_eq mask6 take_bit_eq_mod)
  have x: "uint ?x = 256 * uint e"
  proof -
    have "uint (ucast e :: 32 word) = uint e" using uint_bounded [of e] by (simp add: unsigned_ucast_eq take_bit_eq_mod)
    then show ?thesis using uint_bounded [of e] by (simp add: push_bit_eq_mult uint_word_ariths)
  qed
  have "uint (?x OR ?y) = uint ?x OR uint ?y" by (simp add: unsigned_or_eq)
  also have "\<dots> = uint ?x + uint ?y"
  proof (rule disjunctive_add_eq_or [symmetric])
    have "push_bit 8 (uint e) AND take_bit 6 (uint ?y) = 0"
      by (rule bit_eqI) (auto simp: bit_and_iff bit_push_bit_iff bit_take_bit_iff)
    moreover have "uint ?y = take_bit 6 (uint ?y)" using y by (simp add: take_bit_eq_mod)
    moreover have "uint ?x = push_bit 8 (uint e)" using x by (simp add: push_bit_eq_mult)
    ultimately show "uint ?x AND uint ?y = 0" by metis
  qed
  also have "\<dots> = 256 * uint e + uint b mod 64" by (simp only: x y)
  finally have u: "uint (?x OR ?y) = 256 * uint e + uint b mod 64" .
  moreover have "uint b mod 64 < 64" by simp
  ultimately have "uint (?x OR ?y) < 2 ^ 31" using uint_bounded [of e] by simp
  then have "sint (?x OR ?y) = uint (?x OR ?y)" 
    by (auto simp: sint_uint signed_take_bit_int_eq_self_iff intro: order_trans [OF _ uint_ge_0])
  with u show ?thesis by simp
qed

section \<open>Auxiliary fields\<close>

text \<open>A string with a 6-bit length, and auxiliary fields one after the other.\<close>

definition enc_str :: "byte list \<Rightarrow> byte list" where
  "enc_str s = word_of_nat (length s) # s"

definition enc_aux :: "(byte list \<times> byte list) list \<Rightarrow> byte list" where
  "enc_aux kvs = concat (map (\<lambda>(k, v). enc_str k @ enc_str v) kvs)"

lemma short_not_opcode: "n < 64 \<Longrightarrow> \<not> is_next_state_an_opcode (word_of_nat n)"
  by (simp add: is_next_state_an_opcode_def opcode_defs unsigned_of_nat take_bit_eq_mod)

lemma get_str_all: "get_str (Some []) (int (length s)) (s @ f) c = (Some s, f, c)"
  by (simp add: get_str_def fread_def)

lemma aux_loop_pair:
  assumes "length k < 64" "length v < 64" "\<And>n. n \<le> 64 \<Longrightarrow> mem n"
  shows "aux_loop mem READING_KEY no_kvp out (word_of_nat (length k)) (k @ enc_str v @ b # f) =
    (let out' = out @ auxiliary_field_settings (Some k) (Some v) in
     if is_next_state_an_opcode b then Ret \<lparr>correct = True, next_byte = b, rest = f, printed = out'\<rparr>
     else aux_loop mem READING_KEY no_kvp out' b f)"
proof -
  note * = parse_length_6bit label_len_encoding_and_get_str_def get_str_all no_kvp_def
  have "aux_loop mem READING_KEY no_kvp out (word_of_nat (length k)) (k @ enc_str v @ b # f) =
      aux_loop mem READING_VALUE \<lparr>aux_key = Some k, aux_val = None\<rparr> out (word_of_nat (length v)) (v @ b # f)"
    using assms short_not_opcode [OF assms(2)]
    by (subst aux_loop.simps) (simp add: * enc_str_def Let_def)
  also have "\<dots> = (let out' = out @ auxiliary_field_settings (Some k) (Some v) in
     if is_next_state_an_opcode b then Ret \<lparr>correct = True, next_byte = b, rest = f, printed = out'\<rparr>
     else aux_loop mem READING_KEY no_kvp out' b f)"
    using assms by (subst aux_loop.simps) (simp add: * Let_def)
  finally show ?thesis .
qed

lemma aux_loop_enc:
  assumes "\<And>n. n \<le> 64 \<Longrightarrow> mem n" "is_next_state_an_opcode op"
  shows "enc_aux kvs @ op # r = b # f \<Longrightarrow> kvs \<noteq> [] \<Longrightarrow>
    \<forall>(k, v)\<in>set kvs. length k < 64 \<and> length v < 64 \<Longrightarrow>
    aux_loop mem READING_KEY no_kvp out b f =
      Ret \<lparr>correct = True, next_byte = op, rest = r,
           printed = out @ concat (map (\<lambda>(k, v). auxiliary_field_settings (Some k) (Some v)) kvs)\<rparr>"
proof (induction kvs arbitrary: b f out)
  case (Cons kv kvs)
  obtain k v where kv: "kv = (k, v)" by fastforce
  have len: "length k < 64" "length v < 64" using Cons.prems(3) kv by auto
  have b: "b = word_of_nat (length k)" and f: "f = k @ enc_str v @ enc_aux kvs @ op # r"
    using Cons.prems(1) kv by (auto simp: enc_aux_def enc_str_def)
  show ?case
  proof (cases "kvs = []")
    case True
    with aux_loop_pair [OF len assms(1), where out = out and b = op and f = r] assms(2) show ?thesis
      by (simp add: b f kv enc_aux_def)
  next
    case False
    then obtain b' f' where b': "enc_aux kvs @ op # r = b' # f'" by (cases "enc_aux kvs @ op # r") auto
    have "\<not> is_next_state_an_opcode b'"
      using b' False Cons.prems(3) short_not_opcode by (cases kvs) (auto simp: enc_aux_def enc_str_def)
    with aux_loop_pair [OF len assms(1), where out = out and b = b' and f = f'] Cons.IH [OF b' False] Cons.prems(3) kv show ?thesis
      by (simp add: b f b' Let_def)
  qed
qed simp

section \<open>Properties\<close>

text \<open>C35. Auxiliary fields written with short lengths are read back: \<^verbatim>\<open>parse_aux\<close> consumes exactly the
  fields, stops at the opcode that follows them, and prints the known settings in order.\<close>

theorem aux_fields_round_trip:
  assumes "enc_aux kvs @ op # r = b # f" "kvs \<noteq> []" "\<forall>(k, v)\<in>set kvs. length k < 64 \<and> length v < 64"
    "is_next_state_an_opcode op" "\<forall>n\<le>64. mem n"
  shows "parse_aux mem 0xFA b f =
    Ret \<lparr>correct = True, next_byte = op, rest = r,
         printed = concat (map (\<lambda>(k, v). auxiliary_field_settings (Some k) (Some v)) kvs)\<rparr>"
proof -
  have "\<not> is_next_state_an_opcode b"
    using assms(1-3) short_not_opcode by (cases kvs) (auto simp: enc_aux_def enc_str_def)
  with aux_loop_enc [OF _ assms(4,1-3), where mem = mem and out = "[]"] assms(5) show ?thesis
    by (simp add: parse_aux_def AUX_def)
qed

theorem aux_fields_round_trip_witness:
  "parse_aux (\<lambda>n. n \<le> 1000) 0xFA 5 (bytes_of ''ctime'' @ [1] @ bytes_of ''7'' @ [0xFE, 0, 9]) =
    Ret \<lparr>correct = True, next_byte = 0xFE, rest = [0, 9], printed = [(bytes_of ''ctime'', bytes_of ''7'')]\<rparr>"
proof -
  have "auxiliary_field_settings (Some (bytes_of ''ctime'')) (Some (bytes_of ''7'')) =
      [(bytes_of ''ctime'', bytes_of ''7'')]" by code_simp
  moreover have "is_next_state_an_opcode 0xFE" by code_simp
  ultimately show ?thesis
    using aux_fields_round_trip [of "[(bytes_of ''ctime'', bytes_of ''7'')]" "0xFE" "[0, 9]" 5
        "bytes_of ''ctime'' @ [1] @ bytes_of ''7'' @ [0xFE, 0, 9]" "\<lambda>n. n \<le> 1000"]
    by (simp add: enc_aux_def enc_str_def bytes_of_def)
qed

text \<open>The two-byte length is read with its bytes swapped: the code computes 256 times the second byte
  plus the low six bits of the first, where the format has 256 times the low six bits of the first plus
  the second. The two agree only when these bytes are equal.\<close>

lemma length_14bit_swapped:
  assumes "uint (b :: byte) div 64 = 1"
  shows "parse_length_encoding b (e # f) =
      (\<lparr>encoding_type = REDIS_RDB_14BITLEN, length_or_format = 256 * uint e + uint b mod 64\<rparr>, f) \<and>
    (256 * uint e + uint b mod 64 = 256 * (uint b mod 64) + uint e \<longleftrightarrow> uint e = uint b mod 64)"
  using assms by (auto simp: parse_length_encoding_def Let_def drop6 fread_def shifted_or)

text \<open>C36. No file is ever parsed. Whatever the file holds, the reader returns 0, or ends without a result
  right after the first auxiliary opcode, which it never recognises because it compares a signed
  \<^verbatim>\<open>char\<close> with 250, or loops for ever on every other opcode and on key-value pairs; or it has undefined
  behaviour, when the file ends after its header or one of the header's buffers could not be allocated.\<close>

theorem rdb_file_never_parsed:
  "redis_rdb_file_parser mem pad1 pad2 opened =
    (case opened of
       None \<Rightarrow> Some (Returned 0)
     | Some bytes \<Rightarrow>
         (case parse_rdb_header mem pad1 pad2 bytes of
            Ret (False, _) \<Rightarrow> Some (Returned 0)
          | Ret (True, b # _) \<Rightarrow>
              if b = 0 then Some (Returned 0) else if uint b = AUX then Some NoValue else None
          | _ \<Rightarrow> Some Undefined))"
proof (cases opened)
  case (Some bytes)
  show ?thesis
  proof (cases "parse_rdb_header mem pad1 pad2 bytes")
    case (Ret z)
    obtain ok r where "z = (ok, r)" by fastforce
    with Ret show ?thesis
      by (cases ok; cases r) (simp_all add: Some redis_rdb_file_parser_def rdb_loop_AUX rdb_loop_diverges)
  qed (simp_all add: Some redis_rdb_file_parser_def)
qed (simp add: redis_rdb_file_parser_def)
end
