(* ===== verification/Client.thy ===== *)
theory Client
  imports App
begin

text \<open>
  The test client \<^verbatim>\<open>src/client/client.c\<close>: it connects, sends one command with a loop over partial
  sends, and prints what it receives until the server closes the connection. Its connection is a \<open>sock\<close>
  record, whose \<open>tx\<close> scripts the results of \<^verbatim>\<open>send\<close>. What each \<^verbatim>\<open>recv\<close> has returned so far is a list of
  chunks; the server's closing is a chunk without bytes, and when the list is used up the client is
  blocked in \<^verbatim>\<open>recv\<close>.
\<close>

section \<open>Operations\<close>

definition CLIENT_BUFFER :: nat where "CLIENT_BUFFER = 1024"

text \<open>\<^verbatim>\<open>cmd_str_a[0]\<close>.\<close>

definition cmd_str_a :: string where
  "cmd_str_a = ''*5'' @ CRLF @ ''$3'' @ CRLF @ ''SET'' @ CRLF @ ''$10'' @ CRLF @ ''anotherkey'' @ CRLF @
     ''$23'' @ CRLF @ ''will expire in a minute'' @ CRLF @ ''$2'' @ CRLF @ ''EX'' @ CRLF @ ''$2'' @ CRLF @ ''60'' @ CRLF"

text \<open>The loop around \<^verbatim>\<open>send\<close>; \<open>False\<close> is its early exit.\<close>

function client_send :: "string \<Rightarrow> nat \<Rightarrow> sock \<Rightarrow> bool \<times> sock" where
  "client_send str b_sent s =
     (if b_sent < length str
      then (case send (drop b_sent str) s of
              (Inl e, s1) \<Rightarrow> (False, s1)
            | (Inr rtn, s1) \<Rightarrow> if rtn = 0 then (False, s1) else client_send str (b_sent + rtn) s1)
      else (True, s))"
  by pat_completeness auto
termination by (relation "measure (\<lambda>(str, b_sent, s). length str - b_sent)") auto

declare client_send.simps [simp del]

text \<open>The loop around \<^verbatim>\<open>recv\<close>: the buffer is never cleared, and \<^verbatim>\<open>puts\<close> reads it up to a NUL byte.
  \<open>Inl\<close> is a failing \<^verbatim>\<open>recv\<close>. The flag tells whether the loop was left; otherwise the client waits.\<close>

fun client_recv :: "(errno + string) list \<Rightarrow> string \<Rightarrow> string list \<Rightarrow> (bool \<times> string list) outcome" where
  "client_recv [] buf out = Ret (False, out)"
| "client_recv (Inl e # chunks) buf out = Ret (True, out)"
| "client_recv (Inr bs # chunks) buf out =
     (if bs = [] then Ret (True, out)
      else (let buf1 = take CLIENT_BUFFER bs @ drop (length bs) buf in
            if NUL \<in> set buf1 then client_recv chunks buf1 (out @ [cstr buf1]) else UB))"

record client_calls =
  socket_rtn :: int
  inet_pton_rtn :: int
  connect_rtn :: int
  chunks :: "(errno + string) list"

text \<open>\<^verbatim>\<open>main\<close>: the exit code (\<open>None\<close>: the client is still waiting in \<^verbatim>\<open>recv\<close>), the connection and the printed
  strings.\<close>

definition client_main :: "client_calls \<Rightarrow> sock \<Rightarrow> (int option \<times> sock \<times> string list) outcome" where
  "client_main io s =
     (if socket_rtn io < 0 then Ret (Some (-1), s, [])
      else if inet_pton_rtn io \<le> 0 then Ret (Some (-1), s, [])
      else if connect_rtn io < 0 then Ret (Some (-1), s, [])
      else (case client_send cmd_str_a 0 s of
              (False, s1) \<Rightarrow> Ret (Some 0, s1, [])
            | (True, s1) \<Rightarrow>
                obind (client_recv (chunks io) (replicate CLIENT_BUFFER NUL) []) (\<lambda>(left, out).
                Ret (if left then Some 0 else None, s1, out))))"

section \<open>Lemmas\<close>

text \<open>Sends that take at least one byte each.\<close>

definition takes_some :: "tx_event list \<Rightarrow> bool" where
  "takes_some evs \<longleftrightarrow> (\<forall>ev\<in>set evs. \<exists>k. ev = TxSent (Suc k))"

lemma client_send_all:
  assumes "takes_some (tx s)" "b_sent \<le> length str"
  shows "\<exists>s'. client_send str b_sent s = (True, s') \<and> sent s' = sent s @ drop b_sent str \<and> rx s' = rx s"
  using assms
proof (induction str b_sent s rule: client_send.induct)
  case (1 str b_sent s)
  show ?case
  proof (cases "b_sent < length str")
    case True
    then have pos: "0 < length str - b_sent" by simp
    show ?thesis
    proof (cases "tx s")
      case Nil
      with True show ?thesis
        by (subst client_send.simps, simp add: send_def) (simp add: client_send.simps)
    next
      case (Cons ev r)
      with "1.prems"(1) obtain k where ev: "ev = TxSent (Suc k)" "takes_some r" by (auto simp: takes_some_def)
      let ?n = "min (Suc k) (length str - b_sent)"
      let ?s1 = "s\<lparr>tx := r, sent := sent s @ take (Suc k) (drop b_sent str)\<rparr>"
      have snd: "send (drop b_sent str) s = (Inr ?n, ?s1)" using Cons ev(1) by (simp add: send_def)
      have "?n \<noteq> 0" using pos by simp
      moreover have "b_sent + ?n \<le> length str" using True by simp
      ultimately obtain s' where
        s': "client_send str (b_sent + ?n) ?s1 = (True, s')"
        "sent s' = sent ?s1 @ drop (b_sent + ?n) str" "rx s' = rx s"
        using "1.IH" [OF True snd [symmetric] refl] ev(2) by auto
      have "take (Suc k) (drop b_sent str) @ drop (b_sent + ?n) str = drop b_sent str"
        by (cases "Suc k \<le> length str - b_sent")
          (simp_all add: min_def add.commute flip: drop_drop, metis append_take_drop_id drop_drop add.commute add_Suc_right)
      with s' snd True pos show ?thesis by (subst client_send.simps) simp
    qed
  qed (use "1.prems" in \<open>simp add: client_send.simps\<close>)
qed

text \<open>The command is the RESP text of a SET request.\<close>

definition client_request :: node where
  "client_request = ArrayNode (map arg [''SET'', ''anotherkey'', ''will expire in a minute'', ''EX'', ''60'']) 5"

lemma cmd_str_a_resp: "resp client_request = cmd_str_a"
  by code_simp

lemma client_request_ok: "plain client_request" "servable e es client_request"
proof -
  have c: "command_of ''SET'' = SET" by code_simp
  show "plain client_request" by (simp add: client_request_def arg_def PROTO_MAX_BULK_SIZE_def)
  show "servable e es client_request"
    by (simp add: servable_def client_request_def arg_def PROTO_MAX_BULK_SIZE_def c cstr_def)
qed

definition client_entry :: "timespec \<Rightarrow> entry" where
  "client_entry now = new_entry now ''will expire in a minute'' 60 0"

lemma serve_client_request:
  "serve e es client_request d = (Some RESP_OK, d(''anotherkey'' \<mapsto> client_entry (env_now e)))"
proof -
  have c: "command_of ''SET'' = SET" by code_simp
  have n: "of_nat (digits_val ''60'') = (60 :: uint)" by code_simp
  show ?thesis
    by (simp add: client_request_def serve_def arg_def c set_grammar_def take_opt_def expiry_part_def cstr_def
        is_digit_def set_spec_def n client_entry_def)
qed

text \<open>Bytes of an earlier, longer chunk that the next one does not cover are printed again.\<close>

lemma client_prints_stale:
  "client_recv [Inr ''+OK'', Inr ''$''] (replicate CLIENT_BUFFER NUL) [] = Ret (False, [''+OK'', ''$OK''])"
  by code_simp

section \<open>Properties\<close>

text \<open>C27. A session of the test client with a worker, when they are connected (as they stand they do not
  meet: the client asks for port 6379, the server listens on 6479). However \<^verbatim>\<open>send\<close> splits its command, the
  client sends it completely and in order and then waits in \<^verbatim>\<open>recv\<close>; the worker that reads exactly those
  bytes stores the key with its expiry of 60 seconds in whatever store it has and sends OK; the client,
  receiving that reply in one piece, prints it. Then both wait, the client in \<^verbatim>\<open>recv\<close> for the server to
  close and the worker in \<^verbatim>\<open>recv\<close> for the next request: neither of them ever closes the connection
  first.\<close>

theorem client_command_served:
  assumes "0 \<le> socket_rtn io" "0 < inet_pton_rtn io" "0 \<le> connect_rtn io" "takes_some (tx c)" "sent c = []"
    and "config_ok cfg es" "fnmatch_casefold (env_fnmatch e)" "NUL \<notin> set nl" "db_rep sm d" "room (env_alloc e) sm"
  shows "\<exists>c' w sm'.
    client_main (io\<lparr>chunks := []\<rparr>) c = Ret (None, c', []) \<and>
    app_iter e nl \<lparr>arg_sm = Some sm, arg_config_dict = Some cfg\<rparr>
        \<lparr>rx = rx_bytes (sent c'), slp = [], tx = [], sent = []\<rparr> =
      Ret (Turn, w, \<lparr>arg_sm = Some sm', arg_config_dict = Some cfg\<rparr>) \<and>
    db_rep sm' (d(''anotherkey'' \<mapsto> client_entry (env_now e))) \<and>
    client_main (io\<lparr>chunks := [Inr (sent w)]\<rparr>) c = Ret (None, c', [''+OK'' @ CRLF]) \<and>
    awaits w"
proof -
  obtain c' where c': "client_send cmd_str_a 0 c = (True, c')" "sent c' = cmd_str_a"
    using client_send_all [OF assms(4), of 0 cmd_str_a] assms(5) by auto
  let ?s = "\<lparr>rx = rx_bytes cmd_str_a, slp = [], tx = [], sent = []\<rparr>"
    and ?w = "\<lparr>rx = [], slp = [], tx = [], sent = ''+OK'' @ CRLF @ [NUL]\<rparr>"
  have "client_recv [Inr (''+OK'' @ CRLF @ [NUL])] (replicate CLIENT_BUFFER NUL) [] = Ret (False, [''+OK'' @ CRLF])"
    by code_simp
  with c'(1) assms(1-3) have client: "client_main (io\<lparr>chunks := []\<rparr>) c = Ret (None, c', [])"
    "client_main (io\<lparr>chunks := [Inr (sent ?w)]\<rparr>) c = Ret (None, c', [''+OK'' @ CRLF])"
    by (simp_all add: client_main_def)
  obtain sm' where worker: "app_iter e nl \<lparr>arg_sm = Some sm, arg_config_dict = Some cfg\<rparr> ?s =
      Ret (Turn, ?w, \<lparr>arg_sm = Some sm', arg_config_dict = Some cfg\<rparr>)"
    "db_rep sm' (d(''anotherkey'' \<mapsto> client_entry (env_now e)))"
    using app_turn [OF assms(9,6-8) client_request_ok(2,1) assms(10), of ?s "[]"]
    by (auto simp: serve_client_request cmd_str_a_resp wire_def RESP_OK_def)
  have "awaits ?w" by (rule awaits_empty) simp
  with client worker c'(2) show ?thesis by (intro exI [of _ c'] exI [of _ ?w] exI [of _ sm']) simp
qed

definition demo_calls :: client_calls where
  "demo_calls = \<lparr>socket_rtn = 3, inet_pton_rtn = 1, connect_rtn = 0, chunks = []\<rparr>"

theorem client_command_served_witness:
  "\<exists>c' w sm'.
    client_main demo_calls \<lparr>rx = [], slp = [], tx = [TxSent 7, TxSent 1], sent = []\<rparr> = Ret (None, c', []) \<and>
    app_iter (demo_env (Timespec 4 0)) ''(null)''
        \<lparr>arg_sm = Some create_simple_map, arg_config_dict = Some demo_config\<rparr>
        \<lparr>rx = rx_bytes (sent c'), slp = [], tx = [], sent = []\<rparr> =
      Ret (Turn, w, \<lparr>arg_sm = Some sm', arg_config_dict = Some demo_config\<rparr>) \<and>
    db_rep sm' [''anotherkey'' \<mapsto> client_entry (Timespec 4 0)] \<and>
    client_main (demo_calls\<lparr>chunks := [Inr (sent w)]\<rparr>) \<lparr>rx = [], slp = [], tx = [TxSent 7, TxSent 1], sent = []\<rparr> =
      Ret (None, c', [''+OK'' @ CRLF]) \<and>
    awaits w"
proof -
  have cfg: "config_ok demo_config demo_entries"
    using demo_config_rep by (simp add: config_ok_def) (simp add: demo_entries_def)
  have tx: "takes_some (tx \<lparr>rx = [], slp = [], tx = [TxSent 7, TxSent 1], sent = []\<rparr>)"
    by (simp add: takes_some_def numeral_eq_Suc)
  have e: "fnmatch_casefold (env_fnmatch (demo_env (Timespec 4 0)))"
    "room (env_alloc (demo_env (Timespec 4 0))) create_simple_map" "env_now (demo_env (Timespec 4 0)) = Timespec 4 0"
    by (simp_all add: demo_env_def glob_fnmatch_casefold alloc_ok_def create_simple_map_def room_def)
  have calls: "demo_calls\<lparr>chunks := []\<rparr> = demo_calls" by (simp add: demo_calls_def)
  from client_command_served [OF _ _ _ tx _ cfg e(1) _ db_rep_create e(2), of demo_calls "''(null)''"]
  show ?thesis unfolding calls e(3) by (simp add: demo_calls_def)
qed

end
