(* ===== verification/Map_Steps.thy ===== *)
theory Map_Steps
  imports Get_Cmd
begin

text \<open>
  The function \<^verbatim>\<open>set\<close> of \<^verbatim>\<open>src/src/simple_map.c\<close> statement by statement, for several threads on one
  map. The workers of the server share the data map without a lock, so their statements interleave.
  \<open>set_step\<close> is one statement of \<^verbatim>\<open>set\<close>, \<^verbatim>\<open>__find\<close>, \<^verbatim>\<open>__set\<close>, \<^verbatim>\<open>__double_arrays\<close> or \<^verbatim>\<open>__upgrade\<close>; run
  alone, the steps compute \<open>sm_set\<close>. A block that \<^verbatim>\<open>realloc\<close> has freed stays reachable from the map
  until the next assignment; it is an array without cells, and every access to it is undefined.
  Interleaving is sequentially consistent, which is more than C promises about data races.
\<close>

section \<open>One thread\<close>

text \<open>Program counters with the local variables: the position \<open>i\<close>, the new capacity, the blocks that
  \<^verbatim>\<open>realloc\<close> returned, the value of \<^verbatim>\<open>top\<close> that the increment read, the old value and key.\<close>

datatype ('k, 'v) set_pc =
    S_enter
  | S_find int
  | S_cell int
  | S_check
  | S_full
  | S_double
  | S_realloc_keys nat
  | S_realloc_values nat "'k option cell list"
  | S_shrink "'k option cell list"
  | S_put_keys nat "'k option cell list" "'v option cell list"
  | S_put_values nat "'v option cell list"
  | S_put_capacity nat
  | S_top
  | S_top_store int
  | S_key
  | S_value
  | S_upgrade int
  | S_old_value int
  | S_old_key int "'v option"
  | S_new_value int "'v option" "'k option"
  | S_new_key int "'v option" "'k option"
  | S_done SetKeyValueRtn "('k, 'v) KeyValuePair"

text \<open>\<^verbatim>\<open>realloc\<close> of a block to \<open>n\<close> cells: undefined on a freed block, an allocation on NULL.\<close>

definition realloc_block :: "nat \<Rightarrow> 'a cell list option \<Rightarrow> 'a cell list outcome" where
  "realloc_block n b =
     (case b of
        None \<Rightarrow> Ret (replicate n Uninit)
      | Some cells \<Rightarrow> if cells = [] then UB else Ret (realloc_cells n cells))"

text \<open>\<^verbatim>\<open>arr[i]->member\<close> and \<^verbatim>\<open>arr[i]->member = x\<close>.\<close>

definition member_at :: "'a cell list option \<Rightarrow> int \<Rightarrow> 'a outcome" where
  "member_at b i = (case b of None \<Rightarrow> UB | Some cells \<Rightarrow> deref (cell_at cells i))"

definition member_put :: "'a cell list option \<Rightarrow> int \<Rightarrow> 'a \<Rightarrow> 'a cell list outcome" where
  "member_put b i x =
     (case b of None \<Rightarrow> UB
      | Some cells \<Rightarrow> obind (deref (cell_at cells i)) (\<lambda>_. cell_put cells i (Ptr x)))"

fun set_step :: "alloc \<Rightarrow> 'k cmp_fptr \<Rightarrow> ('k, 'v) KeyValuePair \<Rightarrow>
    ('k, 'v) set_pc \<times> ('k, 'v) SimpleMap \<Rightarrow> (('k, 'v) set_pc \<times> ('k, 'v) SimpleMap) outcome" where
  "set_step al cmp kvp (S_enter, sm) =
     Ret (if kvp_key kvp = None \<or> keys sm = None then S_done ERROR_SET_SM_RTN kvp else S_find 0, sm)"
| "set_step al cmp kvp (S_find i, sm) = Ret (if i \<le> top sm then S_cell i else S_check, sm)"
| "set_step al cmp kvp (S_cell i, sm) =
     (case keys sm of
        None \<Rightarrow> UB
      | Some ks \<Rightarrow>
          (case cell_at ks i of
             Uninit \<Rightarrow> UB
           | Null \<Rightarrow> Ret (S_done ERROR_SET_SM_RTN kvp, sm)
           | Ptr k \<Rightarrow> obind (cmp k (kvp_key kvp)) (\<lambda>hit.
               Ret (if hit then S_upgrade i else S_find (i + 1), sm))))"
| "set_step al cmp kvp (S_check, sm) =
     Ret (if keys sm = None \<or> vals sm = None \<or> kvp_key kvp = None \<or> capacity sm = 0
          then S_done ERROR_SET_SM_RTN kvp else S_full, sm)"
| "set_step al cmp kvp (S_full, sm) = Ret (if is_full sm then S_double else S_top, sm)"
| "set_step al cmp kvp (S_double, sm) =
     (if keys sm = None \<or> vals sm = None \<or> capacity sm = 0 \<or> \<not> is_full sm
      then Ret (S_done ERROR_SET_SM_RTN kvp, sm)
      else if INT_MAX < 2 * capacity sm then UB
      else Ret (S_realloc_keys (nat ((2 * capacity sm) mod 2 ^ 64)), sm))"
| "set_step al cmp kvp (S_realloc_keys n, sm) =
     obind (realloc_block n (keys sm)) (\<lambda>ks.
       Ret (if realloc_keys al then (S_realloc_values n ks, sm\<lparr>keys := Some []\<rparr>)
            else (S_done ERROR_SET_SM_RTN kvp, sm)))"
| "set_step al cmp kvp (S_realloc_values n ks, sm) =
     obind (realloc_block n (vals sm)) (\<lambda>vs.
       Ret (if realloc_values al then (S_put_keys n ks vs, sm\<lparr>vals := Some []\<rparr>) else (S_shrink ks, sm)))"
| "set_step al cmp kvp (S_shrink ks, sm) =
     Ret (S_done ERROR_SET_SM_RTN kvp,
          sm\<lparr>keys := (if realloc_shrink al then Some (realloc_cells (nat (capacity sm)) ks) else None)\<rparr>)"
| "set_step al cmp kvp (S_put_keys n ks vs, sm) = Ret (S_put_values n vs, sm\<lparr>keys := Some ks\<rparr>)"
| "set_step al cmp kvp (S_put_values n vs, sm) = Ret (S_put_capacity n, sm\<lparr>vals := Some vs\<rparr>)"
| "set_step al cmp kvp (S_put_capacity n, sm) = Ret (S_top, sm\<lparr>capacity := int n\<rparr>)"
| "set_step al cmp kvp (S_top, sm) = Ret (S_top_store (top sm), sm)"
| "set_step al cmp kvp (S_top_store t, sm) = Ret (S_key, sm\<lparr>top := t + 1\<rparr>)"
| "set_step al cmp kvp (S_key, sm) =
     (case keys sm of
        None \<Rightarrow> UB
      | Some ks \<Rightarrow> obind (cell_put ks (top sm) (Ptr (kvp_key kvp))) (\<lambda>ks'.
          Ret (S_value, sm\<lparr>keys := Some ks'\<rparr>)))"
| "set_step al cmp kvp (S_value, sm) =
     (case vals sm of
        None \<Rightarrow> UB
      | Some vs \<Rightarrow> obind (cell_put vs (top sm) (Ptr (kvp_value kvp))) (\<lambda>vs'.
          Ret (S_done SUCESS_SET kvp, sm\<lparr>vals := Some vs'\<rparr>)))"
| "set_step al cmp kvp (S_upgrade i, sm) =
     Ret (if vals sm = None \<or> keys sm = None \<or> i < 0 \<or> i > top sm \<or> kvp_key kvp = None
          then S_done ERROR_SET_SM_RTN kvp else S_old_value i, sm)"
| "set_step al cmp kvp (S_old_value i, sm) =
     obind (member_at (vals sm) i) (\<lambda>old_v. Ret (S_old_key i old_v, sm))"
| "set_step al cmp kvp (S_old_key i old_v, sm) =
     obind (member_at (keys sm) i) (\<lambda>old_k. Ret (S_new_value i old_v old_k, sm))"
| "set_step al cmp kvp (S_new_value i old_v old_k, sm) =
     obind (member_put (vals sm) i (kvp_value kvp)) (\<lambda>vs.
       Ret (S_new_key i old_v old_k, sm\<lparr>vals := Some vs\<rparr>))"
| "set_step al cmp kvp (S_new_key i old_v old_k, sm) =
     obind (member_put (keys sm) i (kvp_key kvp)) (\<lambda>ks.
       Ret (S_done SUCESS_UPGRADE \<lparr>kvp_key = old_k, kvp_value = old_v\<rparr>, sm\<lparr>keys := Some ks\<rparr>))"
| "set_step al cmp kvp (S_done rtn p, sm) = Ret (S_done rtn p, sm)"

text \<open>\<open>n\<close> statements of one thread.\<close>

primrec set_steps :: "alloc \<Rightarrow> 'k cmp_fptr \<Rightarrow> ('k, 'v) KeyValuePair \<Rightarrow> nat \<Rightarrow>
    ('k, 'v) set_pc \<times> ('k, 'v) SimpleMap \<Rightarrow> (('k, 'v) set_pc \<times> ('k, 'v) SimpleMap) outcome" where
  "set_steps al cmp kvp 0 c = Ret c"
| "set_steps al cmp kvp (Suc n) c = obind (set_step al cmp kvp c) (set_steps al cmp kvp n)"

section \<open>Several threads\<close>

text \<open>The threads differ in the pair they store; \<open>pcs ! j\<close> is the program counter of thread \<open>j\<close>. A
  schedule lists which thread runs the next statement.\<close>

type_synonym ('k, 'v) threads = "('k, 'v) set_pc list \<times> ('k, 'v) SimpleMap"

definition par_step :: "alloc \<Rightarrow> 'k cmp_fptr \<Rightarrow> ('k, 'v) KeyValuePair list \<Rightarrow> nat \<Rightarrow>
    ('k, 'v) threads \<Rightarrow> ('k, 'v) threads outcome" where
  "par_step al cmp kvps j st =
     (case st of (pcs, sm) \<Rightarrow>
        if length pcs \<le> j \<or> length kvps \<le> j then Ret st
        else obind (set_step al cmp (kvps ! j) (pcs ! j, sm)) (\<lambda>(pc, sm'). Ret (pcs[j := pc], sm')))"

fun par_run :: "alloc \<Rightarrow> 'k cmp_fptr \<Rightarrow> ('k, 'v) KeyValuePair list \<Rightarrow> nat list \<Rightarrow>
    ('k, 'v) threads \<Rightarrow> ('k, 'v) threads outcome" where
  "par_run al cmp kvps [] st = Ret st"
| "par_run al cmp kvps (j # js) st = obind (par_step al cmp kvps j st) (par_run al cmp kvps js)"

section \<open>A thread alone\<close>

text \<open>\<open>runs_to al cmp kvp c r\<close>: some number of statements lead from \<open>c\<close> to the outcome \<open>r\<close>.\<close>

definition runs_to :: "alloc \<Rightarrow> 'k cmp_fptr \<Rightarrow> ('k, 'v) KeyValuePair \<Rightarrow> ('k, 'v) set_pc \<times> ('k, 'v) SimpleMap \<Rightarrow>
    (('k, 'v) set_pc \<times> ('k, 'v) SimpleMap) outcome \<Rightarrow> bool" where
  "runs_to al cmp kvp c r \<longleftrightarrow> (\<exists>n. set_steps al cmp kvp n c = r)"

lemma runs_refl [simp]: "runs_to al cmp kvp c (Ret c)"
  unfolding runs_to_def by (rule exI [of _ 0]) simp

lemma runs_step: "set_step al cmp kvp c = Ret c' \<Longrightarrow> runs_to al cmp kvp c' r \<Longrightarrow> runs_to al cmp kvp c r"
  unfolding runs_to_def by (elim exE, rule_tac x = "Suc n" in exI) simp

lemma runs_stuck:
  "set_step al cmp kvp c = UB \<Longrightarrow> runs_to al cmp kvp c UB"
  "set_step al cmp kvp c = OutOfFuel \<Longrightarrow> runs_to al cmp kvp c OutOfFuel"
  unfolding runs_to_def by (rule exI [of _ 1], simp)+

lemma runs_bind:
  assumes "set_step al cmp kvp c = obind m (\<lambda>a. Ret (f a))" "\<And>a. m = Ret a \<Longrightarrow> runs_to al cmp kvp (f a) (g a)"
  shows "runs_to al cmp kvp c (obind m g)"
  using assms by (cases m) (auto intro: runs_step runs_stuck)

lemma set_steps_add: "set_steps al cmp kvp (m + n) c = obind (set_steps al cmp kvp m c) (set_steps al cmp kvp n)"
proof (induction m arbitrary: c)
  case (Suc m)
  then show ?case by (cases "set_step al cmp kvp c") auto
qed simp

text \<open>The result of \<open>sm_set\<close> as the last state of a thread.\<close>

fun set_result :: "SetKeyValueRtn \<times> ('k, 'v) SimpleMap option \<times> ('k, 'v) KeyValuePair option \<Rightarrow>
    (('k, 'v) set_pc \<times> ('k, 'v) SimpleMap) outcome" where
  "set_result (rtn, Some sm, Some kvp) = Ret (S_done rtn kvp, sm)"
| "set_result _ = UB"

text \<open>From the loop of \<^verbatim>\<open>__find\<close> to what follows it.\<close>

lemma runs_push:
  assumes "keys sm \<noteq> None" "vals sm \<noteq> None"
  shows "runs_to al cmp kvp (S_top, sm) (obind (push_entry sm kvp) (\<lambda>sm'. Ret (S_done SUCESS_SET kvp, sm')))"
proof -
  obtain ks vs where kv: "keys sm = Some ks" "vals sm = Some vs" using assms by auto
  let ?t = "top sm + 1"
  have "runs_to al cmp kvp (S_key, sm\<lparr>top := ?t\<rparr>)
     (obind (cell_put ks ?t (Ptr (kvp_key kvp))) (\<lambda>ks'. obind (cell_put vs ?t (Ptr (kvp_value kvp))) (\<lambda>vs'.
        Ret (S_done SUCESS_SET kvp, sm\<lparr>top := ?t, keys := Some ks', vals := Some vs'\<rparr>))))"
  proof (rule runs_bind [where f = "\<lambda>ks'. (S_value, sm\<lparr>top := ?t, keys := Some ks'\<rparr>)"])
    fix ks'
    show "runs_to al cmp kvp (S_value, sm\<lparr>top := ?t, keys := Some ks'\<rparr>)
        (obind (cell_put vs ?t (Ptr (kvp_value kvp))) (\<lambda>vs'.
           Ret (S_done SUCESS_SET kvp, sm\<lparr>top := ?t, keys := Some ks', vals := Some vs'\<rparr>)))"
      using kv by (intro runs_bind [where f = "\<lambda>vs'. (S_done SUCESS_SET kvp, sm\<lparr>top := ?t, keys := Some ks', vals := Some vs'\<rparr>)"]) auto
  qed (use kv in auto)
  moreover have "obind (push_entry sm kvp) (\<lambda>sm'. Ret (S_done SUCESS_SET kvp, sm')) =
     (obind (cell_put ks ?t (Ptr (kvp_key kvp))) (\<lambda>ks'. obind (cell_put vs ?t (Ptr (kvp_value kvp))) (\<lambda>vs'.
        Ret (S_done SUCESS_SET kvp, sm\<lparr>top := ?t, keys := Some ks', vals := Some vs'\<rparr>))))"
    using kv by (cases "cell_put ks ?t (Ptr (kvp_key kvp))"; cases "cell_put vs ?t (Ptr (kvp_value kvp))")
      (simp_all add: push_entry_def)
  ultimately show ?thesis by (simp only:) (rule runs_step, simp, rule runs_step, simp, simp)
qed

lemma runs_put:
  "runs_to al cmp kvp (S_top, sm\<lparr>keys := Some ks, vals := Some vs, capacity := int n\<rparr>) r \<Longrightarrow>
    runs_to al cmp kvp (S_put_keys n ks vs, sm\<lparr>keys := b, vals := b'\<rparr>) r"
  by (rule runs_step, simp, rule runs_step, simp, rule runs_step, simp) simp

definition not_freed :: "('k, 'v) SimpleMap \<Rightarrow> bool" where
  "not_freed sm \<longleftrightarrow> keys sm \<noteq> Some [] \<and> vals sm \<noteq> Some []"

lemma runs_set_new:
  assumes "kvp_key kvp \<noteq> None" "not_freed sm"
  shows "runs_to al cmp kvp (S_check, sm)
    (obind (set_new al (Some sm) (Some kvp)) (\<lambda>(ok, smp).
       set_result (if ok then SUCESS_SET else ERROR_SET_SM_RTN, smp, Some kvp)))"
proof (cases "keys sm = None \<or> vals sm = None \<or> capacity sm = 0")
  case True
  then show ?thesis by (intro runs_step [of _ _ _ "(S_check, sm)"]) (auto simp: set_new_def)
next
  case False
  then obtain ks vs where kv: "keys sm = Some ks" "vals sm = Some vs" "capacity sm \<noteq> 0" by auto
  then have ne: "ks \<noteq> []" "vs \<noteq> []" using assms(2) by (auto simp: not_freed_def)
  have chk: "set_step al cmp kvp (S_check, sm) = Ret (S_full, sm)" using kv assms(1) by simp
  have push: "obind (obind (push_entry sm' kvp) (\<lambda>sm''. Ret (True, Some sm''))) (\<lambda>(ok, smp).
       set_result (if ok then SUCESS_SET else ERROR_SET_SM_RTN, smp, Some kvp)) =
     obind (push_entry sm' kvp) (\<lambda>sm''. Ret (S_done SUCESS_SET kvp, sm''))" for sm'
    by (cases "push_entry sm' kvp") auto
  show ?thesis
  proof (cases "is_full sm")
    case False
    with kv assms(1) chk push runs_push [of sm al cmp kvp] show ?thesis
      by (intro runs_step [OF chk] runs_step [of _ _ _ "(S_full, sm)"]) (auto simp: set_new_def)
  next
    case full: True
    obtain n where n: "nat ((2 * capacity sm) mod 18446744073709551616) = n" by simp
    let ?ks = "realloc_cells n ks" and ?vs = "realloc_cells n vs"
    have dbl: "runs_to al cmp kvp (S_full, sm) r" if "runs_to al cmp kvp (S_double, sm) r" for r
      using full that by (intro runs_step [of _ _ _ "(S_full, sm)"]) auto
    note * = set_new_def double_arrays_def kv full assms(1) Let_def n
    show ?thesis
    proof (cases "INT_MAX < 2 * capacity sm")
      case True
      with kv full show ?thesis by (intro runs_step [OF chk] dbl) (auto simp: * intro!: runs_stuck)
    next
      case fits: False
      have re: "runs_to al cmp kvp (S_double, sm) r" if "runs_to al cmp kvp (S_realloc_keys n, sm) r" for r
        using full that kv fits n by (intro runs_step [of _ _ _ "(S_double, sm)"]) auto
      have rk: "set_step al cmp kvp (S_realloc_keys n, sm) =
          Ret (if realloc_keys al then (S_realloc_values n ?ks, sm\<lparr>keys := Some []\<rparr>) else (S_done ERROR_SET_SM_RTN kvp, sm))"
        using kv ne by (simp add: realloc_block_def)
      have rv: "set_step al cmp kvp (S_realloc_values n ?ks, sm\<lparr>keys := Some []\<rparr>) =
          Ret (if realloc_values al then (S_put_keys n ?ks ?vs, sm\<lparr>keys := Some [], vals := Some []\<rparr>)
               else (S_shrink ?ks, sm\<lparr>keys := Some []\<rparr>))"
        using kv ne by (simp add: realloc_block_def)
      let ?sm = "sm\<lparr>keys := Some ?ks, vals := Some ?vs, capacity := int n\<rparr>"
      consider "\<not> realloc_keys al" | "realloc_keys al" "\<not> realloc_values al" | "realloc_keys al" "realloc_values al" by blast
      then show ?thesis
      proof cases
        case 1
        with fits rk show ?thesis by (intro runs_step [OF chk] dbl re runs_step [OF rk]) (simp add: *)
      next
        case 2
        with fits rk rv show ?thesis
          by (intro runs_step [OF chk] dbl re)
            (rule runs_step [OF rk], simp only: if_True, rule runs_step [OF rv], simp only: if_False,
             rule runs_step, simp, simp add: *)
      next
        case 3
        have "runs_to al cmp kvp (S_top, ?sm) (obind (push_entry ?sm kvp) (\<lambda>sm''. Ret (S_done SUCESS_SET kvp, sm'')))"
          by (rule runs_push) simp_all
        then have "runs_to al cmp kvp (S_realloc_keys n, sm) (obind (push_entry ?sm kvp) (\<lambda>sm''. Ret (S_done SUCESS_SET kvp, sm'')))"
          using 3 runs_put [where sm = sm] by (intro runs_step [OF rk]) (simp, intro runs_step [OF rv], simp)
        moreover have "set_new al (Some sm) (Some kvp) = obind (push_entry ?sm kvp) (\<lambda>sm''. Ret (True, Some sm''))"
          using 3 fits by (simp add: *)
        ultimately show ?thesis using push [of ?sm] by (intro runs_step [OF chk] dbl re) (simp add: split_beta)
      qed
    qed
  qed
qed

lemma member_put_same:
  "member_at b i = Ret x \<Longrightarrow> member_put b i y = (case b of None \<Rightarrow> UB | Some cells \<Rightarrow> cell_put cells i (Ptr y))"
  by (auto simp: member_at_def member_put_def split: option.splits)

lemma runs_upgrade:
  "runs_to al cmp kvp (S_upgrade i, sm)
    (obind (upgrade (Some sm) i (Some kvp)) (\<lambda>(ok, smp, kvpp).
       set_result (if ok then SUCESS_UPGRADE else ERROR_SET_SM_RTN, smp, kvpp)))"
proof (cases "keys sm = None \<or> vals sm = None \<or> i < 0 \<or> i > top sm \<or> kvp_key kvp = None")
  case True
  then show ?thesis by (auto simp: upgrade_def intro!: runs_step [of _ _ _ "(S_upgrade i, sm)"] split: option.splits)
next
  case False
  then obtain ks vs where kv: "keys sm = Some ks" "vals sm = Some vs" by auto
  have enter: "set_step al cmp kvp (S_upgrade i, sm) = Ret (S_old_value i, sm)" using False by auto
  have last: "runs_to al cmp kvp (S_new_key i old_v old_k, sm\<lparr>vals := Some vs'\<rparr>)
      (obind (cell_put ks i (Ptr (kvp_key kvp))) (\<lambda>ks'.
         Ret (S_done SUCESS_UPGRADE \<lparr>kvp_key = old_k, kvp_value = old_v\<rparr>, sm\<lparr>vals := Some vs', keys := Some ks'\<rparr>)))"
    if "deref (cell_at ks i) = Ret old_k" for old_v old_k vs'
    by (rule runs_bind [where f = "\<lambda>ks'. (S_done SUCESS_UPGRADE \<lparr>kvp_key = old_k, kvp_value = old_v\<rparr>,
          sm\<lparr>vals := Some vs', keys := Some ks'\<rparr>)"]) (use that kv in \<open>simp_all add: member_put_def\<close>)
  have old: "runs_to al cmp kvp (S_old_value i, sm)
     (obind (deref (cell_at vs i)) (\<lambda>old_v. obind (deref (cell_at ks i)) (\<lambda>old_k.
      obind (cell_put vs i (Ptr (kvp_value kvp))) (\<lambda>vs'. obind (cell_put ks i (Ptr (kvp_key kvp))) (\<lambda>ks'.
        Ret (S_done SUCESS_UPGRADE \<lparr>kvp_key = old_k, kvp_value = old_v\<rparr>, sm\<lparr>vals := Some vs', keys := Some ks'\<rparr>))))))"
  proof (rule runs_bind [where f = "\<lambda>old_v. (S_old_key i old_v, sm)"], goal_cases)
    case (2 old_v)
    show ?case
    proof (rule runs_bind [where f = "\<lambda>old_k. (S_new_value i old_v old_k, sm)"], goal_cases)
      case k: (2 old_k)
      show ?case
        by (rule runs_bind [where f = "\<lambda>vs'. (S_new_key i old_v old_k, sm\<lparr>vals := Some vs'\<rparr>)"])
          (use 2 k kv last in \<open>simp_all add: member_put_def\<close>)
    qed (use kv in \<open>simp add: member_at_def\<close>)
  qed (use kv in \<open>simp add: member_at_def\<close>)
  have "obind (upgrade (Some sm) i (Some kvp)) (\<lambda>(ok, smp, kvpp).
       set_result (if ok then SUCESS_UPGRADE else ERROR_SET_SM_RTN, smp, kvpp)) =
     (obind (deref (cell_at vs i)) (\<lambda>old_v. obind (deref (cell_at ks i)) (\<lambda>old_k.
      obind (cell_put vs i (Ptr (kvp_value kvp))) (\<lambda>vs'. obind (cell_put ks i (Ptr (kvp_key kvp))) (\<lambda>ks'.
        Ret (S_done SUCESS_UPGRADE \<lparr>kvp_key = old_k, kvp_value = old_v\<rparr>, sm\<lparr>vals := Some vs', keys := Some ks'\<rparr>))))))"
    using False kv
    by (cases "deref (cell_at vs i)"; cases "deref (cell_at ks i)"; cases "cell_put vs i (Ptr (kvp_value kvp))";
        cases "cell_put ks i (Ptr (kvp_key kvp))") (simp_all add: upgrade_def)
  with old show ?thesis by (simp only:) (rule runs_step [OF enter])
qed

lemma runs_find:
  assumes "keys sm = Some ks" "0 \<le> i" "G KEY_ARR_ERROR = Ret (S_done ERROR_SET_SM_RTN kvp, sm)"
    "runs_to al cmp kvp (S_check, sm) (G KEY_NOT_FOUND)" "\<And>p. 0 \<le> p \<Longrightarrow> runs_to al cmp kvp (S_upgrade p, sm) (G p)"
  shows "runs_to al cmp kvp (S_find i, sm) (obind (find_loop (top sm) ks (kvp_key kvp) cmp i) G)"
  using assms(2)
proof (induction "nat (top sm + 1 - i)" arbitrary: i rule: less_induct)
  case less
  show ?case
  proof (cases "i \<le> top sm")
    case False
    with assms(4) show ?thesis by (subst find_loop.simps, rule_tac runs_step) simp_all
  next
    case True
    have enter: "set_step al cmp kvp (S_find i, sm) = Ret (S_cell i, sm)" using True by simp
    have tail: "runs_to al cmp kvp (S_find (i + 1), sm) (obind (find_loop (top sm) ks (kvp_key kvp) cmp (i + 1)) G)"
      by (rule less.hyps) (use True less.prems in auto)
    show ?thesis
    proof (cases "cell_at ks i")
      case (Ptr k)
      have "runs_to al cmp kvp (S_cell i, sm) (obind (cmp k (kvp_key kvp)) (\<lambda>hit.
          if hit then G i else obind (find_loop (top sm) ks (kvp_key kvp) cmp (i + 1)) G))"
        by (rule runs_bind [where f = "\<lambda>hit. (if hit then S_upgrade i else S_find (i + 1), sm)"])
          (use Ptr assms(1,5) less.prems tail in auto)
      moreover have "obind (find_loop (top sm) ks (kvp_key kvp) cmp i) G = obind (cmp k (kvp_key kvp)) (\<lambda>hit.
          if hit then G i else obind (find_loop (top sm) ks (kvp_key kvp) cmp (i + 1)) G)"
        using True Ptr by (subst find_loop.simps) (cases "cmp k (kvp_key kvp)"; simp)
      ultimately show ?thesis by (simp only:) (rule runs_step [OF enter])
    next
      case Uninit
      with True assms(1) show ?thesis
        by (subst find_loop.simps) (rule runs_step [OF enter], simp add: runs_stuck)
    next
      case Null
      with True assms(1,3) show ?thesis
        by (subst find_loop.simps) (rule runs_step [OF enter], rule runs_step, simp, simp)
    qed
  qed
qed

lemma obind_Ret_assoc: "obind (obind m (\<lambda>x. Ret (f x))) g = obind m (\<lambda>x. g (f x))"
  by (cases m) auto

text \<open>Run alone, the statements of \<^verbatim>\<open>set\<close> do what \<open>sm_set\<close> says, undefined behaviour included.\<close>

lemma set_alone:
  assumes "not_freed sm"
  shows "runs_to al cmp kvp (S_enter, sm) (obind (sm_set al (Some sm) (Some kvp) (Some cmp)) set_result)"
proof (cases "kvp_key kvp = None \<or> keys sm = None")
  case True
  then show ?thesis
    by (auto simp: sm_set_def find_key_def find_codes intro!: runs_step [of _ _ _ "(S_enter, sm)"])
next
  case False
  then obtain ks where ks: "keys sm = Some ks" "kvp_key kvp \<noteq> None" by auto
  let ?G = "\<lambda>pos. obind
     (if pos = FIND_KEY_ERROR \<or> pos = KEY_ARR_ERROR then Ret (ERROR_SET_SM_RTN, Some sm, Some kvp)
      else if pos = KEY_NOT_FOUND then
        obind (set_new al (Some sm) (Some kvp)) (\<lambda>(ok, smp'). Ret (if ok then SUCESS_SET else ERROR_SET_SM_RTN, smp', Some kvp))
      else
        obind (upgrade (Some sm) pos (Some kvp)) (\<lambda>(ok, smp', kvpp'). Ret (if ok then SUCESS_UPGRADE else ERROR_SET_SM_RTN, smp', kvpp')))
     set_result"
  have "runs_to al cmp kvp (S_find 0, sm) (obind (find_loop (top sm) ks (kvp_key kvp) cmp 0) ?G)"
  proof (rule runs_find [OF ks(1)], goal_cases)
    case 3
    show ?case using runs_set_new [OF ks(2) assms, of al cmp] by (simp add: find_codes obind_Ret_assoc split_def)
  next
    case (4 p)
    then show ?case using runs_upgrade [of al cmp kvp p sm] by (simp add: find_codes obind_Ret_assoc split_def)
  qed (simp_all add: find_codes)
  moreover have "obind (sm_set al (Some sm) (Some kvp) (Some cmp)) set_result = obind (find_loop (top sm) ks (kvp_key kvp) cmp 0) ?G"
    using ks by (cases "find_loop (top sm) ks (kvp_key kvp) cmp 0") (auto simp: sm_set_def find_key_def)
  moreover have "set_step al cmp kvp (S_enter, sm) = Ret (S_find 0, sm)" using ks by auto
  ultimately show ?thesis by (simp only:) (rule runs_step)
qed

end
