(* ===== verification/Ownership.thy ===== *)
theory Ownership
  imports Get_Cmd "HOL-Library.Multiset"
begin

text \<open>
  Ownership of key and value nodes in the SET and GET handlers: every pair of nodes a handler allocates
  or finds in the map is afterwards in the map or was freed, each exactly once. \<open>owned sm\<close> are the pairs
  the map owns; \<open>conserves r sm new\<close> says that the call \<open>r\<close>, which starts with the map \<open>sm\<close> and
  allocates \<open>new\<close>, neither leaks nor frees anything twice.
\<close>

type_synonym node_pair = "KeyNode option \<times> ValueNode option"

fun cell_ptr :: "'a option cell \<Rightarrow> 'a option" where
  "cell_ptr (Ptr x) = x"
| "cell_ptr _ = None"

definition owned :: "data_map \<Rightarrow> node_pair multiset" where
  "owned sm =
     (case (keys sm, vals sm) of
        (Some ks, Some vs) \<Rightarrow>
          mset (map (\<lambda>i. (cell_ptr (ks ! i), cell_ptr (vs ! i))) [0..<nat (top sm + 1)])
      | _ \<Rightarrow> {#})"

definition conserves :: "exec_result outcome \<Rightarrow> data_map \<Rightarrow> node_pair \<Rightarrow> bool" where
  "conserves r sm new \<longleftrightarrow>
     (\<exists>reply sm' freed. r = Ret (reply, sm', freed) \<and> owned sm' + mset freed = add_mset new (owned sm))"

lemma owned_rep: "sm_rep sm es \<Longrightarrow> owned sm = mset (map (\<lambda>e. (Some (fst e), snd e)) es)"
proof -
  assume "sm_rep sm es"
  then obtain jk jv where r: "keys sm = Some (map (\<lambda>e. Ptr (Some (fst e))) es @ jk)"
    "vals sm = Some (map (\<lambda>e. Ptr (snd e)) es @ jv)" "nat (top sm + 1) = length es"
    by (auto simp: sm_rep_def)
  have "map (\<lambda>i. (cell_ptr ((map (\<lambda>e. Ptr (Some (fst e))) es @ jk) ! i),
      cell_ptr ((map (\<lambda>e. Ptr (snd e)) es @ jv) ! i))) [0..<length es] = map (\<lambda>e. (Some (fst e), snd e)) es"
    by (intro nth_equalityI) (simp_all add: nth_append)
  with r show ?thesis by (simp add: owned_def)
qed

lemma mset_update: "i < length xs \<Longrightarrow> add_mset (xs ! i) (mset (xs[i := x])) = add_mset x (mset xs)"
  by (induction xs arbitrary: i) (auto simp: nth_Cons split: nat.splits)

lemma mset_remove_nth: "i < length xs \<Longrightarrow> add_mset (xs ! i) (mset (remove_nth i xs)) = mset xs"
proof -
  assume "i < length xs"
  then have "mset xs = mset (take i xs @ xs ! i # drop (Suc i) xs)" by (simp add: Cons_nth_drop_Suc)
  then show ?thesis by (simp add: remove_nth_def)
qed

section \<open>The map operations\<close>

lemma db_entries:
  assumes "db_rep sm d"
  obtains es where "sm_rep sm es" "\<forall>e\<in>set es. key_ok (fst e)"
    "\<And>k. key_ok k \<Longrightarrow> (find_idx (\<lambda>e. key_bytes (fst e) = key_bytes k) es = None) = (d (key_bytes k) = None)"
proof -
  from assms obtain m where m: "data_rep sm m" "d = (\<lambda>x. map_option entry_of (m x))" by (rule db_repE)
  from m(1) obtain es where es: "sm_rep sm es" "\<forall>e\<in>set es. key_ok (fst e)"
    "distinct (map (\<lambda>e. key_bytes (fst e)) es)" "m = entries_map key_bytes es" by (rule sm_mapE)
  have "(find_idx (\<lambda>e. key_bytes (fst e) = key_bytes k) es = None) = (d (key_bytes k) = None)" for k
    using entries_map_find_None [of key_bytes "key_bytes k" es] entries_map_find_Some [OF es(3), of "key_bytes k"]
      m(2) es(4)
    by (cases "find_idx (\<lambda>e. key_bytes (fst e) = key_bytes k) es") auto
  with that es(1,2) show ?thesis by blast
qed

lemma set_pair_owned:
  assumes "db_rep sm d" "key_ok k" "room al sm"
  shows "\<exists>rtn sm' kvp'. set_pair al sm (pair k v) = Ret (rtn, sm', kvp') \<and>
    (if d (key_bytes k) = None then rtn = SUCESS_SET \<and> owned sm' = add_mset (Some k, Some v) (owned sm)
     else rtn = SUCESS_UPGRADE \<and> add_mset (pair_of kvp') (owned sm') = add_mset (Some k, Some v) (owned sm))"
proof -
  from assms(1) obtain es where es: "sm_rep sm es" "\<forall>e\<in>set es. key_ok (fst e)"
    "(find_idx (\<lambda>e. key_bytes (fst e) = key_bytes k) es = None) = (d (key_bytes k) = None)"
    using db_entries assms(2) by metis
  let ?P = "\<lambda>e. key_bytes (fst e) = key_bytes k"
  note cmp = data.cmp_left [OF es(2) assms(2)]
  show ?thesis
  proof (cases "find_idx ?P es")
    case None
    obtain sm' where "sm_set al (Some sm) (Some (pair k v)) (Some compare) = Ret (SUCESS_SET, Some sm', Some (pair k v))"
      "sm_rep sm' (es @ [(k, Some v)])"
      using sm_set_rep_new [where P = ?P and cmp = compare, OF es(1) cmp None, of al "Some v"] assms(3)
      by (auto simp: room_def)
    with es(1,3) None show ?thesis by (simp add: set_pair_def owned_rep)
  next
    case (Some i)
    obtain sm' where sm': "sm_set al (Some sm) (Some (pair k v)) (Some compare) = Ret (SUCESS_UPGRADE, Some sm',
        Some \<lparr>kvp_key = Some (fst (es ! i)), kvp_value = snd (es ! i)\<rparr>)" "sm_rep sm' (es[i := (k, Some v)])"
      using sm_set_rep_upgrade [where P = ?P and cmp = compare, OF es(1) cmp Some, of al "Some v"] by blast
    have i: "i < length es" using find_idx_SomeD [OF Some] by simp
    have "add_mset (Some (fst (es ! i)), snd (es ! i)) (owned sm') = add_mset (Some k, Some v) (owned sm)"
      using mset_update [of i "map (\<lambda>e. (Some (fst e), snd e)) es" "(Some k, Some v)"] i
      by (simp add: owned_rep [OF es(1)] owned_rep [OF sm'(2)] map_update)
    with sm'(1) es(3) Some show ?thesis by (simp add: set_pair_def pair_of_def)
  qed
qed

lemma remove_owned:
  assumes "db_rep sm d" "key_ok k" "d (key_bytes k) \<noteq> None"
  shows "\<exists>sm' kvp'. remove_key (Some sm) (Some k) (Some compare) (Some rmv) =
      Ret (REMOVE_SUCCESS, Some sm', Some kvp') \<and> add_mset (pair_of kvp') (owned sm') = owned sm"
proof -
  from assms(1) obtain es where es: "sm_rep sm es" "\<forall>e\<in>set es. key_ok (fst e)"
    "(find_idx (\<lambda>e. key_bytes (fst e) = key_bytes k) es = None) = (d (key_bytes k) = None)"
    using db_entries assms(2) by metis
  let ?P = "\<lambda>e. key_bytes (fst e) = key_bytes k"
  from es(3) assms(3) obtain i where i: "find_idx ?P es = Some i" by (cases "find_idx ?P es") auto
  obtain sm' where sm': "remove_key (Some sm) (Some k) (Some compare) (Some rmv) =
      Ret (REMOVE_SUCCESS, Some sm', Some \<lparr>kvp_key = Some (fst (es ! i)), kvp_value = snd (es ! i)\<rparr>)"
    "sm_rep sm' (remove_nth i es)"
    using remove_key_rep_hit [where P = ?P and cmp = compare, OF es(1) data.cmp_right [OF es(2) assms(2)] i] by blast
  have "i < length es" using find_idx_SomeD [OF i] by simp
  then have "add_mset (Some (fst (es ! i)), snd (es ! i)) (owned sm') = owned sm"
    using mset_remove_nth [of i "map (\<lambda>e. (Some (fst e), snd e)) es"]
    by (simp add: owned_rep [OF es(1)] owned_rep [OF sm'(2)] map_remove_nth)
  with sm'(1) show ?thesis by (simp add: pair_of_def)
qed

section \<open>The executions of SET\<close>

lemma conserves_same: "conserves (Ret (reply, sm, [new])) sm new"
  by (simp add: conserves_def)

lemma conserves_basic:
  assumes "db_rep sm d" "key_ok k" "room al sm"
  shows "conserves (execute_set_basic al sm (Some (pair k v))) sm (Some k, Some v)"
  using set_pair_owned [OF assms, of v] check_ok [OF assms(1,2), of v]
  by (auto simp: execute_set_basic_def conserves_def split: if_splits)

lemma conserves_get:
  assumes "db_rep sm d" "key_ok k" "value_ok v" "room al sm"
  shows "conserves (execute_set_get al sm (Some (pair k v))) sm (Some k, Some v)"
proof (cases "d (key_bytes k)")
  case None
  with set_pair_owned [OF assms(1,2,4), of v] check_ok [OF assms(1,2), of v] show ?thesis
    by (auto simp: execute_set_get_def conserves_def)
next
  case (Some e)
  with set_pair_db [OF assms] obtain rtn sm' k' w where s: "set_pair al sm (pair k v) = Ret (rtn, sm', pair k' w)" "value_ok w"
    by auto
  with Some set_pair_owned [OF assms(1,2,4), of v] check_ok [OF assms(1,2), of v] show ?thesis
    by (auto simp: execute_set_get_def conserves_def old_value_text_ok)
qed

lemma conserves_nx_xx:
  assumes "db_rep sm d" "key_ok k" "room al sm" "parsed ! 3 = Some opt" "is_word [''NX'', ''XX''] opt"
  shows "conserves (execute_set_nx_xx al sm (Some (pair k v)) parsed) sm (Some k, Some v)"
proof -
  obtain b sz where o: "opt = BulkStringNode (Some b) sz" "cstr b \<in> {''NX'', ''XX''}"
    using word_bulk [OF assms(5)] by auto
  obtain r where r: "sm_get (Some sm) (Some k) (Some compare) = Ret r" "(r = None) = (d (key_bytes k) = None)"
    using db_get_none_iff [OF assms(1,2)] by (elim exE conjE)
  note * = execute_set_nx_xx_def check_ok [OF assms(1,2)] assms(4) strcmp_eq_def o(1) r(1)
  from o(2) r(2) set_pair_owned [OF assms(1-3), of v] show ?thesis
    by (cases r) (auto simp: * conserves_def pair_of_def)
qed

lemma conserves_nxxx_get:
  assumes "db_rep sm d" "key_ok k" "room al sm" "parsed ! 3 = Some opt" "is_word [''NX'', ''XX''] opt"
  shows "conserves (execute_set_nxxx_get al sm (Some (pair k v)) parsed) sm (Some k, Some v)"
proof -
  obtain reply sm' freed where nx: "execute_set_nx_xx al sm (Some (pair k v)) parsed = Ret (reply, sm', freed)"
    "owned sm' + mset freed = add_mset (Some k, Some v) (owned sm)"
    using conserves_nx_xx [OF assms, of v] by (auto simp: conserves_def)
  note * = execute_set_nxxx_get_def check_ok [OF assms(1,2)] assms(4) nx(1) conserves_def
  show ?thesis
  proof (cases "d (key_bytes k)")
    case None
    with nx(2) db_get_None [OF assms(1,2)] show ?thesis by (simp add: *)
  next
    case (Some e)
    show ?thesis
    proof (rule db_get_Some [OF assms(1,2) Some])
      fix k' w
      assume get: "sm_get (Some sm) (Some k) (Some compare) = Ret (Some (pair k' w))"
        and w: "key_ok k'" "value_ok w" "e = entry_of (k', Some w)"
      from w(1) have "kn_content k' \<noteq> None" by (auto simp: key_ok_def split: option.splits)
      with get w nx(2) show ?thesis by (auto simp: * old_value_text_ok)
    qed
  qed
qed

text \<open>The key node with the expiry that the option names.\<close>

definition with_expiry :: "(node \<times> node) option \<Rightarrow> KeyNode \<Rightarrow> KeyNode" where
  "with_expiry ex k =
     (case ex of
        None \<Rightarrow> k
      | Some (opt, t) \<Rightarrow>
          (let time = of_nat (digits_val (node_text t)) in
           if cstr (node_text opt) \<in> {''EX'', ''EXAT''} then k\<lparr>kn_ex := time\<rparr> else k\<lparr>kn_px := time\<rparr>))"

lemma conserves_expiry:
  assumes "db_rep sm d" "key_ok k" "room al sm"
    "parsed ! 1 = Some opt" "is_word [''EX'', ''PX'', ''EXAT'', ''PXAT''] opt"
    "parsed ! 0 = Some t" "is_number t"
  shows "conserves (execute_set_ex_px_exat_pxat al sm (Some (pair k v)) parsed) sm
    (Some (with_expiry (Some (opt, t)) k), Some v)"
proof -
  obtain b sz where o: "opt = BulkStringNode (Some b) sz" "cstr b \<in> {''EX'', ''PX'', ''EXAT'', ''PXAT''}"
    using word_bulk [OF assms(5)] by auto
  obtain ds sz' where t: "t = BulkStringNode (Some ds) sz'" "list_all is_digit ds"
    using assms(7) by (cases t rule: is_number.cases) auto
  have time: "string_to_uint ds = of_nat (digits_val ds)"
    using t(2) string_to_uint_digits [of ds] by (simp add: list_all_iff)
  have k: "key_ok (k\<lparr>kn_ex := x\<rparr>)" "key_ok (k\<lparr>kn_px := x\<rparr>)" for x
    using assms(2) by (auto simp: key_ok_def split: option.splits)
  show ?thesis
    using conserves_basic [OF assms(1) k(1) assms(3)] conserves_basic [OF assms(1) k(2) assms(3)] o(2)
    by (auto simp: execute_set_ex_px_exat_pxat_def check_ok [OF assms(1,2)] assms(4) [simplified] assms(6) o(1) t(1) time
        get_option_type_word with_expiry_def Let_def)
qed

section \<open>The commands\<close>

text \<open>What a SET request allocates: nothing without a key, the key node alone without a value.\<close>

definition allocated :: "timespec \<Rightarrow> set_request \<Rightarrow> node_pair multiset" where
  "allocated now rq =
     (let k = node_text (rq_key rq); v = node_text (rq_value rq); key = made_key now k in
      if k = [] then {#}
      else if v = [] then {#(Some key, None)#}
      else {#(Some (with_expiry (rq_expiry rq) key), Some (made_value v))#})"

text \<open>The requests that \<open>execute_set_cmd\<close> has a branch for: an expiry comes alone.\<close>

definition supported :: "set_request \<Rightarrow> bool" where
  "supported rq \<longleftrightarrow> rq_expiry rq = None \<or> rq_nxxx rq = None \<and> rq_get rq = None"

lemma set_conserves:
  assumes "db_rep sm d" "\<forall>nd\<in>set ns. node_wf nd" "set_grammar ns = Some rq" "room (env_alloc e) sm" "supported rq"
    "node_text (rq_key rq) \<noteq> []" "node_text (rq_value rq) \<noteq> []"
  shows "conserves (handle_set_cmd e ns sm) sm
    (Some (with_expiry (rq_expiry rq) (made_key (env_now e) (node_text (rq_key rq)))),
     Some (made_value (node_text (rq_value rq))))"
proof -
  let ?k = "node_text (rq_key rq)"
  note g = set_grammarD [OF assms(3)]
  from assms(6,7) have ok: "key_ok (made_key (env_now e) ?k)" "value_ok (made_value (node_text (rq_value rq)))"
    using value_bounded [OF assms(2,3)] by simp_all
  note run = handle_set_cmd_run [OF assms(2,3), of e sm] rq_state_def assms(6,7) Let_def
  note ops = conserves_basic [OF assms(1) ok(1) assms(4)] conserves_get [OF assms(1) ok assms(4)]
    conserves_nx_xx [OF assms(1) ok(1) assms(4) slots_nth(3) [of rq, THEN trans] g(5)]
    conserves_nxxx_get [OF assms(1) ok(1) assms(4) slots_nth(3) [of rq, THEN trans] g(5)]
  show ?thesis
  proof (cases "rq_expiry rq")
    case None
    with ops show ?thesis
      by (cases "rq_nxxx rq"; cases "rq_get rq") (simp_all add: run with_expiry_def)
  next
    case (Some et)
    obtain opt t where et: "et = (opt, t)" by (cases et)
    with Some g(6) have ws: "is_word [''EX'', ''PX'', ''EXAT'', ''PXAT''] opt" "is_number t" by auto
    have "rq_slots rq ! 1 = Some opt" "rq_slots rq ! 0 = Some t" using slots_nth(4,5) Some et by simp_all
    note ex = conserves_expiry [OF assms(1) ok(1) assms(4) this(1) ws(1) this(2) ws(2)]
    from assms(5) Some have "rq_nxxx rq = None" "rq_get rq = None" by (simp_all add: supported_def)
    with ex Some et show ?thesis by (simp add: run)
  qed
qed

lemma set_unsupported:
  assumes "\<forall>nd\<in>set ns. node_wf nd" "set_grammar ns = Some rq" "\<not> supported rq"
    "node_text (rq_key rq) \<noteq> []" "node_text (rq_value rq) \<noteq> []"
  shows "handle_set_cmd e ns sm = Ret (None, sm, [])"
  using assms(3-5)
  by (cases "rq_expiry rq"; cases "rq_nxxx rq"; cases "rq_get rq")
    (simp_all add: handle_set_cmd_run [OF assms(1,2)] rq_state_def Let_def supported_def)

text \<open>Without the room of the property below, when the arrays are full and cannot grow, SET with NX of a new
  key loses its pair: the reply is nil, the map does not get it, and nothing is freed.\<close>

lemma set_nx_oom_leaks:
  assumes "db_rep sm d" "key_ok k" "d (key_bytes k) = None" "int (card (dom d)) = capacity sm"
    "2 * capacity sm \<le> INT_MAX" "\<not> realloc_keys al" "parsed ! 3 = Some (arg ''NX'')"
  shows "execute_set_nx_xx al sm (Some (pair k v)) parsed = Ret (Some RESP_NIL, sm, [])"
proof -
  from assms(1) obtain m where m: "data_rep sm m" "d = (\<lambda>x. map_option entry_of (m x))" by (rule db_repE)
  have "dom m = dom d" using m(2) by auto
  with set_oom [OF m(1) assms(2), of al "Some v"] assms(3-6) m(2)
  have set: "set_pair al sm (pair k v) = Ret (ERROR_SET_SM_RTN, sm, pair k v)" by (simp add: set_pair_def)
  have "strcmp_eq ''NX'' ''NX''" by (simp add: strcmp_eq_def)
  with set show ?thesis
    by (simp add: execute_set_nx_xx_def check_ok [OF assms(1,2)] assms(7) [simplified] arg_def db_get_None [OF assms(1-3)])
qed

text \<open>C25. Memory of SET, when the arrays of the map have room or can be doubled (\<open>room\<close>: both \<^verbatim>\<open>realloc\<close> calls
  succeed): for every request of the grammar, the key and value nodes that the map owned before and
  those that the request allocates are afterwards in the map or were freed, each exactly once; the only
  exception are the requests that combine an expiry with NX, XX or GET, whose new pair is neither stored
  nor freed. Without room the pair of a request with NX is lost as well (\<open>set_nx_oom_leaks\<close>).\<close>

theorem set_ownership:
  assumes "db_rep sm d" "\<forall>nd\<in>set ns. node_wf nd" "set_grammar ns = Some rq" "room (env_alloc e) sm"
  shows "\<exists>reply sm' freed. handle_set_cmd e ns sm = Ret (reply, sm', freed) \<and>
    owned sm' + mset freed + (if supported rq \<or> node_text (rq_value rq) = [] then {#} else allocated (env_now e) rq) =
    allocated (env_now e) rq + owned sm"
proof (cases "node_text (rq_key rq) = [] \<or> node_text (rq_value rq) = []")
  case True
  then show ?thesis by (auto simp: handle_set_cmd_run [OF assms(2,3)] allocated_def Let_def)
next
  case False
  show ?thesis
  proof (cases "supported rq")
    case True
    with set_conserves [OF assms] False show ?thesis by (auto simp: conserves_def allocated_def)
  next
    case N: False
    with set_unsupported [OF assms(2,3)] False show ?thesis by simp
  qed
qed

theorem set_ownership_witness:
  "\<exists>reply sm' freed. handle_set_cmd (demo_env (Timespec 6 0)) [arg ''k'', arg ''w'', arg ''GET'', arg ''EX'', arg ''9''] demo_map =
      Ret (reply, sm', freed) \<and>
    owned sm' + mset freed +
      {#(Some ((made_key (Timespec 6 0) ''k'')\<lparr>kn_ex := 9\<rparr>), Some (made_value ''w''))#} =
    {#(Some ((made_key (Timespec 6 0) ''k'')\<lparr>kn_ex := 9\<rparr>), Some (made_value ''w''))#} + owned demo_map"
  using set_ownership [OF demo_db, of "[arg ''k'', arg ''w'', arg ''GET'', arg ''EX'', arg ''9'']"
      "\<lparr>rq_key = arg ''k'', rq_value = arg ''w'', rq_nxxx = None, rq_get = Some (arg ''GET''),
        rq_expiry = Some (arg ''EX'', arg ''9'')\<rparr>" "demo_env (Timespec 6 0)"] demo_room
  by (simp add: PROTO_MAX_BULK_SIZE_def set_grammar_def take_opt_def expiry_part_def cstr_def demo_env_def
      is_digit_def arg_def allocated_def supported_def with_expiry_def digits_val_def)

text \<open>C26. Memory of GET: the key node that GET allocates for its search is freed on every path, and of the
  map exactly the pair of an expired key is freed, once.\<close>

theorem get_ownership:
  assumes "db_rep sm d" "\<forall>nd\<in>set ns. node_wf nd" "get_request ns = Some k"
  shows "\<exists>reply sm' freed. handle_get_cmd e ns sm = Ret (reply, sm', freed) \<and>
    owned sm' + mset freed = add_mset (Some (made_key (env_now e) k), None) (owned sm) \<and>
    length freed = (case d k of None \<Rightarrow> 1 | Some en \<Rightarrow> if expired (env_now e) en then 2 else 1)"
proof -
  note k = get_requestD(1) [OF assms(2,3)] and ns = get_requestD(2) [OF assms(2,3)]
  let ?key = "made_key (env_now e) k"
  have ok: "key_ok ?key" using k by simp
  note * = handle_get_cmd_def is_cmd_valid_def ns create_nodes k
  show ?thesis
  proof (cases "d k")
    case None
    with db_get_None [OF assms(1) ok] show ?thesis by (simp add: *)
  next
    case (Some en)
    then have dk: "d (key_bytes ?key) = Some en" by simp
    show ?thesis
    proof (rule db_get_Some [OF assms(1) ok dk])
      fix k' w
      assume get: "sm_get (Some sm) (Some ?key) (Some compare) = Ret (Some (pair k' w))"
        and w: "key_ok k'" "value_ok w" "en = entry_of (k', Some w)"
      have exp: "has_key_expired ?key k' = Ret (expired (env_now e) en)"
        using made_key_expired [OF w(1)] w(3) by simp
      show ?thesis
      proof (cases "expired (env_now e) en")
        case True
        have "d (key_bytes ?key) \<noteq> None" using dk by simp
        from remove_owned [OF assms(1) ok this, of "\<lparr>kvp_key = None, kvp_value = None\<rparr>"]
        obtain sm' kvp' where "remove_key (Some sm) (Some ?key) (Some compare) (Some \<lparr>kvp_key = None, kvp_value = None\<rparr>) =
            Ret (REMOVE_SUCCESS, Some sm', Some kvp')" "add_mset (pair_of kvp') (owned sm') = owned sm" by auto
        with True exp get Some show ?thesis by (simp add: *)
      next
        case False
        with exp get Some value_node_to_string [OF w(2)] w(2) show ?thesis
          by (simp add: * value_ok_def text_value_def)
      qed
    qed
  qed
qed

theorem get_ownership_witness:
  "\<exists>reply sm' freed. handle_get_cmd (demo_env (Timespec 9 0)) [arg ''k''] demo_map = Ret (reply, sm', freed) \<and>
    owned sm' + mset freed = add_mset (Some (made_key (Timespec 9 0) ''k''), None) (owned demo_map) \<and> length freed = 2"
  using get_ownership [OF demo_db, of "[arg ''k'']" "''k''" "demo_env (Timespec 9 0)"] demo_expired
  by (simp add: PROTO_MAX_BULK_SIZE_def get_request_def arg_def demo_env_def)

end
