(* ===== verification/Map_Race.thy ===== *)
theory Map_Race
  imports Map_Steps Ownership
begin

text \<open>
  Which interleavings of \<^verbatim>\<open>set\<close> are harmless and which are not. Threads that overwrite different
  present keys never disturb each other: in every interleaving each finds its own entry, and the final
  map is that of the calls one after the other. Two insertions can lose an acknowledged key or write
  into a freed block, and two calls for one present key can both return the old pair, which both
  callers then free.
\<close>

section \<open>Overwriting different keys\<close>

text \<open>What a thread knows that overwrites the entry \<open>e\<close> at position \<open>i\<close> with \<open>kvp\<close>, and the contents
  of its two cells.\<close>

fun pc_ok :: "'k \<times> 'v option \<Rightarrow> nat \<Rightarrow> ('k, 'v) KeyValuePair \<Rightarrow> ('k, 'v) set_pc \<Rightarrow>
    'k option cell \<Rightarrow> 'v option cell \<Rightarrow> bool" where
  "pc_ok e i kvp S_enter ck cv \<longleftrightarrow> ck = Ptr (Some (fst e)) \<and> cv = Ptr (snd e)"
| "pc_ok e i kvp (S_find p) ck cv \<longleftrightarrow> 0 \<le> p \<and> p \<le> int i \<and> ck = Ptr (Some (fst e)) \<and> cv = Ptr (snd e)"
| "pc_ok e i kvp (S_cell p) ck cv \<longleftrightarrow> 0 \<le> p \<and> p \<le> int i \<and> ck = Ptr (Some (fst e)) \<and> cv = Ptr (snd e)"
| "pc_ok e i kvp (S_upgrade p) ck cv \<longleftrightarrow> p = int i \<and> ck = Ptr (Some (fst e)) \<and> cv = Ptr (snd e)"
| "pc_ok e i kvp (S_old_value p) ck cv \<longleftrightarrow> p = int i \<and> ck = Ptr (Some (fst e)) \<and> cv = Ptr (snd e)"
| "pc_ok e i kvp (S_old_key p ov) ck cv \<longleftrightarrow> p = int i \<and> ov = snd e \<and> ck = Ptr (Some (fst e)) \<and> cv = Ptr (snd e)"
| "pc_ok e i kvp (S_new_value p ov ok) ck cv \<longleftrightarrow>
     p = int i \<and> ov = snd e \<and> ok = Some (fst e) \<and> ck = Ptr (Some (fst e)) \<and> cv = Ptr (snd e)"
| "pc_ok e i kvp (S_new_key p ov ok) ck cv \<longleftrightarrow>
     p = int i \<and> ov = snd e \<and> ok = Some (fst e) \<and> ck = Ptr (Some (fst e)) \<and> cv = Ptr (kvp_value kvp)"
| "pc_ok e i kvp (S_done rtn p) ck cv \<longleftrightarrow>
     rtn = SUCESS_UPGRADE \<and> p = \<lparr>kvp_key = Some (fst e), kvp_value = snd e\<rparr> \<and>
     ck = Ptr (kvp_key kvp) \<and> cv = Ptr (kvp_value kvp)"
| "pc_ok e i kvp _ ck cv \<longleftrightarrow> False"

text \<open>The statements a thread has behind it, when its entry is at position \<open>i\<close>.\<close>

fun pc_rank :: "nat \<Rightarrow> ('k, 'v) set_pc \<Rightarrow> nat" where
  "pc_rank i S_enter = 0"
| "pc_rank i (S_find p) = Suc (2 * nat p)"
| "pc_rank i (S_cell p) = 2 * nat p + 2"
| "pc_rank i (S_upgrade p) = 2 * i + 3"
| "pc_rank i (S_old_value p) = 2 * i + 4"
| "pc_rank i (S_old_key p ov) = 2 * i + 5"
| "pc_rank i (S_new_value p ov ok) = 2 * i + 6"
| "pc_rank i (S_new_key p ov ok) = 2 * i + 7"
| "pc_rank i _ = 2 * i + 8"

text \<open>The threads write different entries of \<open>es\<close>: thread \<open>j\<close> the one at position \<open>slot ! j\<close>.\<close>

definition writers :: "('k \<Rightarrow> bool) \<Rightarrow> ('k \<Rightarrow> 'i) \<Rightarrow> ('k \<times> 'v option) list \<Rightarrow> ('k, 'v) KeyValuePair list \<Rightarrow> nat list \<Rightarrow> bool" where
  "writers ok ident es kvps slot \<longleftrightarrow>
     (\<forall>e\<in>set es. ok (fst e)) \<and> distinct (map (\<lambda>e. ident (fst e)) es) \<and>
     length slot = length kvps \<and> distinct slot \<and>
     (\<forall>j<length kvps. slot ! j < length es \<and>
        (\<exists>k. kvp_key (kvps ! j) = Some k \<and> ok k \<and> ident k = ident (fst (es ! (slot ! j)))))"

definition writing :: "('k \<times> 'v option) list \<Rightarrow> ('k, 'v) KeyValuePair list \<Rightarrow> nat list \<Rightarrow> ('k, 'v) threads \<Rightarrow> bool" where
  "writing es kvps slot st \<longleftrightarrow>
     (case st of (pcs, sm) \<Rightarrow>
        length pcs = length kvps \<and> top sm = int (length es) - 1 \<and> 0 < capacity sm \<and>
        (\<exists>ks vs. keys sm = Some ks \<and> vals sm = Some vs \<and> length ks = nat (capacity sm) \<and> length vs = length ks \<and>
           length es \<le> length ks \<and>
           (\<forall>i<length es. i \<notin> set slot \<longrightarrow> ks ! i = Ptr (Some (fst (es ! i))) \<and> vs ! i = Ptr (snd (es ! i))) \<and>
           (\<forall>j<length kvps. pc_ok (es ! (slot ! j)) (slot ! j) (kvps ! j) (pcs ! j) (ks ! (slot ! j)) (vs ! (slot ! j)))))"

lemma writingI:
  assumes "length pcs = length kvps" "top sm = int (length es) - 1" "0 < capacity sm"
    "keys sm = Some ks" "vals sm = Some vs" "length ks = nat (capacity sm)" "length vs = length ks" "length es \<le> length ks"
    "\<And>i. i < length es \<Longrightarrow> i \<notin> set slot \<Longrightarrow> ks ! i = Ptr (Some (fst (es ! i))) \<and> vs ! i = Ptr (snd (es ! i))"
    "\<And>j. j < length kvps \<Longrightarrow> pc_ok (es ! (slot ! j)) (slot ! j) (kvps ! j) (pcs ! j) (ks ! (slot ! j)) (vs ! (slot ! j))"
  shows "writing es kvps slot (pcs, sm)"
  using assms by (auto simp: writing_def)

lemma writingE:
  assumes "writing es kvps slot (pcs, sm)"
  obtains ks vs where "length pcs = length kvps" "top sm = int (length es) - 1" "0 < capacity sm"
    "keys sm = Some ks" "vals sm = Some vs" "length ks = nat (capacity sm)" "length vs = length ks" "length es \<le> length ks"
    "\<And>i. i < length es \<Longrightarrow> i \<notin> set slot \<Longrightarrow> ks ! i = Ptr (Some (fst (es ! i))) \<and> vs ! i = Ptr (snd (es ! i))"
    "\<And>j. j < length kvps \<Longrightarrow> pc_ok (es ! (slot ! j)) (slot ! j) (kvps ! j) (pcs ! j) (ks ! (slot ! j)) (vs ! (slot ! j))"
  using assms by (auto simp: writing_def)

text \<open>In the cell of an entry there is always a key with the identity of that entry.\<close>

lemma pc_ok_key: "pc_ok e i kvp pc ck cv \<Longrightarrow> ck = Ptr (Some (fst e)) \<or> ck = Ptr (kvp_key kvp)"
  by (cases pc) auto

context key_compare
begin

lemma writing_key:
  assumes "writers key_ok ident es kvps slot" "writing es kvps slot (pcs, sm)" "keys sm = Some ks" "i < length es"
  obtains k where "ks ! i = Ptr (Some k)" "key_ok k" "ident k = ident (fst (es ! i))"
proof (cases "i \<in> set slot")
  case False
  with assms show ?thesis by (elim writingE) (auto intro!: that simp: writers_def)
next
  case True
  with assms(1) obtain j where j: "j < length kvps" "slot ! j = i" by (auto simp: writers_def in_set_conv_nth)
  with assms(1) obtain k where k: "kvp_key (kvps ! j) = Some k" "key_ok k" "ident k = ident (fst (es ! i))"
    by (auto simp: writers_def)
  from assms(2,3) j obtain cv where "pc_ok (es ! i) i (kvps ! j) (pcs ! j) (ks ! i) cv" by (elim writingE) auto
  from pc_ok_key [OF this] k assms(1,4) that show ?thesis by (auto simp: writers_def)
qed

end

text \<open>A step that changes at most the two cells of its own entry keeps the other threads' knowledge.\<close>

lemma writing_put:
  assumes "writers ok ident es kvps slot" "writing es kvps slot (pcs, sm)" "j < length kvps"
    "keys sm = Some ks" "vals sm = Some vs" "pc_ok (es ! (slot ! j)) (slot ! j) (kvps ! j) pc ck cv"
  shows "writing es kvps slot (pcs[j := pc], sm\<lparr>keys := Some (ks[slot ! j := ck]), vals := Some (vs[slot ! j := cv])\<rparr>)"
proof -
  have eq: "slot ! j = slot ! l \<longleftrightarrow> j = l" if "l < length kvps" for l
    using assms(1,3) that by (simp add: writers_def nth_eq_iff_index_eq)
  have "slot ! j \<in> set slot" "slot ! j < length es" using assms(1,3) by (auto simp: writers_def)
  with assms(2-6) eq show ?thesis
    by (elim writingE) (rule writingI [where ks = "ks[slot ! j := ck]" and vs = "vs[slot ! j := cv]"],
      auto simp: nth_list_update)
qed

lemma writing_pc:
  assumes "writers ok ident es kvps slot" "writing es kvps slot (pcs, sm)" "j < length kvps"
    "\<And>ck cv. pc_ok (es ! (slot ! j)) (slot ! j) (kvps ! j) (pcs ! j) ck cv \<Longrightarrow>
      pc_ok (es ! (slot ! j)) (slot ! j) (kvps ! j) pc ck cv"
  shows "writing es kvps slot (pcs[j := pc], sm)"
proof -
  obtain ks vs where kv: "keys sm = Some ks" "vals sm = Some vs"
    "pc_ok (es ! (slot ! j)) (slot ! j) (kvps ! j) (pcs ! j) (ks ! (slot ! j)) (vs ! (slot ! j))"
    by (rule writingE [OF assms(2)]) (use assms(3) in blast)
  have "sm\<lparr>keys := Some (ks[slot ! j := ks ! (slot ! j)]), vals := Some (vs[slot ! j := vs ! (slot ! j)])\<rparr> = sm"
    using kv(1,2) by simp
  with writing_put [OF assms(1-3) kv(1,2) assms(4) [OF kv(3)]] show ?thesis by simp
qed

context key_compare
begin

text \<open>Every step of every thread is defined, keeps the invariant and counts.\<close>

lemma writing_step:
  assumes W: "writers key_ok ident es kvps slot" and I: "writing es kvps slot (pcs, sm)" and j: "j < length kvps"
  shows "\<exists>pc sm'. par_step al cmp kvps j (pcs, sm) = Ret (pcs[j := pc], sm') \<and> writing es kvps slot (pcs[j := pc], sm') \<and>
    min (2 * slot ! j + 8) (Suc (pc_rank (slot ! j) (pcs ! j))) \<le> pc_rank (slot ! j) pc"
proof -
  let ?i = "slot ! j" and ?e = "es ! (slot ! j)" and ?kvp = "kvps ! j"
  from I obtain ks vs where r: "length pcs = length kvps" "top sm = int (length es) - 1" "keys sm = Some ks" "vals sm = Some vs"
    "length ks = nat (capacity sm)" "length vs = length ks" "length es \<le> length ks"
    and pc: "pc_ok ?e ?i ?kvp (pcs ! j) (ks ! ?i) (vs ! ?i)" by (elim writingE) (use j in auto)
  from W j obtain k where i: "?i < length es" and k: "kvp_key ?kvp = Some k" "key_ok k" "ident k = ident (fst ?e)"
    by (auto simp: writers_def)
  have i': "?i < length ks" "?i < length vs" using i r by auto
  note upd = writing_put [OF W I j r(3,4)] and same = writing_pc [OF W I j]
  have go: ?thesis if "set_step al cmp ?kvp (pcs ! j, sm) = Ret (pc, sm')" "writing es kvps slot (pcs[j := pc], sm')"
    "min (2 * ?i + 8) (Suc (pc_rank ?i (pcs ! j))) \<le> pc_rank ?i pc" for pc sm'
    using that j r(1) by (auto simp: par_step_def)
  show ?thesis
  proof (cases "pcs ! j")
    case S_enter
    then show ?thesis using k r(3) by (intro go [of "S_find 0" sm] same) auto
  next
    case (S_find p)
    then show ?thesis using pc r(2) i by (intro go [of "S_cell p" sm] same) auto
  next
    case (S_cell p)
    with pc have p: "0 \<le> p" "p \<le> int ?i" by simp_all
    then obtain q where q: "p = int q" "q \<le> ?i" "q < length es" using i by (metis nat_int nat_le_iff nonneg_int_cases le_less_trans)
    obtain k' where k': "ks ! q = Ptr (Some k')" "key_ok k'" "ident k' = ident (fst (es ! q))"
      by (rule writing_key [OF W I r(3) q(3)])
    have "ident (fst (es ! q)) = ident (fst ?e) \<longleftrightarrow> q = ?i"
      using W q(3) i by (auto simp: writers_def distinct_conv_nth)
    then have hit: "cmp (Some k') (Some k) = Ret (q = ?i)" using cmp_ident [OF k'(2) k(2)] k'(3) k(3) by simp
    show ?thesis
      by (rule go [of "if q = ?i then S_upgrade p else S_find (p + 1)" sm])
        (use S_cell k' hit k q r pc in \<open>auto intro!: same\<close>)
  next
    case (S_upgrade p)
    then show ?thesis using pc r(2-4) i k by (intro go [of "S_old_value p" sm] same) auto
  next
    case (S_old_value p)
    then show ?thesis using pc r(4) i' by (intro go [of "S_old_key p (snd ?e)" sm] same) (auto simp: member_at_def)
  next
    case (S_old_key p ov)
    then show ?thesis using pc r(3) i' by (intro go [of "S_new_value p ov (Some (fst ?e))" sm] same) (auto simp: member_at_def)
  next
    case (S_new_value p ov ok)
    let ?sm = "sm\<lparr>keys := Some (ks[?i := Ptr (Some (fst ?e))]), vals := Some (vs[?i := Ptr (kvp_value ?kvp)])\<rparr>"
    have "ks[?i := Ptr (Some (fst ?e))] = ks" using S_new_value pc list_update_id [of ks ?i] by simp
    then have sm: "?sm = sm\<lparr>vals := Some (vs[?i := Ptr (kvp_value ?kvp)])\<rparr>" using r(3) by (cases sm) simp
    have "set_step al cmp ?kvp (pcs ! j, sm) = Ret (S_new_key p ov ok, ?sm)"
      unfolding sm using S_new_value pc r(4) i' by (simp add: member_put_def)
    from go [OF this upd] S_new_value pc show ?thesis by simp
  next
    case (S_new_key p ov ok)
    let ?sm = "sm\<lparr>keys := Some (ks[?i := Ptr (kvp_key ?kvp)]), vals := Some (vs[?i := Ptr (kvp_value ?kvp)])\<rparr>"
    have "vs[?i := Ptr (kvp_value ?kvp)] = vs" using S_new_key pc list_update_id [of vs ?i] by simp
    then have sm: "?sm = sm\<lparr>keys := Some (ks[?i := Ptr (kvp_key ?kvp)])\<rparr>" using r(4) by (cases sm) simp
    have "set_step al cmp ?kvp (pcs ! j, sm) = Ret (S_done SUCESS_UPGRADE \<lparr>kvp_key = ok, kvp_value = ov\<rparr>, ?sm)"
      unfolding sm using S_new_key pc r(3) i' by (simp add: member_put_def)
    from go [OF this upd] S_new_key pc show ?thesis by simp
  next
    case (S_done rtn p)
    then show ?thesis by (intro go [of "S_done rtn p" sm] same) auto
  qed (use pc in auto)
qed

end

lemma pc_ok_done:
  assumes "pc_ok e i kvp pc ck cv" "2 * i + 8 \<le> pc_rank i pc"
  shows "pc = S_done SUCESS_UPGRADE \<lparr>kvp_key = Some (fst e), kvp_value = snd e\<rparr>"
  using assms by (cases pc) auto

text \<open>The entries when every thread is done.\<close>

definition overwritten :: "('k \<times> 'v option) list \<Rightarrow> ('k \<times> 'v option) list \<Rightarrow> nat list \<Rightarrow> ('k \<times> 'v option) list" where
  "overwritten es ws slot =
     map (\<lambda>i. case map_of (zip slot ws) i of None \<Rightarrow> es ! i | Some w \<Rightarrow> w) [0..<length es]"

definition put_pair :: "'k \<times> 'v option \<Rightarrow> ('k, 'v) KeyValuePair" where
  "put_pair w = \<lparr>kvp_key = Some (fst w), kvp_value = snd w\<rparr>"

lemma put_pair_simps [simp]: "kvp_key (put_pair w) = Some (fst w)" "kvp_value (put_pair w) = snd w"
  by (simp_all add: put_pair_def)

lemma overwritten_nth:
  assumes "distinct slot" "length slot = length ws"
  shows "i < length es \<Longrightarrow> i \<notin> set slot \<Longrightarrow> overwritten es ws slot ! i = es ! i"
    "j < length ws \<Longrightarrow> slot ! j < length es \<Longrightarrow> overwritten es ws slot ! (slot ! j) = ws ! j"
proof -
  assume i: "i < length es" "i \<notin> set slot"
  then have "map_of (zip slot ws) i = None" using assms(2) by simp
  with i(1) show "overwritten es ws slot ! i = es ! i" by (simp add: overwritten_def)
next
  assume j: "j < length ws" "slot ! j < length es"
  have "map_of (zip slot ws) (slot ! j) = Some (ws ! j)"
    using j(1) assms by (simp add: map_of_zip_nth)
  with j show "overwritten es ws slot ! (slot ! j) = ws ! j" by (simp add: overwritten_def)
qed

lemma entries_map_Some_iff:
  "distinct (map (\<lambda>e. ident (fst e)) es) \<Longrightarrow>
    entries_map ident es x = Some e \<longleftrightarrow> e \<in> set es \<and> ident (fst e) = x"
  unfolding entries_map_def by (subst map_of_eq_Some_iff) (auto simp: o_def)

lemma entries_map_None_iff: "entries_map ident es x = None \<longleftrightarrow> (\<forall>e\<in>set es. ident (fst e) \<noteq> x)"
  by (force simp: entries_map_def map_of_eq_None_iff image_iff)

lemma overwritten_length [simp]: "length (overwritten es ws slot) = length es"
  by (simp add: overwritten_def)

lemma overwritten_idents:
  assumes "writers ok ident es (map put_pair ws) slot"
  shows "map (\<lambda>e. ident (fst e)) (overwritten es ws slot) = map (\<lambda>e. ident (fst e)) es"
proof (rule nth_equalityI)
  fix i assume "i < length (map (\<lambda>e. ident (fst e)) (overwritten es ws slot))"
  then have i: "i < length es" by simp
  have s: "distinct slot" "length slot = length ws" using assms by (simp_all add: writers_def)
  have "ident (fst (overwritten es ws slot ! i)) = ident (fst (es ! i))"
  proof (cases "i \<in> set slot")
    case True
    then obtain j where "j < length ws" "slot ! j = i" using s(2) by (auto simp: in_set_conv_nth)
    with i overwritten_nth(2) [OF s, of j es] assms show ?thesis by (auto simp: writers_def)
  qed (use i overwritten_nth(1) [OF s] in simp)
  with i show "map (\<lambda>e. ident (fst e)) (overwritten es ws slot) ! i = map (\<lambda>e. ident (fst e)) es ! i" by simp
qed simp

lemma overwritten_map:
  assumes W: "writers ok ident es (map put_pair ws) slot"
  shows "entries_map ident (overwritten es ws slot) = entries_map ident es ++ entries_map ident ws"
proof -
  have s: "distinct slot" "length slot = length ws" and d: "distinct (map (\<lambda>e. ident (fst e)) es)"
    and at: "\<And>j. j < length ws \<Longrightarrow> slot ! j < length es \<and> ident (fst (ws ! j)) = ident (fst (es ! (slot ! j)))"
    using W by (auto simp: writers_def)
  have inj: "i = l" if "i < length es" "l < length es" "ident (fst (es ! i)) = ident (fst (es ! l))" for i l
    using d that by (auto simp: distinct_conv_nth)
  have "distinct (map (\<lambda>e. ident (fst e)) ws)"
    using s at inj by (auto simp: distinct_conv_nth) (metis nth_eq_iff_index_eq s(1))
  note some = entries_map_Some_iff [OF this] entries_map_Some_iff [OF d]
    entries_map_Some_iff [of ident "overwritten es ws slot", unfolded overwritten_idents [OF W], OF d]
  have "entries_map ident (overwritten es ws slot) x = Some e \<longleftrightarrow>
      (entries_map ident es ++ entries_map ident ws) x = Some e" for x e
  proof
    assume "entries_map ident (overwritten es ws slot) x = Some e"
    then obtain i where i: "i < length es" "e = overwritten es ws slot ! i" "ident (fst e) = x"
      by (auto simp: some in_set_conv_nth)
    show "(entries_map ident es ++ entries_map ident ws) x = Some e"
    proof (cases "i \<in> set slot")
      case True
      then obtain j where "j < length ws" "slot ! j = i" using s(2) by (auto simp: in_set_conv_nth)
      with i overwritten_nth(2) [OF s, of j es] show ?thesis by (auto simp: map_add_Some_iff some)
    next
      case False
      with i overwritten_nth(1) [OF s] have e: "e = es ! i" by simp
      have "ident (fst w) \<noteq> x" if "w \<in> set ws" for w
      proof
        assume "ident (fst w) = x"
        with that obtain j where j: "j < length ws" "ident (fst (ws ! j)) = x" by (auto simp: in_set_conv_nth)
        with at [of j] inj [of i "slot ! j"] i e have "i = slot ! j" by simp
        with j(1) s(2) False show False by auto
      qed
      then have "entries_map ident ws x = None" by (simp add: entries_map_None_iff)
      have "e \<in> set es" unfolding e using i(1) by (rule nth_mem)
      with \<open>entries_map ident ws x = None\<close> i(3) show ?thesis by (simp add: map_add_Some_iff some)
    qed
  next
    assume "(entries_map ident es ++ entries_map ident ws) x = Some e"
    then consider "entries_map ident ws x = Some e" | "entries_map ident ws x = None" "entries_map ident es x = Some e"
      by (auto simp: map_add_Some_iff)
    then show "entries_map ident (overwritten es ws slot) x = Some e"
    proof cases
      case 1
      then obtain j where "j < length ws" "e = ws ! j" "ident (fst e) = x" by (auto simp: some in_set_conv_nth)
      with at [of j] overwritten_nth(2) [OF s, of j es] show ?thesis
        by (auto simp: some in_set_conv_nth intro!: exI [of _ "slot ! j"])
    next
      case 2
      then obtain i where i: "i < length es" "e = es ! i" "ident (fst e) = x" by (auto simp: some in_set_conv_nth)
      have "i \<notin> set slot"
      proof
        assume "i \<in> set slot"
        then obtain j where "j < length ws" "slot ! j = i" using s(2) by (auto simp: in_set_conv_nth)
        with at [of j] i 2(1) show False by (auto simp: entries_map_None_iff)
      qed
      with i overwritten_nth(1) [OF s] show ?thesis by (auto simp: some in_set_conv_nth intro!: exI [of _ i])
    qed
  qed
  then show ?thesis by (metis ext not_Some_eq)
qed

context key_compare
begin

lemma writing_run:
  assumes "writers key_ok ident es kvps slot" "writing es kvps slot (pcs, sm)"
  shows "\<exists>pcs' sm'. par_run al cmp kvps js (pcs, sm) = Ret (pcs', sm') \<and> writing es kvps slot (pcs', sm') \<and>
    (\<forall>l<length kvps. min (2 * slot ! l + 8) (pc_rank (slot ! l) (pcs ! l) + count_list js l) \<le> pc_rank (slot ! l) (pcs' ! l))"
  using assms(2)
proof (induction js arbitrary: pcs sm)
  case (Cons j js)
  have len: "length pcs = length kvps" using Cons.prems by (elim writingE)
  show ?case
  proof (cases "j < length kvps")
    case False
    with Cons.IH [OF Cons.prems] len show ?thesis by (auto simp: par_step_def)
  next
    case True
    from writing_step [OF assms(1) Cons.prems True, of al] obtain pc sm1 where
      s: "par_step al cmp kvps j (pcs, sm) = Ret (pcs[j := pc], sm1)" "writing es kvps slot (pcs[j := pc], sm1)"
      "min (2 * slot ! j + 8) (Suc (pc_rank (slot ! j) (pcs ! j))) \<le> pc_rank (slot ! j) pc" by blast
    from Cons.IH [OF s(2)] obtain pcs' sm' where r: "par_run al cmp kvps js (pcs[j := pc], sm1) = Ret (pcs', sm')"
      "writing es kvps slot (pcs', sm')"
      "\<forall>l<length kvps. min (2 * slot ! l + 8) (pc_rank (slot ! l) (pcs[j := pc] ! l) + count_list js l) \<le> pc_rank (slot ! l) (pcs' ! l)"
      by blast
    have "min (2 * slot ! l + 8) (pc_rank (slot ! l) (pcs ! l) + count_list (j # js) l) \<le> pc_rank (slot ! l) (pcs' ! l)"
      if "l < length kvps" for l
      using r(3) [rule_format, OF that] s(3) that len by (cases "l = j") auto
    with s(1) r(1,2) show ?thesis by auto
  qed
qed simp

text \<open>Every interleaving in which each thread runs long enough is a sequence of \<open>SUCESS_UPGRADE\<close> calls.\<close>

lemma overwrites:
  assumes "sm_map key_ok ident sm m" "\<forall>w\<in>set ws. key_ok (fst w) \<and> m (ident (fst w)) \<noteq> None"
    "distinct (map (\<lambda>w. ident (fst w)) ws)" "\<forall>j<length ws. 2 * card (dom m) + 6 \<le> count_list js j"
  shows "\<exists>sm'. par_run al cmp (map put_pair ws) js (replicate (length ws) S_enter, sm) =
      Ret (map (\<lambda>w. S_done SUCESS_UPGRADE (put_pair (the (m (ident (fst w)))))) ws, sm') \<and>
    sm_map key_ok ident sm' (m ++ entries_map ident ws)"
proof -
  obtain es where es: "sm_rep sm es" "\<forall>e\<in>set es. key_ok (fst e)" "distinct (map (\<lambda>e. ident (fst e)) es)" "m = entries_map ident es"
    by (rule sm_mapE [OF assms(1)], rule that)
  define slot where "slot = map (\<lambda>w. the (find_idx (\<lambda>e. ident (fst e) = ident (fst w)) es)) ws"
  have at: "slot ! j < length es \<and> ident (fst (es ! (slot ! j))) = ident (fst (ws ! j))" if "j < length ws" for j
  proof -
    have "m (ident (fst (ws ! j))) \<noteq> None" using assms(2) that by simp
    then obtain i where i: "find_idx (\<lambda>e. ident (fst e) = ident (fst (ws ! j))) es = Some i"
      using entries_map_find_None es(4) by fastforce
    with find_idx_SomeD [OF i] that show ?thesis by (simp add: slot_def)
  qed
  have len: "length slot = length ws" by (simp add: slot_def)
  have dist: "distinct slot"
    unfolding distinct_conv_nth len using assms(3) at by (metis (mono_tags, lifting) distinct_conv_nth length_map nth_map)
  have W: "writers key_ok ident es (map put_pair ws) slot"
    using es(2,3) at assms(2) dist len by (auto simp: writers_def)
  let ?pcs = "replicate (length ws) S_enter"
  have "writing es (map put_pair ws) slot (?pcs, sm)"
  proof (rule sm_rep_cells [OF es(1)])
    fix ks vs
    assume c: "keys sm = Some ks" "vals sm = Some vs" "length ks = nat (capacity sm)" "length vs = length ks"
      "length es \<le> length ks" "\<And>i. i < length es \<Longrightarrow> ks ! i = Ptr (Some (fst (es ! i)))"
      "\<And>i. i < length es \<Longrightarrow> vs ! i = Ptr (snd (es ! i))"
    then show ?thesis using sm_rep_top [OF es(1)] sm_rep_capacity [OF es(1)] at
      by (intro writingI [OF _ _ _ c(1-5)]) auto
  qed
  from writing_run [OF W this, of al js] obtain pcs' sm' where
    run: "par_run al cmp (map put_pair ws) js (?pcs, sm) = Ret (pcs', sm')" "writing es (map put_pair ws) slot (pcs', sm')"
    and rank: "\<And>l. l < length ws \<Longrightarrow> min (2 * slot ! l + 8) (count_list js l) \<le> pc_rank (slot ! l) (pcs' ! l)" by auto
  obtain ks vs where c: "length pcs' = length ws" "top sm' = int (length es) - 1" "0 < capacity sm'"
    "keys sm' = Some ks" "vals sm' = Some vs" "length ks = nat (capacity sm')" "length vs = length ks" "length es \<le> length ks"
    and other: "\<And>i. i < length es \<Longrightarrow> i \<notin> set slot \<Longrightarrow> ks ! i = Ptr (Some (fst (es ! i))) \<and> vs ! i = Ptr (snd (es ! i))"
    and pc: "\<And>j. j < length ws \<Longrightarrow> pc_ok (es ! (slot ! j)) (slot ! j) (put_pair (ws ! j)) (pcs' ! j) (ks ! (slot ! j)) (vs ! (slot ! j))"
    using run(2) by (elim writingE) auto
  have "card (dom m) = length es" using card_dom_entries [OF es(3)] es(4) by simp
  then have last: "pcs' ! j = S_done SUCESS_UPGRADE (put_pair (es ! (slot ! j)))" if "j < length ws" for j
    using pc_ok_done [OF pc [OF that]] rank [OF that] at [OF that] assms(4) that by (auto simp: put_pair_def)
  have old: "m (ident (fst (ws ! j))) = Some (es ! (slot ! j))" if "j < length ws" for j
    using at [OF that] by (simp add: es(4) entries_map_Some_iff [OF es(3)])
  have "pcs' = map (\<lambda>w. S_done SUCESS_UPGRADE (put_pair (the (m (ident (fst w)))))) ws"
    using c(1) last old by (intro nth_equalityI) simp_all
  moreover have cells: "ks ! i = Ptr (Some (fst (overwritten es ws slot ! i))) \<and> vs ! i = Ptr (snd (overwritten es ws slot ! i)) \<and>
      key_ok (fst (overwritten es ws slot ! i))" if "i < length es" for i
  proof (cases "i \<in> set slot")
    case True
    then obtain j where j: "j < length ws" "slot ! j = i" using len by (auto simp: in_set_conv_nth)
    with pc [OF j(1)] last [OF j(1)] overwritten_nth(2) [OF dist len j(1), of es] that assms(2) show ?thesis by auto
  next
    case False
    with other [OF that False] overwritten_nth(1) [OF dist len that] es(2) that show ?thesis by auto
  qed
  then have "sm_rep sm' (overwritten es ws slot)"
    using c by (intro sm_repI [OF c(4-7)]) auto
  moreover have "\<forall>e\<in>set (overwritten es ws slot). key_ok (fst e)"
    using cells by (metis in_set_conv_nth overwritten_length)
  ultimately show ?thesis
    using run(1) overwritten_idents [OF W] es(3) overwritten_map [OF W] es(4)
    by (auto simp: sm_map_def intro!: exI [of _ "overwritten es ws slot"])
qed

end

section \<open>Schedules\<close>

definition par_reaches :: "alloc \<Rightarrow> 'k cmp_fptr \<Rightarrow> ('k, 'v) KeyValuePair list \<Rightarrow> ('k, 'v) threads \<Rightarrow>
    ('k, 'v) threads outcome \<Rightarrow> bool" where
  "par_reaches al cmp kvps st r \<longleftrightarrow> (\<exists>js. par_run al cmp kvps js st = r)"

lemma par_refl: "r = Ret st \<Longrightarrow> par_reaches al cmp kvps st r"
  unfolding par_reaches_def by (rule exI [of _ "[]"]) simp

lemma par_next: "par_step al cmp kvps j st = Ret st' \<Longrightarrow> par_reaches al cmp kvps st' r \<Longrightarrow> par_reaches al cmp kvps st r"
  unfolding par_reaches_def by (elim exE, rule_tac x = "j # js" in exI) simp

lemma par_stuck: "par_step al cmp kvps j st = UB \<Longrightarrow> par_reaches al cmp kvps st UB"
  unfolding par_reaches_def by (rule exI [of _ "[j]"]) simp

lemma par_steps:
  "set_steps al cmp (kvps ! j) n (pcs ! j, sm) = Ret (pc, sm') \<Longrightarrow> j < length pcs \<Longrightarrow> j < length kvps \<Longrightarrow>
    par_reaches al cmp kvps (pcs[j := pc], sm') r \<Longrightarrow> par_reaches al cmp kvps (pcs, sm) r"
proof (induction n arbitrary: pcs sm)
  case (Suc n)
  from Suc.prems(1) obtain pc1 sm1 where s: "set_step al cmp (kvps ! j) (pcs ! j, sm) = Ret (pc1, sm1)"
    "set_steps al cmp (kvps ! j) n (pc1, sm1) = Ret (pc, sm')" by (auto simp: obind_Ret_iff)
  from s(1) Suc.prems(2,3) have "par_step al cmp kvps j (pcs, sm) = Ret (pcs[j := pc1], sm1)" by (simp add: par_step_def)
  moreover have "par_reaches al cmp kvps (pcs[j := pc1], sm1) r"
    by (rule Suc.IH) (use s(2) Suc.prems in simp_all)
  ultimately show ?case by (rule par_next)
next
  case 0
  then show ?case by simp (metis list_update_id)
qed

lemma par_runs:
  assumes "runs_to al cmp (kvps ! j) (pcs ! j, sm) (Ret (pc, sm'))" "j < length pcs" "j < length kvps"
    "par_reaches al cmp kvps (pcs[j := pc], sm') r"
  shows "par_reaches al cmp kvps (pcs, sm) r"
  using assms par_steps unfolding runs_to_def by blast

context key_compare
begin

text \<open>The search of a thread that nobody disturbs.\<close>

lemma runs_lookup:
  assumes "sm_rep sm es" "\<forall>e\<in>set es. key_ok (fst e)" "key_ok k" "kvp_key kvp = Some k"
  shows "runs_to al cmp kvp (S_enter, sm)
    (Ret (case find_idx (\<lambda>e. ident (fst e) = ident k) es of None \<Rightarrow> S_check | Some i \<Rightarrow> S_upgrade (int i), sm))"
proof -
  let ?G = "\<lambda>p. Ret (if p = KEY_NOT_FOUND then S_check else if p = KEY_ARR_ERROR then S_done ERROR_SET_SM_RTN kvp
      else S_upgrade p, sm)"
  obtain ks where ks: "keys sm = Some ks" using assms(1) by (auto simp: sm_rep_def)
  have "runs_to al cmp kvp (S_find 0, sm) (obind (find_loop (top sm) ks (kvp_key kvp) cmp 0) ?G)"
    by (rule runs_find [OF ks]) (simp_all add: find_codes)
  moreover have "find_loop (top sm) ks (Some k) cmp 0 =
      Ret (case find_idx (\<lambda>e. ident (fst e) = ident k) es of None \<Rightarrow> KEY_NOT_FOUND | Some j \<Rightarrow> int j)"
    using find_key_rep [where P = "\<lambda>e. ident (fst e) = ident k" and cmp = cmp and k = k, OF assms(1) cmp_left [OF assms(2,3)]] ks
    by (simp add: find_key_def)
  ultimately have "runs_to al cmp kvp (S_find 0, sm)
    (Ret (case find_idx (\<lambda>e. ident (fst e) = ident k) es of None \<Rightarrow> S_check | Some i \<Rightarrow> S_upgrade (int i), sm))"
    using assms(4) by (cases "find_idx (\<lambda>e. ident (fst e) = ident k) es") (simp_all add: find_codes)
  then show ?thesis by (rule_tac runs_step) (use assms(4) ks in auto)
qed

end

text \<open>The last statements of two insertions whose increments of \<^verbatim>\<open>top\<close> overlap: both write the same cell.\<close>

lemma overlapping_pushes:
  assumes "push_entry sm p2 = Ret sm'"
  shows "par_reaches al cmp [p1, p2] ([S_top, S_top], sm) (Ret ([S_done SUCESS_SET p1, S_done SUCESS_SET p2], sm'))"
proof -
  let ?t = "top sm + 1"
  from assms obtain ks vs ks2 vs2 where kv: "keys sm = Some ks" "vals sm = Some vs"
    and put: "cell_put ks ?t (Ptr (kvp_key p2)) = Ret ks2" "cell_put vs ?t (Ptr (kvp_value p2)) = Ret vs2"
      "sm' = sm\<lparr>keys := Some ks2, vals := Some vs2, top := ?t\<rparr>"
    by (auto simp: push_entry_def obind_Ret_iff split: option.splits)
  then have t: "0 \<le> ?t" "?t < int (length ks)" "?t < int (length vs)"
    by (auto simp: cell_put_def split: if_splits)
  let ?k = "\<lambda>p. Ptr (kvp_key p)" and ?v = "\<lambda>p. Ptr (kvp_value p)"
  let ?sm1 = "sm\<lparr>top := ?t\<rparr>" and ?i = "nat ?t"
  let ?sm2 = "?sm1\<lparr>keys := Some (ks[?i := ?k p1]), vals := Some (vs[?i := ?v p1])\<rparr>"
  have "par_reaches al cmp [p1, p2] ([S_top, S_top], sm) r" if "par_reaches al cmp [p1, p2] ([S_key, S_key], ?sm1) r" for r
    using that
    by - (rule par_next [of _ _ _ 0], simp add: par_step_def, rule par_next [of _ _ _ 1], simp add: par_step_def,
      rule par_next [of _ _ _ 0], simp add: par_step_def, rule par_next [of _ _ _ 1], simp add: par_step_def, simp)
  moreover have "par_reaches al cmp [p1, p2] ([S_key, S_key], ?sm1) r"
    if "par_reaches al cmp [p1, p2] ([S_done SUCESS_SET p1, S_key], ?sm2) r" for r
    using that kv t
    by - (rule par_next [of _ _ _ 0], simp add: par_step_def cell_put_def,
      rule par_next [of _ _ _ 0], simp add: par_step_def cell_put_def, simp)
  moreover have "par_reaches al cmp [p1, p2] ([S_done SUCESS_SET p1, S_key], ?sm2) (Ret ([S_done SUCESS_SET p1, S_done SUCESS_SET p2], sm'))"
    using kv t put
    by - (rule par_next [of _ _ _ 1], simp add: par_step_def cell_put_def,
      rule par_next [of _ _ _ 1], simp add: par_step_def cell_put_def,
      rule par_refl, auto simp: cell_put_def split: if_splits)
  ultimately show ?thesis by blast
qed

text \<open>Two threads that search undisturbed.\<close>

lemma two_lookups:
  assumes "sm_rep sm es" "\<forall>e\<in>set es. key_ok (fst e)" "key_ok k1" "key_ok k2"
    "par_reaches al compare [pair k1 v1, pair k2 v2]
       ([case find_idx (\<lambda>e. key_bytes (fst e) = key_bytes k1) es of None \<Rightarrow> S_check | Some i \<Rightarrow> S_upgrade (int i),
         case find_idx (\<lambda>e. key_bytes (fst e) = key_bytes k2) es of None \<Rightarrow> S_check | Some i \<Rightarrow> S_upgrade (int i)], sm) r"
  shows "par_reaches al compare [pair k1 v1, pair k2 v2] ([S_enter, S_enter], sm) r"
  by (rule par_runs [where j = 0], simp, rule data.runs_lookup [OF assms(1,2,3)], simp_all,
    rule par_runs [where j = 1], simp, rule data.runs_lookup [OF assms(1,2,4)], simp_all add: assms(5))

lemma db_entriesE:
  assumes "db_rep sm d"
  obtains es where "sm_rep sm es" "\<forall>e\<in>set es. key_ok (fst e)" "card (dom d) = length es"
    "\<And>k. d (key_bytes k) = None \<Longrightarrow> find_idx (\<lambda>e. key_bytes (fst e) = key_bytes k) es = None"
    "\<And>k e. d (key_bytes k) = Some e \<Longrightarrow> \<exists>i k' w. find_idx (\<lambda>e. key_bytes (fst e) = key_bytes k) es = Some i \<and>
       i < length es \<and> es ! i = (k', Some w) \<and> e = entry_of (k', Some w)"
proof -
  from assms obtain m where m: "data_rep sm m" "values_ok m" "d = (\<lambda>x. map_option entry_of (m x))" by (rule db_repE)
  from m(1) obtain es where es: "sm_rep sm es" "\<forall>e\<in>set es. key_ok (fst e)"
    "distinct (map (\<lambda>e. key_bytes (fst e)) es)" "m = entries_map key_bytes es" by (rule sm_mapE)
  have "dom d = dom m" using m(3) by auto
  then have "card (dom d) = length es" using card_dom_entries [OF es(3)] es(4) by simp
  moreover have "find_idx (\<lambda>e. key_bytes (fst e) = key_bytes k) es = None" if "d (key_bytes k) = None" for k
    using that m(3) es(4) entries_map_find_Some [OF es(3), of "key_bytes k"]
    by (cases "find_idx (\<lambda>e. key_bytes (fst e) = key_bytes k) es") auto
  moreover have "\<exists>i k' w. find_idx (\<lambda>e. key_bytes (fst e) = key_bytes k) es = Some i \<and> i < length es \<and>
      es ! i = (k', Some w) \<and> e = entry_of (k', Some w)" if d: "d (key_bytes k) = Some e" for k e
  proof -
    from d m(3) obtain k' v where kv: "m (key_bytes k) = Some (k', v)" "e = entry_of (k', v)" by auto
    obtain w where w: "v = Some w" by (rule values_okE [OF m(2) kv(1)])
    obtain i where i: "find_idx (\<lambda>e. key_bytes (fst e) = key_bytes k) es = Some i"
      using entries_map_find_None [of key_bytes "key_bytes k" es] kv(1) es(4) by fastforce
    with entries_map_find_Some [OF es(3) i] kv w es(4) find_idx_SomeD [OF i] show ?thesis by auto
  qed
  ultimately show ?thesis using that es(1,2) by blast
qed

section \<open>Properties\<close>

text \<open>C21. Run without interference, the statements of \<^verbatim>\<open>set\<close> compute \<open>sm_set\<close>: on every map whose arrays
  are not freed, with every comparison callback and every behaviour of the allocator, some number of
  statements leads to exactly its return code, map and pair, or to undefined behaviour when it has it.\<close>

theorem set_steps_sm_set:
  assumes "keys sm \<noteq> Some []" "vals sm \<noteq> Some []"
  shows "\<exists>n. set_steps al cmp kvp n (S_enter, sm) = obind (sm_set al (Some sm) (Some kvp) (Some cmp)) set_result"
  using set_alone [of sm al cmp kvp] assms by (simp add: not_freed_def runs_to_def)

theorem set_steps_sm_set_witness:
  "\<exists>n. set_steps alloc_ok compare (pair demo_key demo_value) n (S_enter, create_simple_map) =
     Ret (S_done SUCESS_SET (pair demo_key demo_value),
          \<lparr>keys = Some [Ptr (Some demo_key)], vals = Some [Ptr (Some demo_value)], capacity = 1, top = 0\<rparr>)"
proof -
  have "obind (sm_set alloc_ok (Some create_simple_map) (Some (pair demo_key demo_value)) (Some compare)) set_result =
     Ret (S_done SUCESS_SET (pair demo_key demo_value),
          \<lparr>keys = Some [Ptr (Some demo_key)], vals = Some [Ptr (Some demo_value)], capacity = 1, top = 0\<rparr>)"
    by code_simp
  then show ?thesis
    using set_steps_sm_set [of create_simple_map alloc_ok compare "pair demo_key demo_value"]
    by (simp add: create_simple_map_def)
qed

text \<open>C15. Concurrent overwrites are safe: any number of threads that set different present keys, in any
  interleaving in which each runs at least as many statements as it needs, all return
  \<open>SUCESS_UPGRADE\<close> with exactly their own old pair, and the map then holds all their new entries and
  every other entry unchanged. This is about \<^verbatim>\<open>set\<close> alone: what happens when a caller then frees its old
  pair while another search still runs is shown in \<open>Node_Race\<close>.\<close>

theorem concurrent_overwrites:
  assumes "db_rep sm d" "\<forall>w\<in>set ws. key_ok (fst w) \<and> value_ok (snd w) \<and> d (key_bytes (fst w)) \<noteq> None"
    "distinct (map (\<lambda>w. key_bytes (fst w)) ws)" "\<forall>j<length ws. 2 * card (dom d) + 6 \<le> count_list js j"
  shows "\<exists>olds sm'. par_run al compare (map (\<lambda>w. pair (fst w) (snd w)) ws) js (replicate (length ws) S_enter, sm) =
      Ret (map (\<lambda>old. S_done SUCESS_UPGRADE (pair (fst old) (snd old))) olds, sm') \<and>
    length olds = length ws \<and>
    (\<forall>j<length ws. d (key_bytes (fst (ws ! j))) = Some (entry_of (fst (olds ! j), Some (snd (olds ! j))))) \<and>
    db_rep sm' (d ++ map_of (map (\<lambda>w. (key_bytes (fst w), entry_of (fst w, Some (snd w)))) ws))"
proof -
  obtain m where m: "data_rep sm m" "values_ok m" "d = (\<lambda>x. map_option entry_of (m x))" using assms(1) by (rule db_repE)
  let ?ws = "map (\<lambda>w. (fst w, Some (snd w))) ws"
  have dom: "dom d = dom m" using m(3) by auto
  have ok: "\<And>k v. (k, v) \<in> set ws \<Longrightarrow> key_ok k \<and> value_ok v" using assms(2) by fastforce
  have old: "\<exists>k v. m (key_bytes (fst w)) = Some (k, Some v)" if "w \<in> set ws" for w
  proof -
    from assms(2) that m(3) obtain k v where kv: "m (key_bytes (fst w)) = Some (k, v)" by fastforce
    then show ?thesis by (rule values_okE [OF m(2)]) (use kv in auto)
  qed
  obtain sm' where run: "par_run al compare (map put_pair ?ws) js (replicate (length ?ws) S_enter, sm) =
      Ret (map (\<lambda>w. S_done SUCESS_UPGRADE (put_pair (the (m (key_bytes (fst w)))))) ?ws, sm')"
    "data_rep sm' (m ++ entries_map key_bytes ?ws)"
    using data.overwrites [OF m(1), of ?ws js al] assms(2-4) m(3) dom by (auto simp: o_def)
  let ?olds = "map (\<lambda>w. let e = the (m (key_bytes (fst w))) in (fst e, the (snd e))) ws"
  have ps: "map put_pair ?ws = map (\<lambda>w. pair (fst w) (snd w)) ws" by (simp add: put_pair_def)
  have dn: "map (\<lambda>w. S_done SUCESS_UPGRADE (put_pair (the (m (key_bytes (fst w)))))) ?ws =
      map (\<lambda>old. S_done SUCESS_UPGRADE (pair (fst old) (snd old))) ?olds"
    using old by (force simp: put_pair_def Let_def)
  have "par_run al compare (map (\<lambda>w. pair (fst w) (snd w)) ws) js (replicate (length ws) S_enter, sm) =
      Ret (map (\<lambda>old. S_done SUCESS_UPGRADE (pair (fst old) (snd old))) ?olds, sm')"
    using run(1) unfolding ps dn length_map .
  moreover have "d (key_bytes (fst (ws ! j))) = Some (entry_of (fst (?olds ! j), Some (snd (?olds ! j))))"
    if "j < length ws" for j
    using old [of "ws ! j"] that m(3) by (auto simp: Let_def)
  moreover have "values_ok (m ++ entries_map key_bytes ?ws)"
    using m(2) ok unfolding values_ok_def
    by (auto simp: map_add_Some_iff entries_map_def dest!: map_of_SomeD)
  moreover have "d ++ map_of (map (\<lambda>w. (key_bytes (fst w), entry_of (fst w, Some (snd w)))) ws) =
      (\<lambda>x. map_option entry_of ((m ++ entries_map key_bytes ?ws) x))"
  proof
    fix x
    have "map_of (map (\<lambda>w. (key_bytes (fst w), entry_of (fst w, Some (snd w)))) ws) x =
        map_option entry_of (entries_map key_bytes ?ws x)"
      by (induction ws) (auto simp: entries_map_def)
    then show "(d ++ map_of (map (\<lambda>w. (key_bytes (fst w), entry_of (fst w, Some (snd w)))) ws)) x =
        map_option entry_of ((m ++ entries_map key_bytes ?ws) x)"
      by (auto simp: map_add_def m(3) split: option.splits)
  qed
  ultimately show ?thesis using run(2)
    by (intro exI [of _ ?olds] exI [of _ sm'] conjI) (auto simp: db_rep_def simp del: map_map)
qed

definition other_key :: KeyNode where
  "other_key = made_key (Timespec 5 0) ''j''"

definition demo_map2 :: data_map where
  "demo_map2 = \<lparr>keys = Some [Ptr (Some demo_key), Ptr (Some other_key)],
     vals = Some [Ptr (Some demo_value), Ptr (Some demo_value)], capacity = 2, top = 1\<rparr>"

lemma other_ok: "key_ok other_key" "key_bytes other_key = ''j''"
  by (simp_all add: other_key_def)

lemma demo_db2:
  "db_rep demo_map2 [''k'' \<mapsto> entry_of (demo_key, Some demo_value), ''j'' \<mapsto> entry_of (other_key, Some demo_value)]"
proof -
  let ?es = "[(demo_key, Some demo_value), (other_key, Some demo_value)]"
  let ?m = "[''k'' \<mapsto> (demo_key, Some demo_value), ''j'' \<mapsto> (other_key, Some demo_value)]"
  have "sm_rep demo_map2 ?es" by (simp add: sm_rep_def demo_map2_def)
  moreover have "entries_map key_bytes ?es = ?m" by (auto simp: entries_map_def demo_ok other_ok)
  ultimately have "data_rep demo_map2 ?m"
    unfolding sm_map_def by (intro exI [of _ ?es]) (auto simp: demo_ok other_ok)
  moreover have "values_ok ?m" by (auto simp: values_ok_def demo_ok other_ok split: if_splits)
  ultimately show ?thesis unfolding db_rep_def by (intro exI [of _ ?m]) auto
qed

theorem concurrent_overwrites_witness:
  "\<exists>olds sm'. par_run alloc_ok compare [pair (made_key (Timespec 7 0) ''j'') (made_value ''x''), pair (made_key (Timespec 7 0) ''k'') (made_value ''y'')]
        (concat (replicate 10 [0, 1])) ([S_enter, S_enter], demo_map2) =
      Ret (map (\<lambda>old. S_done SUCESS_UPGRADE (pair (fst old) (snd old))) olds, sm') \<and> length olds = 2 \<and>
    db_rep sm' ([''k'' \<mapsto> entry_of (demo_key, Some demo_value), ''j'' \<mapsto> entry_of (other_key, Some demo_value)] ++
      [''j'' \<mapsto> new_entry (Timespec 7 0) ''x'' 0 0, ''k'' \<mapsto> new_entry (Timespec 7 0) ''y'' 0 0])"
proof -
  let ?ws = "[(made_key (Timespec 7 0) ''j'', made_value ''x''), (made_key (Timespec 7 0) ''k'', made_value ''y'')]"
  let ?d = "[''k'' \<mapsto> entry_of (demo_key, Some demo_value), ''j'' \<mapsto> entry_of (other_key, Some demo_value)]"
  have "card (dom ?d) = 2" by simp
  then have count: "\<forall>j<length ?ws. 2 * card (dom ?d) + 6 \<le> count_list (concat (replicate 10 [0, 1])) j"
    by (auto simp: numeral_eq_Suc less_Suc_eq)
  have ok: "\<forall>w\<in>set ?ws. key_ok (fst w) \<and> value_ok (snd w) \<and> ?d (key_bytes (fst w)) \<noteq> None" by (simp add: PROTO_MAX_BULK_SIZE_def)
  have "distinct (map (\<lambda>w. key_bytes (fst w)) ?ws)" by simp
  from concurrent_overwrites [OF demo_db2 ok this count, of alloc_ok] obtain olds sm' where
    "par_run alloc_ok compare (map (\<lambda>w. pair (fst w) (snd w)) ?ws) (concat (replicate 10 [0, 1])) (replicate (length ?ws) S_enter, demo_map2) =
      Ret (map (\<lambda>old. S_done SUCESS_UPGRADE (pair (fst old) (snd old))) olds, sm')" "length olds = length ?ws"
    "db_rep sm' (?d ++ map_of (map (\<lambda>w. (key_bytes (fst w), entry_of (fst w, Some (snd w)))) ?ws))" by blast
  then show ?thesis
    by (intro exI [of _ olds] exI [of _ sm']) (simp add: made_entry numeral_2_eq_2 fun_upd_twist del: par_run.simps)
qed

text \<open>C16. Two concurrent insertions can lose one: on every map with a free cell, and for every two absent
  keys, there is an interleaving after which both calls have returned \<open>SUCESS_SET\<close>, but the map holds
  only the second key.\<close>

theorem insert_race_loses_key:
  assumes "db_rep sm d" "key_ok k1" "key_ok k2" "value_ok v2" "d (key_bytes k1) = None" "d (key_bytes k2) = None"
    "int (card (dom d)) < capacity sm" "room al sm"
  shows "\<exists>js sm'. par_run al compare [pair k1 v1, pair k2 v2] js ([S_enter, S_enter], sm) =
      Ret ([S_done SUCESS_SET (pair k1 v1), S_done SUCESS_SET (pair k2 v2)], sm') \<and>
    db_rep sm' (d(key_bytes k2 \<mapsto> entry_of (k2, Some v2)))"
proof -
  obtain es where es: "sm_rep sm es" "\<forall>e\<in>set es. key_ok (fst e)" "card (dom d) = length es"
    "\<And>k. d (key_bytes k) = None \<Longrightarrow> find_idx (\<lambda>e. key_bytes (fst e) = key_bytes k) es = None"
    using db_entriesE [OF assms(1)] by metis
  obtain ks vs where arr: "keys sm = Some ks" "vals sm = Some vs" "capacity sm \<noteq> 0" and full: "\<not> is_full sm"
    using es(1,3) assms(7) sm_rep_top [OF es(1)] by (auto simp: sm_rep_def is_full_def)
  obtain sm' where sm': "sm_set al (Some sm) (Some (pair k2 v2)) (Some compare) = Ret (SUCESS_SET, Some sm', Some (pair k2 v2))"
    "db_rep sm' (d(key_bytes k2 \<mapsto> entry_of (k2, Some v2)))"
    using db_set_new [OF assms(1,3,4,6)] assms(8) unfolding room_def by metis
  have "push_entry sm (pair k2 v2) = Ret sm'"
    using sm'(1) arr full es(4) [OF assms(6)]
      find_key_rep [where P = "\<lambda>e. key_bytes (fst e) = key_bytes k2" and cmp = compare and k = k2, OF es(1) data.cmp_left [OF es(2) assms(3)]]
    by (auto simp: sm_set_def find_codes set_new_def obind_Ret_iff)
  note push = overlapping_pushes [OF this, of al compare "pair k1 v1"]
  have chk: "par_reaches al compare [pair k1 v1, pair k2 v2] ([S_check, S_check], sm) r"
    if "par_reaches al compare [pair k1 v1, pair k2 v2] ([S_top, S_top], sm) r" for r
    using that arr full
    by - (rule par_next [of _ _ _ 0], simp add: par_step_def, rule par_next [of _ _ _ 0], simp add: par_step_def,
      rule par_next [of _ _ _ 1], simp add: par_step_def, rule par_next [of _ _ _ 1], simp add: par_step_def, simp)
  have "par_reaches al compare [pair k1 v1, pair k2 v2] ([S_enter, S_enter], sm)
      (Ret ([S_done SUCESS_SET (pair k1 v1), S_done SUCESS_SET (pair k2 v2)], sm'))"
    by (rule two_lookups [OF es(1,2) assms(2,3)]) (simp add: es(4) assms(5,6) chk push)
  with sm'(2) show ?thesis unfolding par_reaches_def by blast
qed

theorem insert_race_loses_key_witness:
  "\<exists>js sm'. par_run alloc_ok compare [pair demo_key demo_value, pair other_key demo_value] js ([S_enter, S_enter], create_simple_map) =
      Ret ([S_done SUCESS_SET (pair demo_key demo_value), S_done SUCESS_SET (pair other_key demo_value)], sm') \<and>
    db_rep sm' [''j'' \<mapsto> entry_of (other_key, Some demo_value)]"
  using insert_race_loses_key [OF db_rep_create demo_ok(1) other_ok(1) demo_ok(3), of alloc_ok demo_value]
  by (simp add: room_def alloc_ok_def create_simple_map_def other_ok)

text \<open>C17. A concurrent insertion frees memory in use: on every full map, while one thread inserts an
  absent key, a second thread that sets any key can read the key array that \<^verbatim>\<open>realloc\<close> has just freed.\<close>

theorem insert_race_use_after_free:
  assumes "db_rep sm d" "key_ok k1" "d (key_bytes k1) = None" "int (card (dom d)) = capacity sm" "room al sm"
  shows "\<exists>js. par_run al compare [pair k1 v1, pair k2 v2] js ([S_enter, S_enter], sm) = UB"
proof -
  obtain es where es: "sm_rep sm es" "\<forall>e\<in>set es. key_ok (fst e)" "card (dom d) = length es"
    "\<And>k. d (key_bytes k) = None \<Longrightarrow> find_idx (\<lambda>e. key_bytes (fst e) = key_bytes k) es = None"
    using db_entriesE [OF assms(1)] by metis
  obtain ks vs where ks: "keys sm = Some ks" "vals sm = Some vs" "ks \<noteq> []"
    by (rule sm_rep_cells [OF es(1)]) (use sm_rep_capacity [OF es(1)] in force)
  have arr: "capacity sm \<noteq> 0" and full: "is_full sm" and top: "0 \<le> top sm"
    using es(1,3) assms(4) sm_rep_top [OF es(1)] by (auto simp: sm_rep_def is_full_def)
  let ?kvps = "[pair k1 v1, pair k2 v2]" and ?n = "nat ((2 * capacity sm) mod 2 ^ 64)"
  have first: "runs_to al compare (pair k1 v1) (S_enter, sm) (Ret (S_check, sm))"
    using data.runs_lookup [OF es(1,2) assms(2), of "pair k1 v1" al] es(4) [OF assms(3)] by simp
  have alone: "par_reaches al compare ?kvps ([S_check, S_cell 0], sm) UB"
    using ks arr full assms(5)
    by - (rule par_next [of _ _ _ 0], simp add: par_step_def, rule par_next [of _ _ _ 0], simp add: par_step_def,
      rule par_next [of _ _ _ 0], simp add: par_step_def room_def, rule par_next [of _ _ _ 0],
      simp add: par_step_def room_def realloc_block_def, rule par_stuck [of _ _ _ 1], simp add: par_step_def cell_at_def)
  have "par_reaches al compare ?kvps ([S_check, S_enter], sm) UB"
    using ks top alone
    by - (rule par_next [of _ _ _ 1], simp add: par_step_def, rule par_next [of _ _ _ 1], simp add: par_step_def, simp)
  then have "par_reaches al compare ?kvps ([S_enter, S_enter], sm) UB"
    by (rule_tac par_runs [where j = 0]) (use first in simp_all)
  then show ?thesis by (simp add: par_reaches_def)
qed

theorem insert_race_use_after_free_witness:
  "\<exists>js. par_run alloc_ok compare [pair other_key demo_value, pair demo_key demo_value] js ([S_enter, S_enter], demo_map) = UB"
  using insert_race_use_after_free [OF demo_db other_ok(1), of alloc_ok demo_value demo_key demo_value] demo_room
  by (simp add: other_ok demo_map_def)

text \<open>C18. Two concurrent calls for one present key can free its old nodes twice: there is an interleaving
  after which both have returned \<open>SUCESS_UPGRADE\<close> with the same old pair, which each caller then frees.\<close>

theorem overwrite_race_double_free:
  assumes "db_rep sm d" "key_ok k1" "key_ok k2" "key_bytes k1 = key_bytes k2" "d (key_bytes k1) = Some e"
  shows "\<exists>js sm' k w. par_run al compare [pair k1 v1, pair k2 v2] js ([S_enter, S_enter], sm) =
      Ret ([S_done SUCESS_UPGRADE (pair k w), S_done SUCESS_UPGRADE (pair k w)], sm') \<and>
    e = entry_of (k, Some w) \<and> (Some k, Some w) \<in># owned sm"
proof -
  obtain es i k w where es: "sm_rep sm es" "\<forall>e\<in>set es. key_ok (fst e)"
    and i: "find_idx (\<lambda>e. key_bytes (fst e) = key_bytes k1) es = Some i" "i < length es"
      "es ! i = (k, Some w)" "e = entry_of (k, Some w)"
    by (rule db_entriesE [OF assms(1)]) (use assms(5) in blast)
  obtain ks vs where c: "keys sm = Some ks" "vals sm = Some vs" "i < length ks" "i < length vs"
    "ks ! i = Ptr (Some k)" "vs ! i = Ptr (Some w)"
    by (rule sm_rep_cells [OF es(1)]) (use i in auto)
  have top: "int i \<le> top sm" using sm_rep_top [OF es(1)] i(2) by simp
  let ?kvps = "[pair k1 v1, pair k2 v2]" and ?new = "S_new_value (int i) (Some w) (Some k)"
  have read: "set_steps al compare (pair k' v') 3 (S_upgrade (int i), sm) = Ret (?new, sm)" for k' v'
    using c top by (auto simp: numeral_eq_Suc member_at_def)
  obtain sm1 where w1: "set_steps al compare (pair k1 v1) 2 (?new, sm) = Ret (S_done SUCESS_UPGRADE (pair k w), sm1)"
    "keys sm1 = Some (ks[i := Ptr (Some k1)])" "vals sm1 = Some (vs[i := Ptr (Some v1)])"
    using c by (auto simp: numeral_eq_Suc member_put_def)
  obtain sm2 where w2: "set_steps al compare (pair k2 v2) 2 (?new, sm1) = Ret (S_done SUCESS_UPGRADE (pair k w), sm2)"
    using c w1(2,3) by (auto simp: numeral_eq_Suc member_put_def)
  let ?old = "S_done SUCESS_UPGRADE (pair k w)"
  have "par_reaches al compare ?kvps ([?old, ?new], sm1) (Ret ([?old, ?old], sm2))"
    by (rule par_steps [where j = 1 and n = 2, OF _ _ _ par_refl]) (simp_all add: w2 del: set_steps.simps)
  then have "par_reaches al compare ?kvps ([?new, ?new], sm) (Ret ([?old, ?old], sm2))"
    by (rule_tac par_steps [where j = 0 and n = 2]) (simp_all add: w1(1))
  then have "par_reaches al compare ?kvps ([?new, S_upgrade (int i)], sm) (Ret ([?old, ?old], sm2))"
    by (rule_tac par_steps [where j = 1 and n = 3]) (simp_all add: read)
  then have "par_reaches al compare ?kvps ([S_upgrade (int i), S_upgrade (int i)], sm) (Ret ([?old, ?old], sm2))"
    by (rule_tac par_steps [where j = 0 and n = 3]) (simp_all add: read)
  then have "par_reaches al compare ?kvps ([S_enter, S_enter], sm)
      (Ret ([S_done SUCESS_UPGRADE (pair k w), S_done SUCESS_UPGRADE (pair k w)], sm2))"
    by (rule_tac two_lookups [OF es assms(2,3)]) (use i(1) assms(4) in simp)
  moreover have "(Some k, Some w) \<in># owned sm"
    using i(2,3) nth_mem [OF i(2)] by (force simp: owned_rep [OF es(1)])
  ultimately show ?thesis using i(4) unfolding par_reaches_def by blast
qed

theorem overwrite_race_double_free_witness:
  "\<exists>js sm' k w. par_run alloc_ok compare [pair demo_key demo_value, pair demo_key demo_value] js ([S_enter, S_enter], demo_map) =
      Ret ([S_done SUCESS_UPGRADE (pair k w), S_done SUCESS_UPGRADE (pair k w)], sm') \<and> (Some k, Some w) \<in># owned demo_map"
  using overwrite_race_double_free [OF demo_db demo_ok(1) demo_ok(1), of _ alloc_ok demo_value demo_value]
  by (simp add: demo_ok) blast

end
