(* ===== verification/Node_Race.thy ===== *)
theory Node_Race
  imports Map_Race
begin

text \<open>
  The key and value nodes behind the cells of the shared map. \<open>Map_Steps\<close> takes nodes as values; here they
  are blocks on a heap, and the map holds their addresses. A thread runs \<^verbatim>\<open>handle_get_cmd\<close> or
  \<^verbatim>\<open>execute_set_basic\<close> of \<^verbatim>\<open>src/src/cmd_handler.c\<close> statement by statement, with the search and the assignments of
  \<^verbatim>\<open>simple_map.c\<close> in between, and frees what the code frees; reading or freeing a freed node is undefined.
  Alone, both commands do what the abstract store does and free each node once; together, a GET reads a
  node that a SET has freed.
\<close>

section \<open>Nodes on a heap\<close>

record nodes =
  n_map :: "(nat, nat) SimpleMap"
  n_keys :: "nat \<rightharpoonup> KeyNode"
  n_vals :: "nat \<rightharpoonup> ValueNode"

text \<open>\<^verbatim>\<open>compare\<close> on two pointers.\<close>

definition compare_at :: "(nat \<rightharpoonup> KeyNode) \<Rightarrow> nat cmp_fptr" where
  "compare_at h a b =
     (case (a, b) of
        (Some x, Some y) \<Rightarrow>
          (case (h x, h y) of (Some k, Some k') \<Rightarrow> compare (Some k) (Some k') | _ \<Rightarrow> UB)
      | _ \<Rightarrow> Ret False)"

text \<open>\<^verbatim>\<open>free\<close> of a node, and \<^verbatim>\<open>clean_up_kv\<close>.\<close>

definition free_node :: "nat option \<Rightarrow> (nat \<rightharpoonup> 'a) \<Rightarrow> (nat \<rightharpoonup> 'a) outcome" where
  "free_node p h =
     (case p of None \<Rightarrow> Ret h | Some a \<Rightarrow> if h a = None then UB else Ret (h(a := None)))"

definition clean_up_at :: "nat option \<Rightarrow> nat option \<Rightarrow> nodes \<Rightarrow> nodes outcome" where
  "clean_up_at k v s =
     obind (free_node k (n_keys s)) (\<lambda>hk. obind (free_node v (n_vals s)) (\<lambda>hv.
     Ret (s\<lparr>n_keys := hk, n_vals := hv\<rparr>)))"

section \<open>GET, statement by statement\<close>

text \<open>The search key has been allocated. \<open>G_compare i p\<close> has read the key pointer of entry \<open>i\<close>; the last
  states hold what \<^verbatim>\<open>get\<close> has read.\<close>

datatype get_pc =
    G_enter
  | G_find int
  | G_cell int
  | G_compare int "nat option"
  | G_key int
  | G_value int "nat option"
  | G_expired "nat option" "nat option"
  | G_remove
  | G_reply nat
  | G_clean "string option"
  | G_done "string option"

fun get_step :: "nat \<Rightarrow> get_pc \<Rightarrow> nodes \<Rightarrow> (get_pc \<times> nodes) outcome" where
  "get_step key G_enter s = Ret (if keys (n_map s) = None then G_clean (Some RESP_NIL) else G_find 0, s)"
| "get_step key (G_find i) s =
     Ret (if i \<le> top (n_map s) then G_cell i else G_clean (Some RESP_NIL), s)"
| "get_step key (G_cell i) s =
     (case keys (n_map s) of
        None \<Rightarrow> UB
      | Some ks \<Rightarrow>
          (case cell_at ks i of
             Uninit \<Rightarrow> UB
           | Null \<Rightarrow> Ret (G_clean (Some RESP_NIL), s)
           | Ptr p \<Rightarrow> Ret (G_compare i p, s)))"
| "get_step key (G_compare i p) s =
     obind (compare_at (n_keys s) p (Some key)) (\<lambda>hit. Ret (if hit then G_key i else G_find (i + 1), s))"
| "get_step key (G_key i) s = obind (member_at (keys (n_map s)) i) (\<lambda>k. Ret (G_value i k, s))"
| "get_step key (G_value i k) s = obind (member_at (vals (n_map s)) i) (\<lambda>v. Ret (G_expired k v, s))"
| "get_step key (G_expired k v) s =
     (case (k, v) of
        (Some ka, Some va) \<Rightarrow>
          (case (n_keys s key, n_keys s ka) of
             (Some new_key, Some prev_key) \<Rightarrow>
               obind (has_key_expired new_key prev_key) (\<lambda>gone. Ret (if gone then G_remove else G_reply va, s))
           | _ \<Rightarrow> UB)
      | _ \<Rightarrow> Ret (G_clean None, s))"
| "get_step key G_remove s =
     obind (remove_key (Some (n_map s)) (Some key) (Some (compare_at (n_keys s)))
         (Some \<lparr>kvp_key = None, kvp_value = None\<rparr>)) (\<lambda>(rtn, smp, rmvp).
     case (smp, rmvp) of
       (Some sm, Some rmv) \<Rightarrow>
         (case rtn of
            REMOVE_ERROR \<Rightarrow> Ret (G_clean None, s\<lparr>n_map := sm\<rparr>)
          | REMOVE_KEY_NOT_FOUND \<Rightarrow> Ret (G_clean (Some RESP_NIL), s\<lparr>n_map := sm\<rparr>)
          | REMOVE_SUCCESS \<Rightarrow>
              obind (clean_up_at (kvp_key rmv) (kvp_value rmv) (s\<lparr>n_map := sm\<rparr>)) (\<lambda>s'.
              Ret (G_clean (Some RESP_NIL), s')))
     | _ \<Rightarrow> UB)"
| "get_step key (G_reply va) s =
     (case n_vals s va of
        None \<Rightarrow> UB
      | Some v \<Rightarrow>
          if vn_dtype v = BULK_STR
          then obind (key_or_value_node_to_string (Some (TYPE_VALUE_NODE v))) (\<lambda>(n, rtn). Ret (G_clean rtn, s))
          else Ret (G_clean None, s))"
| "get_step key (G_clean rtn) s = obind (clean_up_at (Some key) None s) (\<lambda>s'. Ret (G_done rtn, s'))"
| "get_step key (G_done rtn) s = Ret (G_done rtn, s)"

section \<open>SET, statement by statement\<close>

text \<open>\<^verbatim>\<open>execute_set_basic\<close> on a pair of pointers to new nodes, with \<open>set_step\<close> for \<^verbatim>\<open>set\<close>.\<close>

type_synonym addr_pair = "(nat, nat) KeyValuePair"

datatype set_th =
    T_enter
  | T_set "(nat, nat) set_pc"
  | T_free "string option" addr_pair
  | T_done "string option"

fun set_th_step :: "alloc \<Rightarrow> addr_pair \<Rightarrow> set_th \<Rightarrow> nodes \<Rightarrow> (set_th \<times> nodes) outcome" where
  "set_th_step al kvp T_enter s =
     (case kvp_key kvp of
        None \<Rightarrow> Ret (T_free None kvp, s)
      | Some a \<Rightarrow>
          if kvp_value kvp = None \<or> vals (n_map s) = None \<or> keys (n_map s) = None then Ret (T_free None kvp, s)
          else
            (case n_keys s a of
               None \<Rightarrow> UB
             | Some k \<Rightarrow> Ret (if kn_content k = None then T_free None kvp else T_set S_enter, s)))"
| "set_th_step al kvp (T_set pc) s =
     (case pc of
        S_done rtn kvp' \<Rightarrow>
          Ret (case rtn of
                 ERROR_SET_SM_RTN \<Rightarrow> T_free (Some []) kvp'
               | SUCESS_SET \<Rightarrow> T_done (Some RESP_OK)
               | SUCESS_UPGRADE \<Rightarrow> T_free (Some RESP_OK) kvp', s)
      | _ \<Rightarrow> obind (set_step al (compare_at (n_keys s)) kvp (pc, n_map s)) (\<lambda>(pc', sm).
          Ret (T_set pc', s\<lparr>n_map := sm\<rparr>)))"
| "set_th_step al kvp (T_free rtn p) s =
     obind (clean_up_at (kvp_key p) (kvp_value p) s) (\<lambda>s'. Ret (T_done rtn, s'))"
| "set_th_step al kvp (T_done rtn) s = Ret (T_done rtn, s)"

section \<open>Threads\<close>

datatype node_thread = Do_Get nat get_pc | Do_Set addr_pair set_th

fun node_step :: "alloc \<Rightarrow> node_thread \<times> nodes \<Rightarrow> (node_thread \<times> nodes) outcome" where
  "node_step al (Do_Get key pc, s) = obind (get_step key pc s) (\<lambda>(pc', s'). Ret (Do_Get key pc', s'))"
| "node_step al (Do_Set kvp pc, s) = obind (set_th_step al kvp pc s) (\<lambda>(pc', s'). Ret (Do_Set kvp pc', s'))"

primrec node_steps :: "alloc \<Rightarrow> nat \<Rightarrow> node_thread \<times> nodes \<Rightarrow> (node_thread \<times> nodes) outcome" where
  "node_steps al 0 c = Ret c"
| "node_steps al (Suc n) c = obind (node_step al c) (node_steps al n)"

text \<open>A schedule lists which thread runs the next statement.\<close>

fun node_run :: "alloc \<Rightarrow> nat list \<Rightarrow> node_thread list \<times> nodes \<Rightarrow> (node_thread list \<times> nodes) outcome" where
  "node_run al [] st = Ret st"
| "node_run al (j # js) (ths, s) =
     (if length ths \<le> j then node_run al js (ths, s)
      else obind (node_step al (ths ! j, s)) (\<lambda>(th, s'). node_run al js (ths[j := th], s')))"

section \<open>A thread alone\<close>

definition alone :: "alloc \<Rightarrow> node_thread \<times> nodes \<Rightarrow> node_thread \<times> nodes \<Rightarrow> bool" where
  "alone al c c' \<longleftrightarrow> (\<exists>n. node_steps al n c = Ret c')"

lemma alone_refl [simp]: "alone al c c"
  unfolding alone_def by (rule exI [of _ 0]) simp

lemma alone_step: "node_step al c = Ret c1 \<Longrightarrow> alone al c1 c2 \<Longrightarrow> alone al c c2"
  unfolding alone_def by (elim exE, rule_tac x = "Suc n" in exI) simp

lemma alone_trans: "alone al c1 c2 \<Longrightarrow> alone al c2 c3 \<Longrightarrow> alone al c1 c3"
proof -
  assume "alone al c1 c2" "alone al c2 c3"
  then obtain n m where "node_steps al n c1 = Ret c2" "node_steps al m c2 = Ret c3" by (auto simp: alone_def)
  then have "node_steps al (n + m) c1 = Ret c3"
  proof (induction n arbitrary: c1)
    case (Suc n)
    then show ?case by (cases "node_step al c1") auto
  qed simp
  then show ?thesis by (auto simp: alone_def)
qed

text \<open>The loop of \<^verbatim>\<open>__find\<close> up to entry \<open>n\<close>, when no entry before it matches.\<close>

lemma get_find_alone:
  assumes "keys (n_map s) = Some ks" "int n \<le> top (n_map s) + 1" "n \<le> length ks"
    "\<And>i. i < n \<Longrightarrow> \<exists>p. ks ! i = Ptr p \<and> compare_at (n_keys s) p (Some key) = Ret False"
  shows "alone al (Do_Get key (G_find 0), s) (Do_Get key (G_find (int n)), s)"
  using assms(2-4)
proof (induction n)
  case (Suc n)
  from Suc.prems(3) [of n] obtain p where p: "ks ! n = Ptr p" "compare_at (n_keys s) p (Some key) = Ret False" by auto
  have "alone al (Do_Get key (G_find 0), s) (Do_Get key (G_find (int n)), s)" using Suc by auto
  moreover have "alone al (Do_Get key (G_find (int n)), s) (Do_Get key (G_find (int (Suc n))), s)"
  proof (rule alone_step)
    show "node_step al (Do_Get key (G_find (int n)), s) = Ret (Do_Get key (G_cell (int n)), s)" using Suc.prems(1) by simp
    show "alone al (Do_Get key (G_cell (int n)), s) (Do_Get key (G_find (int (Suc n))), s)"
      by (rule alone_step [of _ _ "(Do_Get key (G_compare (int n) p), s)"],
          use assms(1) Suc.prems(2) p in \<open>simp add: cell_at_def\<close>, rule alone_step, use p in simp, simp add: add.commute)
  qed
  ultimately show ?case by (rule alone_trans)
qed simp

text \<open>The statements of \<^verbatim>\<open>set\<close> as steps of a SET.\<close>

lemma set_alone_nodes:
  assumes "runs_to al (compare_at (n_keys s)) kvp (pc, n_map s) (Ret (S_done rtn kvp', sm))"
  shows "alone al (Do_Set kvp (T_set pc), s) (Do_Set kvp (T_set (S_done rtn kvp')), s\<lparr>n_map := sm\<rparr>)"
proof -
  from assms obtain n where "set_steps al (compare_at (n_keys s)) kvp n (pc, n_map s) = Ret (S_done rtn kvp', sm)"
    by (auto simp: runs_to_def)
  then show ?thesis
  proof (induction n arbitrary: pc s)
    case (Suc n)
    show ?case
    proof (cases "\<exists>r p. pc = S_done r p")
      case True
      then obtain r p where pc: "pc = S_done r p" by blast
      have "set_steps al cmp kvp m (S_done r p, sm0) = Ret (S_done r p, sm0)" for m cmp sm0 by (induction m) auto
      with Suc.prems pc have "rtn = r" "kvp' = p" "sm = n_map s" by simp_all
      with pc show ?thesis by simp
    next
      case False
      from Suc.prems obtain pc1 sm1 where s1: "set_step al (compare_at (n_keys s)) kvp (pc, n_map s) = Ret (pc1, sm1)"
        "set_steps al (compare_at (n_keys s)) kvp n (pc1, sm1) = Ret (S_done rtn kvp', sm)" by (auto simp: obind_Ret_iff)
      have "node_step al (Do_Set kvp (T_set pc), s) = Ret (Do_Set kvp (T_set pc1), s\<lparr>n_map := sm1\<rparr>)"
        using False s1(1) by (cases pc) (simp_all del: set_step.simps)
      moreover have "alone al (Do_Set kvp (T_set pc1), s\<lparr>n_map := sm1\<rparr>) (Do_Set kvp (T_set (S_done rtn kvp')), s\<lparr>n_map := sm\<rparr>)"
        using Suc.IH [of "s\<lparr>n_map := sm1\<rparr>" pc1] s1(2) by simp
      ultimately show ?thesis by (rule alone_step)
    qed
  next
    case 0
    then have "s\<lparr>n_map := sm\<rparr> = s" "pc = S_done rtn kvp'" by auto
    then show ?case by simp
  qed
qed

section \<open>The store behind the nodes\<close>

definition node_ok :: "(nat \<rightharpoonup> KeyNode) \<Rightarrow> nat \<Rightarrow> bool" where
  "node_ok h a \<longleftrightarrow> (case h a of None \<Rightarrow> False | Some k \<Rightarrow> key_ok k)"

definition node_bytes :: "(nat \<rightharpoonup> KeyNode) \<Rightarrow> nat \<Rightarrow> string" where
  "node_bytes h a = (case h a of None \<Rightarrow> [] | Some k \<Rightarrow> key_bytes k)"

interpretation heap: key_compare "compare_at h" "node_ok h" "node_bytes h" for h
  by unfold_locales
    (auto simp: compare_at_def node_ok_def node_bytes_def data.cmp_ident split: option.splits)

definition load :: "nodes \<Rightarrow> nat \<times> nat option \<Rightarrow> entry" where
  "load s e = entry_of (the (n_keys s (fst e)), case snd e of None \<Rightarrow> None | Some a \<Rightarrow> n_vals s a)"

text \<open>Every entry has a value node of its own.\<close>

definition own_values :: "(nat \<rightharpoonup> ValueNode) \<Rightarrow> (string \<rightharpoonup> nat \<times> nat option) \<Rightarrow> bool" where
  "own_values h m \<longleftrightarrow>
     (\<forall>x k v. m x = Some (k, v) \<longrightarrow> (\<exists>a w. v = Some a \<and> h a = Some w \<and> value_ok w)) \<and>
     (\<forall>x y k k' a. m x = Some (k, Some a) \<longrightarrow> m y = Some (k', Some a) \<longrightarrow> x = y)"

abbreviation node_map :: "nodes \<Rightarrow> (string \<rightharpoonup> nat \<times> nat option) \<Rightarrow> bool" where
  "node_map s m \<equiv> sm_map (node_ok (n_keys s)) (node_bytes (n_keys s)) (n_map s) m"

definition nodes_rep :: "nodes \<Rightarrow> db \<Rightarrow> bool" where
  "nodes_rep s d \<longleftrightarrow> (\<exists>m. node_map s m \<and> own_values (n_vals s) m \<and> d = (\<lambda>x. map_option (load s) (m x)))"

text \<open>An address that no cell of the map in use holds.\<close>

definition fresh_key :: "nat \<Rightarrow> nodes \<Rightarrow> bool" where
  "fresh_key a s \<longleftrightarrow> (\<forall>ks i. keys (n_map s) = Some ks \<longrightarrow> int i \<le> top (n_map s) \<longrightarrow> ks ! i \<noteq> Ptr (Some a))"

definition fresh_value :: "nat \<Rightarrow> nodes \<Rightarrow> bool" where
  "fresh_value a s \<longleftrightarrow> (\<forall>vs i. vals (n_map s) = Some vs \<longrightarrow> int i \<le> top (n_map s) \<longrightarrow> vs ! i \<noteq> Ptr (Some a))"

text \<open>The allocated nodes that the map does not hold: what is not freed after it left the map is among them.\<close>

definition stray_keys :: "nodes \<Rightarrow> nat set" where
  "stray_keys s = {a. n_keys s a \<noteq> None \<and> fresh_key a s}"

definition stray_values :: "nodes \<Rightarrow> nat set" where
  "stray_values s = {a. n_vals s a \<noteq> None \<and> fresh_value a s}"

lemma fresh_map:
  assumes "node_map s m"
  shows "fresh_key a s \<longleftrightarrow> (\<forall>x k v. m x = Some (k, v) \<longrightarrow> a \<noteq> k)"
    "fresh_value a s \<longleftrightarrow> (\<forall>x k v. m x = Some (k, v) \<longrightarrow> v \<noteq> Some a)"
proof -
  obtain es where es: "sm_rep (n_map s) es" "distinct (map (\<lambda>e. node_bytes (n_keys s) (fst e)) es)"
    "m = entries_map (node_bytes (n_keys s)) es" using assms by (auto elim: sm_mapE)
  have m: "(\<exists>x. m x = Some e) \<longleftrightarrow> (\<exists>i<length es. es ! i = e)" for e
    using entries_map_Some_iff [OF es(2)] es(3) by (auto simp: in_set_conv_nth)
  obtain ks vs where c: "keys (n_map s) = Some ks" "vals (n_map s) = Some vs"
    "\<And>i. i < length es \<Longrightarrow> ks ! i = Ptr (Some (fst (es ! i)))" "\<And>i. i < length es \<Longrightarrow> vs ! i = Ptr (snd (es ! i))"
    by (rule sm_rep_cells [OF es(1)], rule that)
  have top: "int i \<le> top (n_map s) \<longleftrightarrow> i < length es" for i using sm_rep_top [OF es(1)] by auto
  have "fresh_key a s \<longleftrightarrow> (\<forall>i<length es. fst (es ! i) \<noteq> a)" "fresh_value a s \<longleftrightarrow> (\<forall>i<length es. snd (es ! i) \<noteq> Some a)"
    using c by (auto simp: fresh_key_def fresh_value_def top)
  moreover have "(\<forall>i<length es. fst (es ! i) \<noteq> a) \<longleftrightarrow> (\<forall>x k v. m x = Some (k, v) \<longrightarrow> a \<noteq> k)"
    using m by (metis fst_conv prod.collapse)
  moreover have "(\<forall>i<length es. snd (es ! i) \<noteq> Some a) \<longleftrightarrow> (\<forall>x k v. m x = Some (k, v) \<longrightarrow> v \<noteq> Some a)"
    using m by (metis snd_conv prod.collapse)
  ultimately show "fresh_key a s \<longleftrightarrow> (\<forall>x k v. m x = Some (k, v) \<longrightarrow> a \<noteq> k)"
    "fresh_value a s \<longleftrightarrow> (\<forall>x k v. m x = Some (k, v) \<longrightarrow> v \<noteq> Some a)" by simp_all
qed

text \<open>Changes of the heap at addresses that the map does not hold.\<close>

lemma sm_map_heap:
  assumes "sm_map (node_ok h) (node_bytes h) sm m" "\<And>x k v. m x = Some (k, v) \<Longrightarrow> h' k = h k"
  shows "sm_map (node_ok h') (node_bytes h') sm m"
proof -
  obtain es where es: "sm_rep sm es" "\<forall>e\<in>set es. node_ok h (fst e)"
    "distinct (map (\<lambda>e. node_bytes h (fst e)) es)" "m = entries_map (node_bytes h) es" by (rule sm_mapE [OF assms(1)])
  have same: "h' (fst e) = h (fst e)" if "e \<in> set es" for e
    using that assms(2) [of "node_bytes h (fst e)" "fst e" "snd e"] es(4) entries_map_Some_iff [OF es(3)] by simp
  then have b: "map (\<lambda>e. (node_bytes h' (fst e), e)) es = map (\<lambda>e. (node_bytes h (fst e), e)) es"
    by (auto simp: node_bytes_def)
  have "map (\<lambda>e. node_bytes h' (fst e)) es = map (\<lambda>e. node_bytes h (fst e)) es"
    using same by (simp add: node_bytes_def)
  with es(3) have "distinct (map (\<lambda>e. node_bytes h' (fst e)) es)" by (simp only:)
  moreover have "entries_map (node_bytes h') es = entries_map (node_bytes h) es" unfolding entries_map_def by (simp only: b)
  moreover have "\<forall>e\<in>set es. node_ok h' (fst e)" using es(2) same by (simp add: node_ok_def)
  ultimately show ?thesis using es(1,4) unfolding sm_map_def by (intro exI [of _ es]) simp
qed

lemma nodes_repE:
  assumes "nodes_rep s d"
  obtains m where "node_map s m" "own_values (n_vals s) m" "d = (\<lambda>x. map_option (load s) (m x))"
  using assms by (auto simp: nodes_rep_def)

text \<open>An entry of the store and its nodes.\<close>

lemma node_entry:
  assumes "node_map s m" "own_values (n_vals s) m" "m x = Some (k, v)"
  obtains kn a w where "n_keys s k = Some kn" "key_ok kn" "key_bytes kn = x" "v = Some a" "n_vals s a = Some w" "value_ok w"
    "load s (k, v) = entry_of (kn, Some w)"
proof -
  obtain es where es: "\<forall>e\<in>set es. node_ok (n_keys s) (fst e)" "distinct (map (\<lambda>e. node_bytes (n_keys s) (fst e)) es)"
    "m = entries_map (node_bytes (n_keys s)) es" using assms(1) by (auto elim: sm_mapE)
  then have "(k, v) \<in> set es" "node_bytes (n_keys s) k = x" using assms(3) entries_map_Some_iff [OF es(2)] by auto
  moreover from this es(1) obtain kn where kn: "n_keys s k = Some kn" "key_ok kn" by (fastforce simp: node_ok_def split: option.splits)
  moreover obtain a w where v: "v = Some a" "n_vals s a = Some w" "value_ok w"
    using assms(2,3) unfolding own_values_def by blast
  moreover have "load s (k, v) = entry_of (kn, Some w)" using kn v by (simp add: load_def)
  ultimately show ?thesis using that by (simp add: node_bytes_def)
qed

lemma nodes_rep_frame:
  assumes "nodes_rep s d" "n_map s' = n_map s"
    "\<And>a. \<not> fresh_key a s \<Longrightarrow> n_keys s' a = n_keys s a" "\<And>a. \<not> fresh_value a s \<Longrightarrow> n_vals s' a = n_vals s a"
  shows "nodes_rep s' d"
proof -
  obtain m where m: "node_map s m" "own_values (n_vals s) m" "d = (\<lambda>x. map_option (load s) (m x))"
    using assms(1) by (rule nodes_repE)
  have kv: "n_keys s' k = n_keys s k \<and> (\<forall>a. v = Some a \<longrightarrow> n_vals s' a = n_vals s a)" if "m x = Some (k, v)" for x k v
    using fresh_map [OF m(1)] that assms(3,4) by metis
  have "node_map s' m" unfolding assms(2) by (rule sm_map_heap [OF m(1)]) (use kv in blast)
  moreover have "own_values (n_vals s') m" using m(2) kv unfolding own_values_def by metis
  moreover have "d = (\<lambda>x. map_option (load s') (m x))"
    unfolding m(3)
  proof
    fix x
    show "map_option (load s) (m x) = map_option (load s') (m x)"
      using kv by (cases "m x") (auto simp: load_def split: option.splits)
  qed
  ultimately show ?thesis unfolding nodes_rep_def by blast
qed

section \<open>GET and SET alone\<close>

lemma get_enter_alone:
  assumes "node_ok (n_keys s) key" "node_map s m"
  shows "alone al (Do_Get key G_enter, s) (Do_Get key
    (case m (node_bytes (n_keys s) key) of None \<Rightarrow> G_clean (Some RESP_NIL) | Some (k, v) \<Rightarrow> G_expired (Some k) v), s)"
proof -
  let ?x = "node_bytes (n_keys s) key"
  obtain es where es: "sm_rep (n_map s) es" "\<forall>e\<in>set es. node_ok (n_keys s) (fst e)"
    "distinct (map (\<lambda>e. node_bytes (n_keys s) (fst e)) es)" "m = entries_map (node_bytes (n_keys s)) es"
    by (rule sm_mapE [OF assms(2)])
  obtain ks vs where c: "keys (n_map s) = Some ks" "vals (n_map s) = Some vs" "length vs = length ks" "length es \<le> length ks"
    "\<And>i. i < length es \<Longrightarrow> ks ! i = Ptr (Some (fst (es ! i)))" "\<And>i. i < length es \<Longrightarrow> vs ! i = Ptr (snd (es ! i))"
    by (rule sm_rep_cells [OF es(1)], rule that)
  note top = sm_rep_top [OF es(1)]
  have cmp: "compare_at (n_keys s) (Some (fst (es ! i))) (Some key) = Ret (node_bytes (n_keys s) (fst (es ! i)) = ?x)"
    if "i < length es" for i using heap.cmp_ident [of "n_keys s" "fst (es ! i)" key] es(2) assms(1) that by simp
  have search: "alone al (Do_Get key G_enter, s) (Do_Get key (G_find (int n)), s)"
    if "n \<le> length es" "\<forall>i<n. node_bytes (n_keys s) (fst (es ! i)) \<noteq> ?x" for n
    by (rule alone_step [of _ _ "(Do_Get key (G_find 0), s)"], use c in simp, rule get_find_alone [OF c(1)])
      (use that c(4,5) top cmp in auto)
  show ?thesis
  proof (cases "find_idx (\<lambda>e. node_bytes (n_keys s) (fst e) = ?x) es")
    case None
    then have "\<forall>i<length es. node_bytes (n_keys s) (fst (es ! i)) \<noteq> ?x" by (simp add: find_idx_None_iff)
    note s1 = search [OF order_refl this]
    have "m ?x = None" using entries_map_find_None [OF None] es(4) by simp
    then show ?thesis
      by simp (rule alone_trans [OF s1], rule alone_step [OF _ alone_refl], simp add: top)
  next
    case (Some i)
    note i = find_idx_SomeD [OF Some]
    have m: "m ?x = Some (es ! i)" using entries_map_find_Some [OF es(3) Some] es(4) by simp
    obtain k v where e: "es ! i = (k, v)" by fastforce
    have "alone al (Do_Get key (G_find (int i)), s) (Do_Get key (G_expired (Some k) v), s)"
      using i c(1,2,3,4) c(5,6) [of i] top e cmp [of i]
      by - (rule alone_step, simp, rule alone_step, simp add: cell_at_def, rule alone_step, simp,
        rule alone_step, simp add: member_at_def cell_at_def, rule alone_step [OF _ alone_refl], simp add: member_at_def cell_at_def)
    with search [of i] i m e show ?thesis by (auto intro: alone_trans)
  qed
qed

lemma get_clean_alone:
  assumes "nodes_rep s d" "n_keys s key = Some kn" "fresh_key key s" "alone al c (Do_Get key (G_clean r), s)"
  shows "\<exists>s'. alone al c (Do_Get key (G_done r), s') \<and> nodes_rep s' d \<and>
    stray_keys s' = stray_keys s - {key} \<and> stray_values s' = stray_values s"
proof -
  let ?s = "s\<lparr>n_keys := (n_keys s)(key := None), n_vals := n_vals s\<rparr>"
  have "alone al (Do_Get key (G_clean r), s) (Do_Get key (G_done r), ?s)"
    by (rule alone_step [OF _ alone_refl]) (simp add: clean_up_at_def free_node_def assms(2))
  with assms(4) have "alone al c (Do_Get key (G_done r), ?s)" by (rule alone_trans)
  moreover have "nodes_rep ?s d" by (rule nodes_rep_frame [OF assms(1)]) (use assms(3) in auto)
  moreover have "stray_keys ?s = stray_keys s - {key}" "stray_values ?s = stray_values s"
    by (auto simp: stray_keys_def stray_values_def fresh_key_def fresh_value_def)
  ultimately show ?thesis by (intro exI [of _ ?s]) blast
qed

text \<open>The nodes of one entry are freed.\<close>

lemma nodes_rep_forget:
  assumes m: "node_map s m" "own_values (n_vals s) m" "m x = Some (ka, Some a)"
    and upd: "sm_map (node_ok (n_keys s)) (node_bytes (n_keys s)) sm (m(x := e))" "own_values (n_vals s) (m(x := e))"
    and e: "\<And>k v. e = Some (k, v) \<Longrightarrow> k \<noteq> ka \<and> v \<noteq> Some a"
  defines "s' \<equiv> s\<lparr>n_map := sm, n_keys := (n_keys s)(ka := None), n_vals := (n_vals s)(a := None)\<rparr>"
  shows "nodes_rep s' (\<lambda>y. map_option (load s) ((m(x := e)) y))" "node_map s' (m(x := e))"
    "e = None \<Longrightarrow> stray_keys s' = stray_keys s \<and> stray_values s' = stray_values s"
proof -
  have other: "k \<noteq> ka \<and> v \<noteq> Some a" if "(m(x := e)) y = Some (k, v)" for y k v
  proof (cases "y = x")
    case False
    with that have y: "m y = Some (k, v)" by simp
    obtain kn where "n_keys s k = Some kn" "key_bytes kn = y" by (rule node_entry [OF m(1,2) y], rule that)
    moreover obtain kn' where "n_keys s ka = Some kn'" "key_bytes kn' = x" by (rule node_entry [OF m(1-3)], rule that)
    ultimately have "k \<noteq> ka" using False by auto
    moreover have "v \<noteq> Some a" using m(2,3) y False unfolding own_values_def by blast
    ultimately show ?thesis by simp
  qed (use that e in simp)
  have "sm_map (node_ok ((n_keys s)(ka := None))) (node_bytes ((n_keys s)(ka := None))) sm (m(x := e))"
  proof (rule sm_map_heap [OF upd(1)])
    show "((n_keys s)(ka := None)) k = n_keys s k" if "(m(x := e)) y = Some (k, v)" for y k v
      using other [OF that] by simp
  qed
  then show map: "node_map s' (m(x := e))" by (simp add: s'_def del: fun_upd_apply)
  have "\<exists>b w. v = Some b \<and> n_vals s' b = Some w \<and> value_ok w" if y: "(m(x := e)) y = Some (k, v)" for y k v
  proof -
    obtain b w where "v = Some b" "n_vals s b = Some w" "value_ok w"
      using upd(2) y unfolding own_values_def by blast
    with other [OF y] show ?thesis by (simp add: s'_def)
  qed
  with upd(2) have "own_values (n_vals s') (m(x := e))" unfolding own_values_def by blast
  moreover have "map_option (load s) ((m(x := e)) y) = map_option (load s') ((m(x := e)) y)" for y
  proof (cases "(m(x := e)) y")
    case (Some kv)
    obtain k v where "kv = (k, v)" by fastforce
    with Some other [of y k v] show ?thesis by (auto simp: load_def s'_def split: option.splits)
  qed simp
  ultimately show "nodes_rep s' (\<lambda>y. map_option (load s) ((m(x := e)) y))"
    using map unfolding nodes_rep_def by (intro exI [of _ "m(x := e)"]) simp
  assume e: "e = None"
  have held: "(\<exists>y k v. m y = Some (k, v) \<and> P k v) \<longleftrightarrow> (\<exists>y k v. (m(x := e)) y = Some (k, v) \<and> P k v) \<or> P ka (Some a)" for P
  proof
    assume "\<exists>y k v. m y = Some (k, v) \<and> P k v"
    then obtain y k v where y: "m y = Some (k, v)" "P k v" by blast
    show "(\<exists>y k v. (m(x := e)) y = Some (k, v) \<and> P k v) \<or> P ka (Some a)"
    proof (cases "y = x")
      case False
      with y have "(m(x := e)) y = Some (k, v)" by simp
      with y(2) show ?thesis by blast
    qed (use y m(3) in simp)
  next
    assume "(\<exists>y k v. (m(x := e)) y = Some (k, v) \<and> P k v) \<or> P ka (Some a)"
    then show "\<exists>y k v. m y = Some (k, v) \<and> P k v"
    proof
      assume "\<exists>y k v. (m(x := e)) y = Some (k, v) \<and> P k v"
      then obtain y k v where "(m(x := e)) y = Some (k, v)" "P k v" by blast
      then have "m y = Some (k, v)" by (simp add: e split: if_splits)
      with \<open>P k v\<close> show ?thesis by blast
    qed (use m(3) in blast)
  qed
  have "fresh_key b s \<longleftrightarrow> fresh_key b s' \<and> b \<noteq> ka" for b
    using held [of "\<lambda>k v. b = k"] unfolding fresh_map(1) [OF m(1)] fresh_map(1) [OF map] by blast
  moreover have "fresh_value b s \<longleftrightarrow> fresh_value b s' \<and> b \<noteq> a" for b
    using held [of "\<lambda>k v. v = Some b"] unfolding fresh_map(2) [OF m(1)] fresh_map(2) [OF map] by blast
  ultimately show "stray_keys s' = stray_keys s \<and> stray_values s' = stray_values s"
    by (auto simp: stray_keys_def stray_values_def s'_def)
qed

text \<open>A GET alone answers as the abstract store and leaves no node behind it.\<close>

lemma get_alone:
  assumes rep: "nodes_rep s d" and key: "n_keys s key = Some (made_key now k)" "k \<noteq> []" "fresh_key key s"
  shows "\<exists>s'. alone al (Do_Get key G_enter, s) (Do_Get key (G_done (Some (fst (get_spec now k d)))), s') \<and>
    nodes_rep s' (snd (get_spec now k d)) \<and> stray_keys s' = stray_keys s - {key} \<and> stray_values s' = stray_values s"
proof -
  obtain m where m: "node_map s m" "own_values (n_vals s) m" "d = (\<lambda>x. map_option (load s) (m x))"
    using rep by (rule nodes_repE)
  have ok: "key_ok (made_key now k)" "key_bytes (made_key now k) = k" using key(2) by simp_all
  then have node: "node_ok (n_keys s) key" "node_bytes (n_keys s) key = k" by (simp_all add: node_ok_def node_bytes_def key(1))
  note enter = get_enter_alone [OF node(1) m(1), of al, unfolded node(2)]
  show ?thesis
  proof (cases "m k")
    case None
    with m(3) have "get_spec now k d = (RESP_NIL, d)" by (simp add: get_spec_def)
    with get_clean_alone [OF rep key(1,3), of al "(Do_Get key G_enter, s)" "Some RESP_NIL"] enter None show ?thesis by simp
  next
    case (Some kv)
    then obtain ka v where kv: "m k = Some (ka, v)" by (cases kv) auto
    obtain kn a w where n: "n_keys s ka = Some kn" "key_ok kn" "key_bytes kn = k" "v = Some a" "n_vals s a = Some w" "value_ok w"
      "load s (ka, v) = entry_of (kn, Some w)" by (rule node_entry [OF m(1,2) kv], rule that)
    let ?en = "entry_of (kn, Some w)"
    have d: "d k = Some ?en" using m(3) kv n(7) by simp
    have exp: "node_step al (Do_Get key (G_expired (Some ka) v), s) =
        Ret (Do_Get key (if expired now ?en then G_remove else G_reply a), s)"
      using n(1,4) key(1) made_key_expired [OF n(2), of now k "Some w"] by simp
    show ?thesis
    proof (cases "expired now ?en")
      case False
      then have spec: "get_spec now k d = (bulk (value_bytes w), d)" by (simp add: get_spec_def d)
      have "node_step al (Do_Get key (G_reply a), s) = Ret (Do_Get key (G_clean (Some (bulk (value_bytes w)))), s)"
        using n(5,6) value_node_to_string [OF n(6)] by (simp add: value_ok_def text_value_def)
      with exp False have "alone al (Do_Get key (G_expired (Some ka) v), s) (Do_Get key (G_clean (Some (bulk (value_bytes w)))), s)"
        by (auto intro!: alone_step [OF _ alone_step [OF _ alone_refl]])
      with enter kv have "alone al (Do_Get key G_enter, s) (Do_Get key (G_clean (Some (bulk (value_bytes w)))), s)"
        by (auto intro: alone_trans)
      from get_clean_alone [OF rep key(1,3) this] spec show ?thesis by simp
    next
      case True
      then have spec: "get_spec now k d = (RESP_NIL, d(k := None))" by (simp add: get_spec_def d)
      obtain sm' where sm': "remove_key (Some (n_map s)) (Some key) (Some (compare_at (n_keys s))) (Some \<lparr>kvp_key = None, kvp_value = None\<rparr>) =
          Ret (REMOVE_SUCCESS, Some sm', Some \<lparr>kvp_key = Some ka, kvp_value = v\<rparr>)"
        "sm_map (node_ok (n_keys s)) (node_bytes (n_keys s)) sm' (m(k := None))"
        using heap.remove_refines [OF m(1) node(1), unfolded node(2), OF kv] by blast
      let ?s = "s\<lparr>n_map := sm', n_keys := (n_keys s)(ka := None), n_vals := (n_vals s)(a := None)\<rparr>"
      have own: "own_values (n_vals s) (m(k := None))" using m(2) by (auto simp: own_values_def split: if_splits)
      note fg = nodes_rep_forget [OF m(1,2) kv [unfolded n(4)] sm'(2) own]
      have "(\<lambda>y. map_option (load s) ((m(k := None)) y)) = d(k := None)" using m(3) by auto
      with fg(1) have rep': "nodes_rep ?s (d(k := None))" by simp
      have ne: "key \<noteq> ka" using fresh_map(1) [OF m(1), of key] key(3) kv by blast
      then have key': "n_keys ?s key = Some (made_key now k)" using key(1) by simp
      have "fresh_key key ?s"
        using fresh_map(1) [OF fg(2), of key] fresh_map(1) [OF m(1), of key] key(3) by (auto split: if_splits)
      note clean = get_clean_alone [OF rep' key' this]
      have "node_step al (Do_Get key G_remove, s) = Ret (Do_Get key (G_clean (Some RESP_NIL)), ?s)"
        using sm'(1) n(1,4,5) by (simp add: clean_up_at_def free_node_def)
      with exp True have "alone al (Do_Get key (G_expired (Some ka) v), s) (Do_Get key (G_clean (Some RESP_NIL)), ?s)"
        by (auto intro!: alone_step [OF _ alone_step [OF _ alone_refl]])
      with enter kv have "alone al (Do_Get key G_enter, s) (Do_Get key (G_clean (Some RESP_NIL)), ?s)"
        by (auto intro: alone_trans)
      from clean [OF this] fg(3) [OF _ refl] spec show ?thesis by simp
    qed
  qed
qed

text \<open>A SET alone stores the new pair; an old pair is freed.\<close>

abbreviation addr_kvp :: "nat \<Rightarrow> nat \<Rightarrow> addr_pair" where
  "addr_kvp a v \<equiv> \<lparr>kvp_key = Some a, kvp_value = Some v\<rparr>"

lemma set_run_alone:
  assumes "node_map s m" "n_keys s a = Some kn" "key_ok kn"
    "sm_set al (Some (n_map s)) (Some (addr_kvp a v)) (Some (compare_at (n_keys s))) = Ret (rtn, Some sm', Some kvp')"
  shows "alone al (Do_Set (addr_kvp a v) T_enter, s) (Do_Set (addr_kvp a v) (T_set (S_done rtn kvp')), s\<lparr>n_map := sm'\<rparr>)"
proof -
  obtain es where es: "sm_rep (n_map s) es" using assms(1) by (auto elim: sm_mapE)
  obtain ks vs where c: "keys (n_map s) = Some ks" "vals (n_map s) = Some vs" "length ks = nat (capacity (n_map s))" "length vs = length ks"
    by (rule sm_rep_cells [OF es], rule that)
  with sm_rep_capacity [OF es] have "not_freed (n_map s)" by (auto simp: not_freed_def)
  from set_alone [OF this, of al "compare_at (n_keys s)" "addr_kvp a v"] assms(4)
  have "runs_to al (compare_at (n_keys s)) (addr_kvp a v) (S_enter, n_map s) (Ret (S_done rtn kvp', sm'))" by simp
  note run = set_alone_nodes [OF this]
  have "kn_content kn \<noteq> None" using assms(3) by (auto simp: key_ok_def split: option.splits)
  then have "node_step al (Do_Set (addr_kvp a v) T_enter, s) = Ret (Do_Set (addr_kvp a v) (T_set S_enter), s)"
    using c assms(2) by simp
  from alone_step [OF this run] show ?thesis .
qed

lemma own_values_upd:
  assumes "own_values h m" "h v = Some w" "value_ok w" "\<And>y k u. m y = Some (k, u) \<Longrightarrow> u \<noteq> Some v"
  shows "own_values h (m(x \<mapsto> (a, Some v)))"
  using assms unfolding own_values_def by (auto split: if_splits)

lemma set_upgrade_alone:
  assumes m: "node_map s m" "own_values (n_vals s) m" and key: "n_keys s a = Some kn" "key_ok kn" "key_bytes kn = x"
    and old: "m x = Some (ka, Some va)"
  obtains sm' where "sm_map (node_ok (n_keys s)) (node_bytes (n_keys s)) sm' (m(x \<mapsto> (a, Some v)))"
    "alone al (Do_Set (addr_kvp a v) T_enter, s) (Do_Set (addr_kvp a v) (T_done (Some RESP_OK)),
      s\<lparr>n_map := sm', n_keys := (n_keys s)(ka := None), n_vals := (n_vals s)(va := None)\<rparr>)"
proof -
  have node: "node_ok (n_keys s) a" "node_bytes (n_keys s) a = x" using key by (simp_all add: node_ok_def node_bytes_def)
  obtain sm' where sm': "sm_set al (Some (n_map s)) (Some (addr_kvp a v)) (Some (compare_at (n_keys s))) =
      Ret (SUCESS_UPGRADE, Some sm', Some (addr_kvp ka va))"
    "sm_map (node_ok (n_keys s)) (node_bytes (n_keys s)) sm' (m(x \<mapsto> (a, Some v)))"
    using heap.set_refines_upgrade [OF m(1) node(1), unfolded node(2), OF old] by blast
  have kv: "n_keys s ka \<noteq> None" "n_vals s va \<noteq> None" using node_entry [OF m old] by (metis option.discI option.inject)+
  let ?s = "s\<lparr>n_map := sm', n_keys := (n_keys s)(ka := None), n_vals := (n_vals s)(va := None)\<rparr>"
  have "alone al (Do_Set (addr_kvp a v) (T_set (S_done SUCESS_UPGRADE (addr_kvp ka va))), s\<lparr>n_map := sm'\<rparr>)
      (Do_Set (addr_kvp a v) (T_done (Some RESP_OK)), ?s)"
    by (rule alone_step [OF _ alone_step [OF _ alone_refl]]) (use kv in \<open>auto simp: clean_up_at_def free_node_def\<close>)
  with set_run_alone [OF m(1) key(1,2) sm'(1)] have "alone al (Do_Set (addr_kvp a v) T_enter, s)
      (Do_Set (addr_kvp a v) (T_done (Some RESP_OK)), ?s)" by (rule alone_trans)
  with that sm'(2) show ?thesis .
qed

lemma set_alone_store:
  assumes rep: "nodes_rep s d" and key: "n_keys s a = Some kn" "key_ok kn" "fresh_key a s"
    and val: "n_vals s v = Some w" "value_ok w" "fresh_value v s"
    and room: "2 * capacity (n_map s) \<le> INT_MAX" "realloc_keys al" "realloc_values al"
  shows "\<exists>s'. alone al (Do_Set (addr_kvp a v) T_enter, s) (Do_Set (addr_kvp a v) (T_done (Some RESP_OK)), s') \<and>
    nodes_rep s' (d(key_bytes kn \<mapsto> entry_of (kn, Some w)))"
proof -
  let ?x = "key_bytes kn"
  obtain m where m: "node_map s m" "own_values (n_vals s) m" "d = (\<lambda>x. map_option (load s) (m x))"
    using rep by (rule nodes_repE)
  have node: "node_ok (n_keys s) a" "node_bytes (n_keys s) a = ?x" using key by (simp_all add: node_ok_def node_bytes_def)
  have own: "own_values (n_vals s) (m(?x \<mapsto> (a, Some v)))"
    using own_values_upd [OF m(2) val(1,2)] fresh_map(2) [OF m(1), of v] val(3) by blast
  have d: "(\<lambda>y. map_option (load s) ((m(?x \<mapsto> (a, Some v))) y)) = d(?x \<mapsto> entry_of (kn, Some w))"
    using m(3) key(1) val(1) by (auto simp: load_def)
  show ?thesis
  proof (cases "m ?x")
    case None
    obtain sm' where sm': "sm_set al (Some (n_map s)) (Some (addr_kvp a v)) (Some (compare_at (n_keys s))) =
        Ret (SUCESS_SET, Some sm', Some (addr_kvp a v))"
      "sm_map (node_ok (n_keys s)) (node_bytes (n_keys s)) sm' (m(?x \<mapsto> (a, Some v)))"
      using heap.set_refines_new [OF m(1) node(1), unfolded node(2), OF None room] by blast
    let ?s = "s\<lparr>n_map := sm'\<rparr>"
    have "alone al (Do_Set (addr_kvp a v) (T_set (S_done SUCESS_SET (addr_kvp a v))), ?s) (Do_Set (addr_kvp a v) (T_done (Some RESP_OK)), ?s)"
      by (rule alone_step [OF _ alone_refl]) simp
    with set_run_alone [OF m(1) key(1,2) sm'(1)] have "alone al (Do_Set (addr_kvp a v) T_enter, s)
        (Do_Set (addr_kvp a v) (T_done (Some RESP_OK)), ?s)" by (rule alone_trans)
    moreover have "load ?s = load s" by (simp add: load_def fun_eq_iff split: option.split)
    then have "nodes_rep ?s (d(?x \<mapsto> entry_of (kn, Some w)))"
      using sm'(2) own d unfolding nodes_rep_def by (intro exI [of _ "m(?x \<mapsto> (a, Some v))"]) simp
    ultimately show ?thesis by blast
  next
    case (Some kv)
    then obtain ka u where kv: "m ?x = Some (ka, u)" by (cases kv) auto
    obtain va where va: "u = Some va" by (rule node_entry [OF m(1,2) kv], rule that)
    obtain sm' where sm': "sm_map (node_ok (n_keys s)) (node_bytes (n_keys s)) sm' (m(?x \<mapsto> (a, Some v)))"
      "alone al (Do_Set (addr_kvp a v) T_enter, s) (Do_Set (addr_kvp a v) (T_done (Some RESP_OK)),
        s\<lparr>n_map := sm', n_keys := (n_keys s)(ka := None), n_vals := (n_vals s)(va := None)\<rparr>)"
      by (rule set_upgrade_alone [OF m(1,2) key(1,2) refl kv [unfolded va]])
    have "a \<noteq> ka" "v \<noteq> va" using fresh_map [OF m(1)] key(3) val(3) kv va by blast+
    from nodes_rep_forget(1) [OF m(1,2) kv [unfolded va] sm'(1) own] this sm'(2) show ?thesis unfolding d by auto
  qed
qed

section \<open>Schedules\<close>

definition node_reaches :: "alloc \<Rightarrow> node_thread list \<times> nodes \<Rightarrow> (node_thread list \<times> nodes) outcome \<Rightarrow> bool" where
  "node_reaches al st r \<longleftrightarrow> (\<exists>js. node_run al js st = r)"

lemma node_alone:
  assumes "alone al (ths ! j, s) (th, s')" "j < length ths" "node_reaches al (ths[j := th], s') r"
  shows "node_reaches al (ths, s) r"
proof -
  from assms(1) obtain n where "node_steps al n (ths ! j, s) = Ret (th, s')" by (auto simp: alone_def)
  then show ?thesis using assms(2,3)
  proof (induction n arbitrary: ths s)
    case (Suc n)
    then obtain th1 s1 where s1: "node_step al (ths ! j, s) = Ret (th1, s1)" "node_steps al n (th1, s1) = Ret (th, s')"
      by (auto simp: obind_Ret_iff)
    have "node_reaches al (ths[j := th1], s1) r" by (rule Suc.IH) (use s1(2) Suc.prems in simp_all)
    then obtain js where "node_run al js (ths[j := th1], s1) = r" by (auto simp: node_reaches_def)
    then have "node_run al (j # js) (ths, s) = r" using s1(1) Suc.prems(2) by simp
    then show ?case unfolding node_reaches_def by blast
  next
    case 0
    then have "ths[j := th] = ths" "s' = s" by auto
    with 0 show ?case by simp
  qed
qed

lemma node_stuck: "j < length ths \<Longrightarrow> node_step al (ths ! j, s) = UB \<Longrightarrow> node_reaches al (ths, s) UB"
  unfolding node_reaches_def by (rule exI [of _ "[j]"]) simp

section \<open>Properties\<close>

text \<open>One entry, and the search key of a GET of the same key.\<close>

definition demo_nodes :: nodes where
  "demo_nodes =
     \<lparr>n_map = \<lparr>keys = Some [Ptr (Some 1)], vals = Some [Ptr (Some 2)], capacity = 1, top = 0\<rparr>,
      n_keys = [1 \<mapsto> made_key (Timespec 5 0) ''k'', 3 \<mapsto> made_key (Timespec 6 0) ''k'', 4 \<mapsto> made_key (Timespec 7 0) ''k''],
      n_vals = [2 \<mapsto> demo_value]\<rparr>"

lemma demo_nodes_rep: "nodes_rep demo_nodes [''k'' \<mapsto> entry_of (made_key (Timespec 5 0) ''k'', Some demo_value)]"
proof -
  have "sm_rep (n_map demo_nodes) [(1, Some 2)]" by (simp add: sm_rep_def demo_nodes_def)
  then have "node_map demo_nodes [''k'' \<mapsto> (1, Some 2)]"
    unfolding sm_map_def by (intro exI [of _ "[(1, Some 2)]"]) (simp add: demo_nodes_def entries_map_def node_ok_def node_bytes_def)
  moreover have "own_values (n_vals demo_nodes) [''k'' \<mapsto> (1, Some 2)]"
    by (simp add: own_values_def demo_nodes_def demo_ok)
  ultimately show ?thesis
    unfolding nodes_rep_def by (intro exI [of _ "[''k'' \<mapsto> (1, Some 2)]"]) (auto simp: load_def demo_nodes_def)
qed

text \<open>C20. GET statement by statement, with the nodes as blocks on a heap: run without interference it reads no
  freed node, answers as the abstract GET, and leaves the nodes representing the abstract GET's store;
  of the nodes that the map does not hold, its search key is freed and no other is left or freed, so the
  pair of an expired key, which leaves the map, is freed as well.\<close>

theorem get_nodes_refines:
  assumes "nodes_rep s d" "n_keys s key = Some (made_key now k)" "k \<noteq> []" "fresh_key key s"
  shows "\<exists>n s'. node_steps al n (Do_Get key G_enter, s) = Ret (Do_Get key (G_done (Some (fst (get_spec now k d)))), s') \<and>
    nodes_rep s' (snd (get_spec now k d)) \<and> stray_keys s' = stray_keys s - {key} \<and> stray_values s' = stray_values s"
  using get_alone [OF assms] unfolding alone_def by blast

theorem get_nodes_refines_witness:
  "\<exists>n s'. node_steps alloc_ok n (Do_Get 3 G_enter, demo_nodes) = Ret (Do_Get 3 (G_done (Some (bulk ''v''))), s') \<and> 3 \<notin> stray_keys s'"
proof -
  have "fresh_key 3 demo_nodes" by (simp add: fresh_key_def demo_nodes_def)
  moreover have "fst (get_spec (Timespec 6 0) ''k'' [''k'' \<mapsto> entry_of (made_key (Timespec 5 0) ''k'', Some demo_value)]) = bulk ''v''"
    by (simp add: get_spec_def expired_def entry_of_def made_key_def demo_ok)
  ultimately show ?thesis
    using get_nodes_refines [OF demo_nodes_rep, of 3 "Timespec 6 0" "''k''" alloc_ok] by (auto simp: demo_nodes_def)
qed

text \<open>C19. A GET uses memory that a concurrent SET frees: in every state of the map in which \<open>k1\<close> is present,
  a GET of the same key, or of an absent key, which compares its key with all keys, and a SET of \<open>k1\<close>
  have an interleaving in which the GET reads the key node that the SET has just freed. No two
  statements of one call change places: each command alone has no undefined behaviour.\<close>

theorem get_race_use_after_free:
  assumes rep: "nodes_rep s d" and k1: "n_keys s a1 = Some k1" "key_ok k1" "d (key_bytes k1) \<noteq> None"
    and k2: "n_keys s a2 = Some k2" "key_ok k2" "key_bytes k2 = key_bytes k1 \<or> d (key_bytes k2) = None"
  shows "\<exists>js. node_run al js ([Do_Set (addr_kvp a1 v1) T_enter, Do_Get a2 G_enter], s) = UB"
proof -
  obtain m where m: "node_map s m" "own_values (n_vals s) m" "d = (\<lambda>x. map_option (load s) (m x))"
    using rep by (rule nodes_repE)
  obtain es where es: "sm_rep (n_map s) es" "\<forall>e\<in>set es. node_ok (n_keys s) (fst e)"
    "distinct (map (\<lambda>e. node_bytes (n_keys s) (fst e)) es)" "m = entries_map (node_bytes (n_keys s)) es"
    by (rule sm_mapE [OF m(1)])
  obtain ks where c: "keys (n_map s) = Some ks" "length es \<le> length ks"
    "\<And>i. i < length es \<Longrightarrow> ks ! i = Ptr (Some (fst (es ! i)))"
    by (rule sm_rep_cells [OF es(1)], rule that)
  note top = sm_rep_top [OF es(1)]
  obtain ka u where kv: "m (key_bytes k1) = Some (ka, u)" using k1(3) m(3) by auto
  obtain va where va: "u = Some va" by (rule node_entry [OF m(1,2) kv], rule that)
  have "(ka, u) \<in> set es" "node_bytes (n_keys s) ka = key_bytes k1" using kv entries_map_Some_iff [OF es(3)] es(4) by auto
  then obtain i where i: "i < length es" "es ! i = (ka, u)" by (auto simp: in_set_conv_nth)
  have before: "node_bytes (n_keys s) (fst (es ! j)) \<noteq> key_bytes k2" if "j < i" for j
  proof
    assume eq: "node_bytes (n_keys s) (fst (es ! j)) = key_bytes k2"
    have "m (key_bytes k2) = Some (es ! j)" using entries_map_Some_iff [OF es(3)] es(4) eq that i(1) by simp
    with k2(3) m(3) kv i have "es ! j = es ! i" by auto
    with that i(1) nth_eq_iff_index_eq [OF es(3), of j i] show False by simp
  qed
  have node: "node_ok (n_keys s) a2" "node_bytes (n_keys s) a2 = key_bytes k2"
    using k2(1,2) by (simp_all add: node_ok_def node_bytes_def)
  have "alone al (Do_Get a2 (G_find 0), s) (Do_Get a2 (G_find (int i)), s)"
    using i(1) c(2,3) top before es(2) heap.cmp_ident [of "n_keys s" _ a2] node
    by (intro get_find_alone [OF c(1)]) auto
  moreover have "alone al (Do_Get a2 (G_find (int i)), s) (Do_Get a2 (G_compare (int i) (Some ka)), s)"
    by (rule alone_step [OF _ alone_step [OF _ alone_refl]]) (use i c top in \<open>auto simp: cell_at_def\<close>)
  moreover have "node_step al (Do_Get a2 G_enter, s) = Ret (Do_Get a2 (G_find 0), s)" using c(1) by simp
  ultimately have get: "alone al (Do_Get a2 G_enter, s) (Do_Get a2 (G_compare (int i) (Some ka)), s)"
    by (blast intro: alone_step alone_trans)
  obtain sm' where set: "alone al (Do_Set (addr_kvp a1 v1) T_enter, s) (Do_Set (addr_kvp a1 v1) (T_done (Some RESP_OK)),
      s\<lparr>n_map := sm', n_keys := (n_keys s)(ka := None), n_vals := (n_vals s)(va := None)\<rparr>)"
    by (rule set_upgrade_alone [OF m(1,2) k1(1,2) refl kv [unfolded va]])
  let ?s = "s\<lparr>n_map := sm', n_keys := (n_keys s)(ka := None), n_vals := (n_vals s)(va := None)\<rparr>"
  have "node_reaches al ([Do_Set (addr_kvp a1 v1) (T_done (Some RESP_OK)), Do_Get a2 (G_compare (int i) (Some ka))], ?s) UB"
    by (rule node_stuck [of 1]) (simp_all add: compare_at_def)
  then have "node_reaches al ([Do_Set (addr_kvp a1 v1) T_enter, Do_Get a2 (G_compare (int i) (Some ka))], s) UB"
    by (rule_tac node_alone [where j = 0]) (use set in simp_all)
  then have "node_reaches al ([Do_Set (addr_kvp a1 v1) T_enter, Do_Get a2 G_enter], s) UB"
    by (rule_tac node_alone [where j = 1]) (use get in simp_all)
  then show ?thesis by (simp add: node_reaches_def)
qed

theorem get_race_use_after_free_witness:
  "\<exists>js. node_run alloc_ok js ([Do_Set (addr_kvp 4 6) T_enter, Do_Get 3 G_enter], demo_nodes) = UB"
  by (rule get_race_use_after_free [OF demo_nodes_rep, of 4 "made_key (Timespec 7 0) ''k''" 3 "made_key (Timespec 6 0) ''k''"])
    (simp_all add: demo_nodes_def)

end
