(* ===== verification/Spec2Isabelle.thy ===== *)
theory Spec2Isabelle
  imports Program_Props Threads Rdb_Parser Client Node_Race
begin

text \<open>
  A verification development for a small Redis-like server in C
  (\<^verbatim>\<open>redis_impl_using_c\<close>). Clients speak RESP over TCP; the server answers SET, GET, ECHO and
  CONFIG GET from one in-memory map.

  \<^bold>\<open>The program and the theories.\<close> The main thread of \<^verbatim>\<open>src/src/server.c\<close> accepts connections and
  queues them; a pool of workers takes them out and runs \<^verbatim>\<open>app_code\<close> (\<^verbatim>\<open>src/src/app.c\<close>) on each, which
  reads a request with the RESP lexer (\<^verbatim>\<open>src/src/protocol.c\<close>), dispatches it (\<^verbatim>\<open>src/src/cmd_handler.c\<close>)
  and sends the reply; a manager thread moves connections that waited too long to a second queue, whose
  thread turns them away.

  \<^item> \<open>Prelude\<close>: outcomes of C code (\<open>Ret\<close>, \<open>UB\<close> for undefined behaviour, \<open>OutOfFuel\<close>), C strings,
    decimal text, \<^verbatim>\<open>calloc\<close> buffers. \<open>C_Float\<close>: \<^verbatim>\<open>float\<close> and \<^verbatim>\<open>double\<close> rounding on rationals, clock
    readings.
  \<^item> \<open>Errors\<close>, \<open>Net_IO\<close>: the error categories of \<^verbatim>\<open>errors.c\<close>; \<^verbatim>\<open>msleep\<close>, \<^verbatim>\<open>send_resp_to_clnt\<close>,
    \<^verbatim>\<open>recv_resp_fm_clnt\<close>, \<^verbatim>\<open>read_exact_bytes\<close> over a scripted connection.
  \<^item> \<open>Simple_Map\<close>: the association map of \<^verbatim>\<open>simple_map.c\<close> on its two cell arrays; locale \<open>key_compare\<close>
    (what a comparison callback promises) proves \<open>sm_set\<close>, \<open>sm_get\<close> and \<open>remove_key\<close> against a finite
    map. \<open>Util\<close> and \<open>Key_Value\<close> interpret it for \<^verbatim>\<open>compare_str\<close> and \<^verbatim>\<open>compare\<close>.
  \<^item> \<open>Protocol\<close>: the RESP lexer with its size state machine.
  \<^item> \<open>Store\<close>: the abstract store, a map from keys to values with an expiry. \<open>Set_Parser\<close>,
    \<open>Set_Exec\<close>, \<open>Get_Cmd\<close>, \<open>Echo_Cmd\<close>, \<open>Config_Cmd\<close>, \<open>Dispatch\<close>: the command handlers of
    \<^verbatim>\<open>cmd_handler.c\<close> and their abstract counterparts (\<open>set_grammar\<close>, \<open>set_spec\<close>, \<open>get_spec\<close>, \<open>serve\<close>).
  \<^item> \<open>Ownership\<close>: the key and value nodes that SET and GET allocate, store and free, counted as a
    multiset of pairs; what SET with NX leaks when the arrays cannot grow.
  \<^item> \<open>App\<close>: the request loop \<^verbatim>\<open>app_code\<close>; \<open>serve_all\<close> is what a sequence of requests does on the store.
    In \<open>app_iter\<close> the end of the receive script is the end of the stream; \<open>awaits\<close> says when an iteration
    would wait in \<^verbatim>\<open>recv\<close> instead, if the client has not closed.
  \<^item> \<open>Truncated\<close>: the lexer and the request loop when the client closes in the middle of a request.
  \<^item> \<open>Queue\<close>: the linked queue of \<^verbatim>\<open>queue.c\<close> on a heap of nodes; locale \<open>fifo_queue\<close> is the interface
    the threads use, interpreted on the linked queue.
  \<^item> \<open>Server_Util\<close>, \<open>Server\<close>: the helpers and the threads of \<^verbatim>\<open>server.c\<close>, one step function per thread
    and statement, and the interleavings of their steps (\<open>exec\<close>, \<open>reachable\<close>). A worker's call of
    \<^verbatim>\<open>args->func\<close> is a step that completes only if the call returns. \<open>Server_Sim\<close>: the server
    over any \<open>fifo_queue\<close> is simulated by the server over lists. \<open>Server_Inv\<close>, \<open>Server_Live\<close>: the
    invariants and the termination weight. \<open>Server_Props\<close>: the properties for the linked queue.
  \<^item> \<open>Threads\<close>: how \<^verbatim>\<open>start_server\<close> hands each thread its queues, mutexes and semaphores
    (\<^verbatim>\<open>init_th_req_queue_mgr\<close>, \<^verbatim>\<open>init_th_excd_tm_q_mgr\<close>, \<^verbatim>\<open>init_worker_th\<close>, \<^verbatim>\<open>run_thread\<close>).
  \<^item> \<open>Startup\<close>: \<^verbatim>\<open>cli_parser\<close>, \<^verbatim>\<open>setup\<close> and \<^verbatim>\<open>main\<close>.
  \<^item> \<open>Sessions\<close>: several workers on several connections with the one data map, request by request.
    \<open>Program\<close>, \<open>Program_Inv\<close>, \<open>Program_Props\<close>: the whole running program, the threads of \<open>Server\<close> with
    the linked queues, the connections behind the file descriptors and the global maps, where a worker
    runs its loop request by request (\<open>app_iter\<close>). Bytes arrive when they please (\<open>Arrive\<close>), a client may
    close at any byte (\<open>Hang_Up\<close>) or stay silent, and a worker whose client is silent is blocked
    (\<open>waits_for_client\<close>); the invariant and what every client gets.
  \<^item> \<open>Map_Steps\<close>, \<open>Map_Race\<close>: \<^verbatim>\<open>set\<close> of \<^verbatim>\<open>simple_map.c\<close> statement by statement, with \<^verbatim>\<open>realloc\<close> freeing
    the old block, and what interleaved calls of several workers do. \<open>Node_Race\<close>: \<^verbatim>\<open>handle_get_cmd\<close> and
    \<^verbatim>\<open>execute_set_basic\<close> statement by statement over a map of addresses, with the key and value nodes
    as heap blocks that are freed; locale \<open>key_compare\<close> is interpreted for \<^verbatim>\<open>compare\<close> on every heap.
  \<^item> \<open>Rdb_Parser\<close>: \<^verbatim>\<open>rdb_file_parser.c\<close>, which the program does not call yet.
  \<^item> \<open>Client\<close>: the test client \<^verbatim>\<open>src/client/client.c\<close>, and its command served by a worker.

  \<^bold>\<open>What is shown.\<close> Started with both options, with clients that send well-formed requests, one request
  being one step on the global map, the whole program answers every client exactly as the abstract
  store does, whatever clients connect and however threads and requests interleave
  (\<open>program_serves\<close>), clients that are silent or close in the middle of a request included. When no new
  client and no new byte comes it answers every request that has arrived, unless all workers wait for
  silent clients, for which no receive timeout is set; if all clients close, it closes every connection
  that was not lost to a failed allocation (\<open>program_answers_all\<close>). Below that stand the refinement
  theorems of the request loop, of the handlers and of the map. GET leaks no node and frees none twice;
  neither does SET as long as the map has room or can grow, except for the option combinations that
  \<^verbatim>\<open>execute_set_cmd\<close> has no branch for. The lexer terminates on every input and inverts the RESP
  printer. The server threads get the right arguments,
  keep their queues under mutual exclusion, lose or duplicate no connection (but those whose queue node
  could not be allocated), serve in arrival order, deny
  only requests that waited longer than a second, lose no wake-up, cannot deadlock and run dry when no
  client comes, up to calls of \<^verbatim>\<open>app_code\<close> that do not return.

  These theorems take one request at a time on the global map, which no lock enforces: commands that
  overlap are outside them. \<open>Map_Race\<close> says
  what happens otherwise, for interleavings of the statements of \<^verbatim>\<open>set\<close>: threads that overwrite different
  present keys do not disturb each other, two insertions may lose a key although both report success,
  an insertion that doubles the arrays frees memory that another thread reads, and two SETs of one key
  free its old nodes twice. \<open>Node_Race\<close> adds the nodes: GET and SET alone read and free no freed node and
  do what the abstract store does, but a GET may compare its key with one that a SET has just freed.
  Several theorems state further defects precisely: the map that loses its keys when two reallocations
  fail, the test client and the worker that wait for each other, the overflow of the size buffer, the null bulk string
  with which any client crashes the program, the default option values, the waiting limit that ignores
  its configuration, the reader of RDB files that never accepts one.

  \<^bold>\<open>Bounds and fuel.\<close> The lexer gets one unit of fuel per receive event, and each element it reads takes
  at least one event, so it never runs out (\<open>lexer_total\<close>). Every other loop is structural or has a
  termination proof; the main loop of the RDB reader may run for ever and is a \<open>partial_function\<close>, where
  \<open>None\<close> is divergence. Requests in the refinement theorems have lengths below the protocol's limits and
  the reply to CONFIG GET stays within \<^verbatim>\<open>INT_MAX\<close> bytes, as its write position is an \<^verbatim>\<open>int\<close>;
  the number of keys stays below half of \<^verbatim>\<open>INT_MAX\<close> cells, as the code's doubling needs.

  \<^bold>\<open>Parameters.\<close> \<^verbatim>\<open>fnmatch\<close> (assumed to match names up to case), \<^verbatim>\<open>getopt_long\<close> (its results, call by
  call), the clock, the results of \<^verbatim>\<open>realloc\<close>, of socket calls, of \<^verbatim>\<open>pthread_create\<close> and of
  \<^verbatim>\<open>pthread_mutex_lock\<close>, and the allocation of queue nodes; in \<open>Server\<close> whether a
  call of \<^verbatim>\<open>args->func\<close> returns, in \<open>Program\<close> when bytes arrive and when clients close.

  \<^bold>\<open>Not modelled.\<close> In \<open>Program\<close>, commands that overlap, partial or failing sends and failing receives
  (\<open>Net_IO\<close> and \<open>App\<close> have them); most failing \<^verbatim>\<open>calloc\<close> calls other than those of the map, the queue and the thread
  arguments; console output; data races of \<^verbatim>\<open>remove_key\<close>, which is one step in \<open>Node_Race\<close>, and of the
  commands other than GET and the basic SET; memory weaker than sequentially consistent; failing mutex
  operations inside the thread steps (they end the process, see \<open>mutex_lock_exact\<close>); clients of the
  whole program that send malformed requests (the lexer and the request loop alone cover them; one such
  client is \<open>null_bulk_kills_program\<close>); the clean-up code after the endless accept loop, which is never
  reached; the tests. The queues of the server are taken to be created (a NULL from \<^verbatim>\<open>init_queue\<close> is
  dereferenced later).
\<close>

section \<open>Properties of the whole server\<close>

text \<open>C3. End to end: on a connection that delivers any sequence of well-formed requests and accepts the
  replies, a worker sends exactly the replies that the abstract store gives to these requests in order,
  each followed by a NUL byte, and the data map ends up representing the abstract store's final
  state.\<close>

theorem server_refines_store:
  assumes "config_ok cfg es" "\<forall>k. fnmatch_casefold (env_fnmatch (envs k))" "NUL \<notin> set nl"
    "\<forall>k. realloc_keys (env_alloc (envs k)) \<and> realloc_values (env_alloc (envs k))"
    "db_rep sm d" "\<forall>req\<in>set reqs. plain req" "\<forall>i<length reqs. servable (envs i) es (reqs ! i)"
    "2 * max (capacity sm) (2 * (int (card (dom d)) + int (length reqs))) \<le> INT_MAX"
    "rx s = rx_bytes (concat (map resp reqs))" "tx s = []"
  shows "\<exists>sm'. app_code envs nl \<lparr>arg_sm = Some sm, arg_config_dict = Some cfg\<rparr> s =
      Ret (s\<lparr>rx := [], sent := sent s @ fst (serve_all envs es 0 reqs d)\<rparr>,
           \<lparr>arg_sm = Some sm', arg_config_dict = Some cfg\<rparr>) \<and>
    db_rep sm' (snd (serve_all envs es 0 reqs d))"
  unfolding app_code_def using assms by (intro app_loop_serves) simp_all

theorem server_refines_store_witness:
  "\<exists>sm'. app_code (\<lambda>k. demo_env (Timespec (int k) 0)) ''(null)''
      \<lparr>arg_sm = Some create_simple_map, arg_config_dict = Some demo_config\<rparr>
      (demo_sock (concat (map resp [request [''SET'', ''k'', ''v''], request [''get'', ''k'']]))) =
    Ret ((demo_sock [])\<lparr>sent := ''+OK'' @ CRLF @ [NUL] @ ''$1'' @ CRLF @ ''v'' @ CRLF @ [NUL]\<rparr>,
         \<lparr>arg_sm = Some sm', arg_config_dict = Some demo_config\<rparr>) \<and>
    db_rep sm' [''k'' \<mapsto> new_entry (Timespec 0 0) ''v'' 0 0]"
proof -
  let ?reqs = "[request [''SET'', ''k'', ''v''], request [''get'', ''k'']]"
  have "config_ok demo_config demo_entries"
    using demo_config_rep by (simp add: config_ok_def) (simp add: demo_entries_def)
  from server_refines_store [OF this _ _ _ db_rep_create _ demo_servable, of "''(null)''" "demo_sock (concat (map resp ?reqs))"]
  show ?thesis
    unfolding demo_serve
    by (simp add: demo_env_def glob_fnmatch_casefold alloc_ok_def demo_sock_def create_simple_map_def
        request_def arg_def PROTO_MAX_BULK_SIZE_def del: resp.simps)
qed

text \<open>The whole program on one connection: started with values for both options, a worker answers any
  sequence of well-formed requests as the abstract store does that is empty at first and whose
  configuration lists the two option values.\<close>

lemma started_program_serves:
  assumes "cli_loop opts None None = Some (Some dir, Some dbfilename)"
    "dir \<noteq> []" "NUL \<notin> set dir" "dbfilename \<noteq> []" "NUL \<notin> set dbfilename"
    "realloc_keys al" "realloc_values al"
    "start_server b MAIN_PENDING MAIN_WORKERS now2 q_new q_new = Some s"
    and "\<forall>k. fnmatch_casefold (env_fnmatch (envs k))" "NUL \<notin> set nl"
    "\<forall>k. realloc_keys (env_alloc (envs k)) \<and> realloc_values (env_alloc (envs k))"
    "\<forall>req\<in>set reqs. plain req"
    "\<forall>i<length reqs. servable (envs i) (config_entries now0 now1 dir dbfilename) (reqs ! i)"
    "4 * int (length reqs) + 2 \<le> INT_MAX"
    "rx c = rx_bytes (concat (map resp reqs))" "tx c = []"
  shows "\<exists>args sm'. main b al now0 now1 now2 opts = Ret (Some (args, s)) \<and>
    app_code envs nl args c =
      Ret (c\<lparr>rx := [], sent := sent c @ fst (serve_all envs (config_entries now0 now1 dir dbfilename) 0 reqs Map.empty)\<rparr>,
           args\<lparr>arg_sm := Some sm'\<rparr>) \<and>
    db_rep sm' (snd (serve_all envs (config_entries now0 now1 dir dbfilename) 0 reqs Map.empty))"
proof -
  obtain cfg where cfg: "setup_maps al now0 now1 opts = Ret (Some (create_simple_map, cfg))"
    "config_ok cfg (config_entries now0 now1 dir dbfilename)" using setup_config [OF assms(1-7)] by blast
  have "\<exists>sm'. app_loop envs nl 0 \<lparr>arg_sm = Some create_simple_map, arg_config_dict = Some cfg\<rparr> c =
      Ret (c\<lparr>rx := [], sent := sent c @ fst (serve_all envs (config_entries now0 now1 dir dbfilename) 0 reqs Map.empty)\<rparr>,
           \<lparr>arg_sm = Some sm', arg_config_dict = Some cfg\<rparr>) \<and>
    db_rep sm' (snd (serve_all envs (config_entries now0 now1 dir dbfilename) 0 reqs Map.empty))"
    using assms(9-16)
    by (intro app_loop_serves [OF cfg(2) _ _ _ db_rep_create]) (simp_all add: create_simple_map_def)
  with cfg(1) assms(8) show ?thesis by (fastforce simp: main_def app_code_def)
qed

end
